(* ===== verification/Prelude.thy ===== *)
theory Prelude
  imports Main "HOL-Library.Finite_Map" "HOL-Library.List_Lexorder" "HOL-Library.Char_ord"
    "HOL-Library.Sublist" "HOL-Library.Word"
begin

text \<open>
  What every component of the development shares: the Go built-in types and the few functions
  of Go's standard library that the source calls, with the lemmas about them.

  \<^item> A Go \<open>string\<close> is a list of bytes (\<open>char list\<close>). Letter case and white space are those
    of ASCII: bytes from 128 on are neither letters nor spaces here.
  \<^item> A Go \<open>map\<close> is a finite map \<open>fmap\<close>. A \<open>range\<close> over a map visits its keys in an order
    that Go leaves unspecified, so every function that ranges takes the order it sees as an
    argument, and the theorems hold for each order that lists the keys (\<open>ranges\<close>).
  \<^item> \<open>int64\<close> and \<open>int\<close> (64 bits on every platform the program is released for) are
    mathematical integers with the wrap-around written out by \<open>wrap64\<close> where it matters.
  \<^item> An error return is the left side of a sum.
\<close>

section \<open>Collections of rewrite rules\<close>

named_theorems go_string \<open>evaluation of the string functions\<close>
named_theorems go_map \<open>lookup and domain of the maps of a component\<close>

section \<open>Strings\<close>

definition is_space :: "char \<Rightarrow> bool" where
  "is_space c \<longleftrightarrow> (9 \<le> (of_char c :: nat) \<and> (of_char c :: nat) \<le> 13) \<or> (of_char c :: nat) = 32"

definition is_digit :: "char \<Rightarrow> bool" where
  "is_digit c \<longleftrightarrow> 48 \<le> (of_char c :: nat) \<and> (of_char c :: nat) \<le> 57"

definition upper_char :: "char \<Rightarrow> char" where
  "upper_char c = (if 97 \<le> (of_char c :: nat) \<and> (of_char c :: nat) \<le> 122
     then char_of ((of_char c :: nat) - 32) else c)"

definition lower_char :: "char \<Rightarrow> char" where
  "lower_char c = (if 65 \<le> (of_char c :: nat) \<and> (of_char c :: nat) \<le> 90
     then char_of ((of_char c :: nat) + 32) else c)"

text \<open>\<^verbatim>\<open>strings.TrimSpace\<close>, \<^verbatim>\<open>strings.ToUpper\<close> and \<^verbatim>\<open>strings.ToLower\<close>.\<close>

definition TrimSpace :: "string \<Rightarrow> string" where
  "TrimSpace s = rev (dropWhile is_space (rev (dropWhile is_space s)))"

definition ToUpper :: "string \<Rightarrow> string" where
  "ToUpper s = map upper_char s"

definition ToLower :: "string \<Rightarrow> string" where
  "ToLower s = map lower_char s"

text \<open>\<^verbatim>\<open>strings.HasPrefix\<close>, \<^verbatim>\<open>strings.HasSuffix\<close> and the trimming forms.\<close>

definition HasPrefix :: "string \<Rightarrow> string \<Rightarrow> bool" where
  "HasPrefix s p \<longleftrightarrow> take (length p) s = p"

definition TrimPrefix :: "string \<Rightarrow> string \<Rightarrow> string" where
  "TrimPrefix s p = (if HasPrefix s p then drop (length p) s else s)"

definition HasSuffix :: "string \<Rightarrow> string \<Rightarrow> bool" where
  "HasSuffix s p \<longleftrightarrow> length p \<le> length s \<and> drop (length s - length p) s = p"

definition TrimSuffix :: "string \<Rightarrow> string \<Rightarrow> string" where
  "TrimSuffix s p = (if HasSuffix s p then take (length s - length p) s else s)"

text \<open>\<^verbatim>\<open>strings.LastIndex\<close> for one byte: the part before its last occurrence.\<close>

definition before_last :: "char \<Rightarrow> string \<Rightarrow> string option" where
  "before_last c s = (if c \<in> set s
     then Some (rev (tl (dropWhile (\<lambda>x. x \<noteq> c) (rev s)))) else None)"

section \<open>Numbers\<close>

text \<open>\<^verbatim>\<open>%d\<close> of a number, and \<^verbatim>\<open>strconv.ParseInt(s, 10, 64)\<close>.\<close>

definition digit_char :: "nat \<Rightarrow> char" where
  "digit_char d = char_of (48 + d)"

definition digit_val :: "char \<Rightarrow> int" where
  "digit_val c = of_char c - 48"

fun nat_digits :: "nat \<Rightarrow> string" where
  "nat_digits n = (if n < 10 then [digit_char n]
     else nat_digits (n div 10) @ [digit_char (n mod 10)])"

declare nat_digits.simps [simp del]

definition itoa :: "int \<Rightarrow> string" where
  "itoa i = (if i < 0 then CHR ''-'' # nat_digits (nat (- i)) else nat_digits (nat i))"

definition digits_val :: "string \<Rightarrow> int" where
  "digits_val s = foldl (\<lambda>a c. 10 * a + digit_val c) 0 s"

definition ParseInt :: "string \<Rightarrow> int option" where
  "ParseInt s =
     (let neg = (take 1 s = ''-'');
          rest = (if take 1 s = ''-'' \<or> take 1 s = ''+'' then drop 1 s else s);
          v = digits_val rest
      in if rest = [] \<or> \<not> list_all is_digit rest then None
         else if neg then (if v \<le> 2 ^ 63 then Some (- v) else None)
         else (if v < 2 ^ 63 then Some v else None))"

text \<open>The value a 64-bit signed variable holds after an operation whose exact result is \<open>x\<close>.\<close>

definition wrap64 :: "int \<Rightarrow> int" where
  "wrap64 x = (x + 2 ^ 63) mod 2 ^ 64 - 2 ^ 63"

section \<open>Maps and slices\<close>

definition ranges :: "'k list \<Rightarrow> ('k, 'v) fmap \<Rightarrow> bool" where
  "ranges ord m \<longleftrightarrow> distinct ord \<and> set ord = fmdom' m"

text \<open>Reading a key that a map of integers does not hold gives 0.\<close>

definition lookup0 :: "('k, int) fmap \<Rightarrow> 'k \<Rightarrow> int" where
  "lookup0 m k = (case fmlookup m k of None \<Rightarrow> 0 | Some v \<Rightarrow> v)"

text \<open>
  A nil slice and an empty one are told apart by \<^verbatim>\<open>reflect.DeepEqual\<close> only; both range over
  no element.
\<close>

definition elems :: "'a list option \<Rightarrow> 'a list" where
  "elems xs = (case xs of None \<Rightarrow> [] | Some ys \<Rightarrow> ys)"

section \<open>Lemmas\<close>

lemma elems_simps [simp]: "elems None = []" "elems (Some xs) = xs"
  by (simp_all add: elems_def)

lemma lookup0_upd [simp, go_map]:
  "lookup0 (fmupd k v m) k' = (if k' = k then v else lookup0 m k')"
  by (simp add: lookup0_def)

lemma lookup0_empty [simp, go_map]: "lookup0 fmempty k = 0"
  by (simp add: lookup0_def)

lemma in_dom_iff [go_map]: "k \<in> fmdom' m \<longleftrightarrow> fmlookup m k \<noteq> None"
  by (auto simp: fmlookup_dom'_iff)

lemma fmdrop_None [simp, go_map]: "fmlookup m k = None \<Longrightarrow> fmdrop k m = m"
  by (rule fmap_ext) auto

lemma rangesD:
  assumes "ranges ord m"
  shows "distinct ord" and "set ord = fmdom' m"
  using assms by (simp_all add: ranges_def)

lemma ranges_lookup: "ranges ord m \<Longrightarrow> k \<in> set ord \<longleftrightarrow> fmlookup m k \<noteq> None"
  by (simp add: ranges_def fmlookup_dom'_iff)

lemma ranges_length: "ranges ord m \<Longrightarrow> length ord = card (fmdom' m)"
  by (metis distinct_card rangesD)

lemma ranges_same_set: "ranges o1 m \<Longrightarrow> ranges o2 m \<Longrightarrow> set o1 = set o2"
  by (simp add: ranges_def)

lemma sort_ranges_unique: "ranges o1 m \<Longrightarrow> ranges o2 m \<Longrightarrow> sort o1 = sort (o2 :: 'k::linorder list)"
  by (metis rangesD sorted_list_of_set_sort_remdups distinct_remdups_id)

lemma wrap64_id [simp]: "- (2 ^ 63) \<le> x \<Longrightarrow> x < 2 ^ 63 \<Longrightarrow> wrap64 x = x"
  by (simp add: wrap64_def)

lemma wrap64_bounds: "- (2 ^ 63) \<le> wrap64 x" "wrap64 x < 2 ^ 63"
  by (simp_all add: wrap64_def)

subsection \<open>Decimal numbers\<close>

lemma of_char_digit_char [simp]: "d < 10 \<Longrightarrow> of_char (digit_char d) = 48 + d"
  by (simp add: digit_char_def)

lemma digit_char_digit [simp]: "d < 10 \<Longrightarrow> is_digit (digit_char d)"
  by (simp add: is_digit_def)

lemma digit_val_eq: "digit_val c = int (of_char c) - 48"
  by (simp add: digit_val_def of_nat_of_char)

lemma digit_val_char [simp]: "d < 10 \<Longrightarrow> digit_val (digit_char d) = int d"
  by (simp only: digit_val_eq of_char_digit_char)

lemma digit_val_nonneg: "is_digit c \<Longrightarrow> 0 \<le> digit_val c"
  by (simp only: digit_val_eq is_digit_def) linarith

lemma nat_digits_nonempty [simp]: "nat_digits n \<noteq> []"
  by (subst nat_digits.simps) simp

lemma nat_digits_digits: "list_all is_digit (nat_digits n)"
proof (induction n rule: nat_digits.induct)
  case (1 n)
  then show ?case by (subst nat_digits.simps) auto
qed

lemma digits_val_append [simp]: "digits_val (s @ [c]) = 10 * digits_val s + digit_val c"
  by (simp add: digits_val_def)

lemma digits_val_Nil [simp]: "digits_val [] = 0"
  by (simp add: digits_val_def)

lemma digits_val_nat_digits [simp]: "digits_val (nat_digits n) = int n"
proof (induction n rule: nat_digits.induct)
  case (1 n)
  show ?case
  proof (cases "n < 10")
    case True
    then have "nat_digits n = [] @ [digit_char n]" by (subst nat_digits.simps) simp
    then have "digits_val (nat_digits n) = 10 * digits_val [] + digit_val (digit_char n)"
      by (simp only: digits_val_append)
    with True show ?thesis by simp
  next
    case False
    then have "nat_digits n = nat_digits (n div 10) @ [digit_char (n mod 10)]"
      by (subst nat_digits.simps) simp
    with False 1 show ?thesis by (simp add: zdiv_int zmod_int)
  qed
qed

lemma digits_val_nonneg: "list_all is_digit s \<Longrightarrow> 0 \<le> digits_val s"
  by (induction s rule: rev_induct) (auto simp: digit_val_nonneg)

lemma is_digit_not_sign: "is_digit c \<Longrightarrow> c \<noteq> CHR ''-'' \<and> c \<noteq> CHR ''+''"
  by (auto simp: is_digit_def)

lemma nat_digits_no_sign: "take 1 (nat_digits n) \<noteq> ''-''" "take 1 (nat_digits n) \<noteq> ''+''"
proof -
  obtain c cs where c: "nat_digits n = c # cs"
    using nat_digits_nonempty by (cases "nat_digits n") auto
  then have "is_digit c" using nat_digits_digits [of n] by simp
  with c show "take 1 (nat_digits n) \<noteq> ''-''" "take 1 (nat_digits n) \<noteq> ''+''"
    using is_digit_not_sign by auto
qed

lemma ParseInt_nat_digits: "int n < 2 ^ 63 \<Longrightarrow> ParseInt (nat_digits n) = Some (int n)"
  using nat_digits_no_sign [of n] nat_digits_digits [of n] by (simp add: ParseInt_def)

lemma ParseInt_range: "ParseInt s = Some v \<Longrightarrow> - (2 ^ 63) \<le> v \<and> v < 2 ^ 63"
  using digits_val_nonneg [of s] digits_val_nonneg [of "drop 1 s"]
  by (auto simp: ParseInt_def Let_def split: if_splits)

end
