(* ===== verification/Config.thy ===== *)
theory Config
  imports Prelude
begin

text \<open>
  The configuration of \<^verbatim>\<open>internal/config\<close>: the types of \<^verbatim>\<open>config.go\<close>, \<^verbatim>\<open>dependency.go\<close> and
  \<^verbatim>\<open>health.go\<close>, the values of single settings (\<open>parseSignal\<close>, \<open>parseBytes\<close>, \<open>parseDuration\<close>) and
  the two forms of \<open>depends_on\<close>.

  What the YAML decoder (a third-party package) delivers is the input of the model: a record per
  section for the strict decoding of the whole file, and a tree of nodes for \<open>depends_on\<close>, which
  the source walks itself. \<^verbatim>\<open>time.ParseDuration\<close> and \<^verbatim>\<open>url.Parse\<close> are arguments of the functions
  that call them. Errors keep the values their messages print.
\<close>

section \<open>Types\<close>

datatype RestartPolicy = RestartAlways | RestartNever | RestartUnexpected

text \<open>The signals a program may be configured to stop on.\<close>

datatype Signal = SIGHUP | SIGINT | SIGQUIT | SIGKILL | SIGUSR1 | SIGUSR2 | SIGTERM

datatype DependencyCondition = ConditionStarted | ConditionHealthy | ConditionCompleted

record Dependency =
  dep_Name :: string
  dep_Condition :: DependencyCondition

text \<open>Durations are counted in nanoseconds, as \<^verbatim>\<open>time.Duration\<close> does.\<close>

record HealthCheck =
  hc_Exec :: string
  hc_TCP :: string
  hc_HTTP :: string
  hc_Interval :: int
  hc_Timeout :: int
  hc_StartPeriod :: int
  hc_Retries :: int

record SupavisorConfig =
  cfg_LogFile :: string
  cfg_PidFile :: string
  cfg_Socket :: string
  cfg_SocketGroup :: string
  cfg_LogFormat :: string
  cfg_LogLevel :: string

text \<open>A nil \<open>DependsOn\<close> (the setting was absent) is \<open>None\<close>.\<close>

record ProgramConfig =
  pc_Environment :: "(string, string) fmap"
  pc_HealthCheck :: "HealthCheck option"
  pc_Name :: string
  pc_Command :: string
  pc_Directory :: string
  pc_Autorestart :: RestartPolicy
  pc_StdoutLogfile :: string
  pc_StderrLogfile :: string
  pc_User :: string
  pc_DependsOn :: "Dependency list option"
  pc_Autostart :: bool
  pc_Priority :: int
  pc_StartSecs :: int
  pc_StopSignal :: Signal
  pc_StopWaitSecs :: int
  pc_MaxRestarts :: int
  pc_StdoutLogfileMaxBytes :: int
  pc_StdoutLogfileBackups :: int
  pc_StdoutLogfileMaxAge :: int
  pc_StderrLogfileMaxBytes :: int
  pc_StderrLogfileBackups :: int
  pc_StderrLogfileMaxAge :: int

record Config =
  Programs :: "(string, ProgramConfig) fmap"
  SourcePath :: string
  Supavisor :: SupavisorConfig

definition DependencyNames :: "ProgramConfig \<Rightarrow> string list" where
  "DependencyNames p = map dep_Name (elems (pc_DependsOn p))"

text \<open>The decoded file. A pointer setting that is absent is \<open>None\<close>, which is not zero.\<close>

record healthCheckFile =
  hf_Retries :: "int option"
  hf_Exec :: string
  hf_TCP :: string
  hf_HTTP :: string
  hf_Interval :: string
  hf_Timeout :: string
  hf_StartPeriod :: string

record programFile =
  pf_Environment :: "(string, string) fmap"
  pf_HealthCheck :: "healthCheckFile option"
  pf_Autostart :: "bool option"
  pf_Priority :: "int option"
  pf_StartSecs :: "int option"
  pf_StopWaitSecs :: "int option"
  pf_MaxRestarts :: "int option"
  pf_StdoutLogfileBackups :: "int option"
  pf_StdoutLogfileMaxAge :: "int option"
  pf_StderrLogfileBackups :: "int option"
  pf_StderrLogfileMaxAge :: "int option"
  pf_Command :: string
  pf_Directory :: string
  pf_Autorestart :: string
  pf_StopSignal :: string
  pf_StdoutLogfile :: string
  pf_StderrLogfile :: string
  pf_StdoutLogfileMaxBytes :: string
  pf_StderrLogfileMaxBytes :: string
  pf_User :: string
  pf_DependsOn :: "Dependency list option"

text \<open>The \<open>supavisor\<close> section has the same six settings before and after defaults are filled in.\<close>

record configFile =
  cf_Programs :: "(string, programFile option) fmap"
  cf_Supavisor :: SupavisorConfig

datatype config_error =
    InvalidStopSignal string
  | InvalidBytes string string
  | NegativeBytes string string
  | InvalidDuration string string
  | NoProbe
  | SeveralProbes "string list"
  | InvalidTCP string
  | InvalidHTTPUrl string
  | InvalidHTTP string
  | NonPositiveInterval int
  | NonPositiveTimeout int
  | NegativeStartPeriod int
  | RetriesBelowOne int
  | CommandRequired
  | InvalidAutorestart string
  | UserNotImplemented string
  | NegativeSetting string int
  | ProgramError string string config_error
  | DuplicateProgram string string string
  | FragmentSupavisorSection string
  | FileError string
  | ParseFailed string string
  | DependsOnDecode string
  | DependsOnKind
  | DependsOnEntry string
  | DependsOnKey string string
  | DependsOnCondition string string
  | CircularDependency string string
  | MissingDependency string string
  | NoHealthCheck string string
  | NeverCompletes string string
  | SharedLogfile string string string
  | SocketPathTooLong nat string

section \<open>Single settings\<close>

definition defaultLogFileMaxBytes :: int where "defaultLogFileMaxBytes = 50 * 1024 * 1024"
definition defaultStopWaitSecs :: int where "defaultStopWaitSecs = 10"
definition defaultLogFileBackups :: int where "defaultLogFileBackups = 10"
definition defaultStartSecs :: int where "defaultStartSecs = 1"
definition defaultMaxRestarts :: int where "defaultMaxRestarts = 3"
definition defaultPriority :: int where "defaultPriority = 999"
definition maxSocketPathLen :: nat where "maxSocketPathLen = 104"

lemmas config_defaults = defaultLogFileMaxBytes_def defaultStopWaitSecs_def
  defaultLogFileBackups_def defaultStartSecs_def defaultMaxRestarts_def defaultPriority_def

definition intOrDefault :: "int option \<Rightarrow> int \<Rightarrow> int" where
  "intOrDefault configured fallback = (case configured of None \<Rightarrow> fallback | Some v \<Rightarrow> v)"

definition defaultString :: "string \<Rightarrow> string \<Rightarrow> string" where
  "defaultString s def = (if s = '''' then def else s)"

definition stopSignals :: "(string \<times> Signal) list" where
  "stopSignals =
     [(''TERM'', SIGTERM), (''INT'', SIGINT), (''QUIT'', SIGQUIT), (''HUP'', SIGHUP),
      (''USR1'', SIGUSR1), (''USR2'', SIGUSR2), (''KILL'', SIGKILL)]"

definition parseSignal :: "string \<Rightarrow> config_error + Signal" where
  "parseSignal name =
     (if TrimSpace name = '''' then Inr SIGTERM
      else let key = TrimPrefix (ToUpper (TrimSpace name)) ''SIG''
           in case map_of stopSignals key of
                None \<Rightarrow> Inl (InvalidStopSignal name)
              | Some sig \<Rightarrow> Inr sig)"

text \<open>The multiplication is done on \<open>int64\<close> and wraps.\<close>

definition parseBytes :: "string \<Rightarrow> string \<Rightarrow> config_error + int" where
  "parseBytes field value =
     (let trimmed = TrimSpace value
      in if trimmed = '''' then Inr defaultLogFileMaxBytes
         else
           let upper = ToUpper trimmed;
               (multiplier, upper') =
                 (if HasSuffix upper ''KB'' then (1024, TrimSuffix upper ''KB'')
                  else if HasSuffix upper ''MB'' then (1024 * 1024, TrimSuffix upper ''MB'')
                  else if HasSuffix upper ''GB'' then (1024 * 1024 * 1024, TrimSuffix upper ''GB'')
                  else if HasSuffix upper ''B'' then (1, TrimSuffix upper ''B'')
                  else (1, upper))
           in case ParseInt (TrimSpace upper') of
                None \<Rightarrow> Inl (InvalidBytes field value)
              | Some val \<Rightarrow>
                  if val < 0 then Inl (NegativeBytes field value)
                  else Inr (wrap64 (val * multiplier)))"

text \<open>\<open>ParseDuration\<close> is \<^verbatim>\<open>time.ParseDuration\<close>: \<open>None\<close> for an error.\<close>

definition parseDuration :: "(string \<Rightarrow> int option) \<Rightarrow> string \<Rightarrow> string \<Rightarrow> int \<Rightarrow> config_error + int" where
  "parseDuration ParseDuration field value def =
     (let trimmed = TrimSpace value
      in if trimmed = '''' then Inr def
         else case ParseDuration trimmed of
                None \<Rightarrow> Inl (InvalidDuration field value)
              | Some parsed \<Rightarrow> Inr parsed)"

section \<open>The two forms of depends_on\<close>

text \<open>\<^verbatim>\<open>yaml.Node\<close>: its kind, its resolved tag, its text and, for a collection, its children.\<close>

datatype yaml_kind = DocumentNode | SequenceNode | MappingNode | ScalarNode | AliasNode

datatype yaml_node =
  Node (Kind: yaml_kind) (Tag: string) (Value: string) (Content: "yaml_node list")

definition condition_of :: "string \<Rightarrow> DependencyCondition option" where
  "condition_of s =
     (if s = ''started'' then Some ConditionStarted
      else if s = ''healthy'' then Some ConditionHealthy
      else if s = ''completed'' then Some ConditionCompleted
      else None)"

text \<open>
  A mapping node lists its keys and values alternately; a key without a value is never looked at.
\<close>

fun condition_loop :: "string \<Rightarrow> yaml_node list \<Rightarrow> DependencyCondition \<Rightarrow>
    config_error + DependencyCondition" where
  "condition_loop name (key # value # rest) condition =
     (if Value key \<noteq> ''condition'' then Inl (DependsOnKey name (Value key))
      else case condition_of (Value value) of
             None \<Rightarrow> Inl (DependsOnCondition name (Value value))
           | Some c \<Rightarrow> condition_loop name rest c)"
| "condition_loop name _ condition = Inr condition"

definition parseDependencyCondition :: "string \<Rightarrow> yaml_node \<Rightarrow> config_error + DependencyCondition" where
  "parseDependencyCondition name node = condition_loop name (Content node) ConditionStarted"

definition parseDependencyEntry :: "yaml_node \<Rightarrow> yaml_node \<Rightarrow> config_error + Dependency" where
  "parseDependencyEntry key value =
     (if Tag value = ''!!null'' then
        Inr \<lparr>dep_Name = Value key, dep_Condition = ConditionStarted\<rparr>
      else if Kind value = MappingNode then
        (case parseDependencyCondition (Value key) value of
           Inl e \<Rightarrow> Inl e
         | Inr condition \<Rightarrow> Inr \<lparr>dep_Name = Value key, dep_Condition = condition\<rparr>)
      else Inl (DependsOnEntry (Value key)))"

fun mapping_loop :: "yaml_node list \<Rightarrow> Dependency list \<Rightarrow> config_error + Dependency list" where
  "mapping_loop (key # value # rest) deps =
     (case parseDependencyEntry key value of
        Inl e \<Rightarrow> Inl e
      | Inr dep \<Rightarrow> mapping_loop rest (deps @ [dep]))"
| "mapping_loop _ deps = Inr deps"

definition parseDependencyMapping :: "yaml_node \<Rightarrow> config_error + Dependency list" where
  "parseDependencyMapping node = mapping_loop (Content node) []"

text \<open>\<open>decode_names\<close> is the decoder's \<^verbatim>\<open>node.Decode\<close> into a list of strings.\<close>

definition UnmarshalYAML :: "(yaml_node \<Rightarrow> string + string list) \<Rightarrow> yaml_node \<Rightarrow>
    config_error + Dependency list" where
  "UnmarshalYAML decode_names node =
     (if Kind node = SequenceNode then
        (case decode_names node of
           Inl e \<Rightarrow> Inl (DependsOnDecode e)
         | Inr names \<Rightarrow>
             Inr (map (\<lambda>name. \<lparr>dep_Name = name, dep_Condition = ConditionStarted\<rparr>) names))
      else if Kind node = MappingNode then parseDependencyMapping node
      else Inl DependsOnKind)"

section \<open>Lemmas about single settings\<close>

lemma map_lower_digits: "list_all is_digit s \<Longrightarrow> ToUpper s = s"
  by (induction s) (auto simp: ToUpper_def upper_char_def is_digit_def)

lemma TrimSpace_id:
  assumes "s = [] \<or> (\<not> is_space (hd s) \<and> \<not> is_space (last s))"
  shows "TrimSpace s = s"
proof (cases "s = []")
  case True
  then show ?thesis by (simp add: TrimSpace_def)
next
  case False
  with assms have "dropWhile is_space s = s" "dropWhile is_space (rev s) = rev s"
    by (cases s, simp_all) (cases s rule: rev_cases, simp_all)
  then show ?thesis by (simp add: TrimSpace_def)
qed

lemma digit_not_space: "is_digit c \<Longrightarrow> \<not> is_space c"
  by (auto simp: is_digit_def is_space_def)

lemma TrimSpace_digits:
  "list_all is_digit s \<Longrightarrow> TrimSpace s = s"
  by (rule TrimSpace_id) (auto simp: list_all_iff digit_not_space)

lemma HasSuffix_append [simp, go_string]: "HasSuffix (s @ p) p"
  by (simp add: HasSuffix_def)

lemma TrimSuffix_append [simp, go_string]: "TrimSuffix (s @ p) p = s"
  by (simp add: TrimSuffix_def)

lemma HasSuffix_last: "HasSuffix s p \<Longrightarrow> p \<noteq> [] \<Longrightarrow> s \<noteq> [] \<and> last s = last p"
  by (metis HasSuffix_def append_is_Nil_conv append_take_drop_id last_append)

end
