(* ===== verification/Convert.thy ===== *)
theory Convert
  imports Config
begin

text \<open>
  From the decoded files to the configuration the daemon runs: \<open>convertHealthCheck\<close> of
  \<^verbatim>\<open>internal/config/health.go\<close>, and \<open>convertProgram\<close>, \<open>mergePrograms\<close>, \<open>ParseConfigFile\<close> and
  \<open>ParseConfig\<close> of \<^verbatim>\<open>internal/config/config.go\<close>.

  What decoding a file gives is an argument (\<open>parse_raw\<close>, which \<open>parseConfigFileRaw\<close> provides), as are the listing of the drop-in
  directory and the path functions of \<^verbatim>\<open>path/filepath\<close> that clean a path.
\<close>

section \<open>Health checks\<close>

text \<open>What the conversion takes from outside the program.\<close>

record stdlib =
  ParseDuration :: "string \<Rightarrow> int option"    \<comment> \<open>\<^verbatim>\<open>time.ParseDuration\<close>\<close>
  url_Parse :: "string \<Rightarrow> (string \<times> string) option"    \<comment> \<open>scheme and host of \<^verbatim>\<open>url.Parse\<close>\<close>
  field_order :: "string \<Rightarrow> string list"    \<comment> \<open>the order of a range over the three settings that may not be negative\<close>

definition defaultProbeInterval :: int where "defaultProbeInterval = 2 * 10 ^ 9"
definition defaultProbeTimeout :: int where "defaultProbeTimeout = 5 * 10 ^ 9"
definition defaultProbeRetries :: int where "defaultProbeRetries = 3"

text \<open>\<^verbatim>\<open>net.SplitHostPort\<close>: \<open>None\<close> for an address that is not of the form host:port.\<close>

definition IndexByte :: "string \<Rightarrow> char \<Rightarrow> nat option" where
  "IndexByte s c = (if c \<in> set s then Some (length (takeWhile (\<lambda>x. x \<noteq> c) s)) else None)"

definition SplitHostPort :: "string \<Rightarrow> (string \<times> string) option" where
  "SplitHostPort hostport =
     (case before_last (CHR '':'') hostport of
        None \<Rightarrow> None
      | Some before \<Rightarrow>
          let i = length before;
              port = drop (i + 1) hostport
          in if take 1 hostport = ''['' then
               (case IndexByte hostport (CHR '']'') of
                  None \<Rightarrow> None
                | Some end \<Rightarrow>
                    if end + 1 \<noteq> i then None
                    else if CHR ''['' \<in> set (drop 1 hostport) \<or> CHR '']'' \<in> set (drop (end + 1) hostport)
                    then None
                    else Some (drop 1 (take end hostport), port))
             else if CHR '':'' \<in> set before \<or> CHR ''['' \<in> set hostport \<or> CHR '']'' \<in> set hostport
             then None
             else Some (before, port))"

definition configured_probes :: "HealthCheck \<Rightarrow> string list" where
  "configured_probes check =
     sort (map fst (filter (\<lambda>(kind, value). value \<noteq> '''')
       [(''exec'', hc_Exec check), (''tcp'', hc_TCP check), (''http'', hc_HTTP check)]))"

definition validateProbeTarget :: "stdlib \<Rightarrow> HealthCheck \<Rightarrow> config_error + unit" where
  "validateProbeTarget lib check =
     (if length (configured_probes check) = 0 then Inl NoProbe
      else if length (configured_probes check) > 1 then Inl (SeveralProbes (configured_probes check))
      else if hc_TCP check \<noteq> '''' \<and> SplitHostPort (hc_TCP check) = None then Inl (InvalidTCP (hc_TCP check))
      else if hc_HTTP check \<noteq> '''' then
        (case url_Parse lib (hc_HTTP check) of
           None \<Rightarrow> Inl (InvalidHTTPUrl (hc_HTTP check))
         | Some (scheme, host) \<Rightarrow>
             if (scheme \<noteq> ''http'' \<and> scheme \<noteq> ''https'') \<or> host = ''''
             then Inl (InvalidHTTP (hc_HTTP check))
             else Inr ())
      else Inr ())"

definition convertHealthCheck :: "stdlib \<Rightarrow> healthCheckFile option \<Rightarrow>
    config_error + HealthCheck option" where
  "convertHealthCheck lib raw' =
     (case raw' of
        None \<Rightarrow> Inr None
      | Some raw \<Rightarrow>
          let check = \<lparr>hc_Exec = TrimSpace (hf_Exec raw), hc_TCP = TrimSpace (hf_TCP raw),
                hc_HTTP = TrimSpace (hf_HTTP raw), hc_Interval = 0, hc_Timeout = 0, hc_StartPeriod = 0,
                hc_Retries = intOrDefault (hf_Retries raw) defaultProbeRetries\<rparr>
          in case validateProbeTarget lib check of
               Inl e \<Rightarrow> Inl e
             | Inr _ \<Rightarrow>
           (case parseDuration (ParseDuration lib) ''health_check.interval'' (hf_Interval raw) defaultProbeInterval of
               Inl e \<Rightarrow> Inl e
             | Inr interval \<Rightarrow>
           (case parseDuration (ParseDuration lib) ''health_check.timeout'' (hf_Timeout raw) defaultProbeTimeout of
               Inl e \<Rightarrow> Inl e
             | Inr timeout \<Rightarrow>
           (case parseDuration (ParseDuration lib) ''health_check.start_period'' (hf_StartPeriod raw) 0 of
               Inl e \<Rightarrow> Inl e
             | Inr startPeriod \<Rightarrow>
               if interval \<le> 0 then Inl (NonPositiveInterval interval)
               else if timeout \<le> 0 then Inl (NonPositiveTimeout timeout)
               else if startPeriod < 0 then Inl (NegativeStartPeriod startPeriod)
               else if hc_Retries check < 1 then Inl (RetriesBelowOne (hc_Retries check))
               else Inr (Some (check\<lparr>hc_Interval := interval, hc_Timeout := timeout,
                      hc_StartPeriod := startPeriod\<rparr>))))))"

section \<open>Programs\<close>

definition parseRestartPolicy :: "string \<Rightarrow> config_error + RestartPolicy" where
  "parseRestartPolicy raw =
     (let restartPolicy = defaultString raw ''unexpected''
      in if restartPolicy = ''always'' then Inr RestartAlways
         else if restartPolicy = ''never'' then Inr RestartNever
         else if restartPolicy = ''unexpected'' then Inr RestartUnexpected
         else Inl (InvalidAutorestart restartPolicy))"

text \<open>The first setting, in the order of the range, that is negative.\<close>

definition first_negative :: "string list \<Rightarrow> (string \<Rightarrow> int) \<Rightarrow> config_error option" where
  "first_negative settings value =
     (case filter (\<lambda>field. value field < 0) settings of
        [] \<Rightarrow> None
      | field # _ \<Rightarrow> Some (NegativeSetting field (value field)))"

record loggingDefaults =
  stdoutMaxBytes :: int
  stderrMaxBytes :: int
  stdoutBackups :: int
  stderrBackups :: int

definition convertLogging :: "programFile \<Rightarrow> config_error + loggingDefaults" where
  "convertLogging raw =
     (case parseBytes ''stdout_logfile_maxbytes'' (pf_StdoutLogfileMaxBytes raw) of
        Inl e \<Rightarrow> Inl e
      | Inr out \<Rightarrow>
     (case parseBytes ''stderr_logfile_maxbytes'' (pf_StderrLogfileMaxBytes raw) of
        Inl e \<Rightarrow> Inl e
      | Inr err \<Rightarrow>
        Inr \<lparr>stdoutMaxBytes = out, stderrMaxBytes = err,
             stdoutBackups = intOrDefault (pf_StdoutLogfileBackups raw) defaultLogFileBackups,
             stderrBackups = intOrDefault (pf_StderrLogfileBackups raw) defaultLogFileBackups\<rparr>))"

definition checked_setting :: "int \<Rightarrow> int \<Rightarrow> int \<Rightarrow> string \<Rightarrow> int" where
  "checked_setting startSecs stopWaitSecs maxRestarts field =
     (if field = ''startsecs'' then startSecs
      else if field = ''stopwaitsecs'' then stopWaitSecs
      else if field = ''max_restarts'' then maxRestarts
      else 0)"

definition convertProgram :: "stdlib \<Rightarrow> string \<Rightarrow> programFile \<Rightarrow> config_error + ProgramConfig" where
  "convertProgram lib name raw =
     (if pf_Command raw = '''' then Inl CommandRequired
      else case parseRestartPolicy (pf_Autorestart raw) of
        Inl e \<Rightarrow> Inl e
      | Inr autorestart \<Rightarrow>
      if TrimSpace (pf_User raw) \<noteq> '''' then Inl (UserNotImplemented (pf_User raw))
      else case parseSignal (pf_StopSignal raw) of
        Inl e \<Rightarrow> Inl e
      | Inr stopSignal \<Rightarrow>
        let startSecs = intOrDefault (pf_StartSecs raw) defaultStartSecs;
            stopWaitSecs = intOrDefault (pf_StopWaitSecs raw) defaultStopWaitSecs;
            maxRestarts = intOrDefault (pf_MaxRestarts raw) defaultMaxRestarts;
            priority = intOrDefault (pf_Priority raw) defaultPriority
        in case first_negative (field_order lib name)
                  (checked_setting startSecs stopWaitSecs maxRestarts) of
             Some e \<Rightarrow> Inl e
           | None \<Rightarrow>
           (case convertLogging raw of
             Inl e \<Rightarrow> Inl e
           | Inr logging \<Rightarrow>
           (case convertHealthCheck lib (pf_HealthCheck raw) of
             Inl e \<Rightarrow> Inl e
           | Inr healthCheck \<Rightarrow>
             Inr \<lparr>pc_Environment = pf_Environment raw,
                  pc_HealthCheck = healthCheck,
                  pc_Name = name,
                  pc_Command = pf_Command raw,
                  pc_Directory = pf_Directory raw,
                  pc_Autorestart = autorestart,
                  pc_StdoutLogfile = pf_StdoutLogfile raw,
                  pc_StderrLogfile = pf_StderrLogfile raw,
                  pc_User = pf_User raw,
                  pc_DependsOn = pf_DependsOn raw,
                  pc_Autostart = (case pf_Autostart raw of None \<Rightarrow> True | Some b \<Rightarrow> b),
                  pc_Priority = priority,
                  pc_StartSecs = startSecs,
                  pc_StopSignal = stopSignal,
                  pc_StopWaitSecs = stopWaitSecs,
                  pc_MaxRestarts = maxRestarts,
                  pc_StdoutLogfileMaxBytes = stdoutMaxBytes logging,
                  pc_StdoutLogfileBackups = stdoutBackups logging,
                  pc_StdoutLogfileMaxAge = intOrDefault (pf_StdoutLogfileMaxAge raw) 0,
                  pc_StderrLogfileMaxBytes = stderrMaxBytes logging,
                  pc_StderrLogfileBackups = stderrBackups logging,
                  pc_StderrLogfileMaxAge = intOrDefault (pf_StderrLogfileMaxAge raw) 0\<rparr>)))"

section \<open>Files\<close>

text \<open>
  \<open>mergePrograms\<close> adds the programs of one file to those read so far. The state is the pair of the
  programs and, for each, the file it came from.
\<close>

type_synonym merged = "(string, ProgramConfig) fmap \<times> (string, string) fmap"

fun merge_loop :: "stdlib \<Rightarrow> (string, programFile option) fmap \<Rightarrow> string \<Rightarrow> string list \<Rightarrow> merged \<Rightarrow>
    config_error + merged" where
  "merge_loop lib src srcPath [] s = Inr s"
| "merge_loop lib src srcPath (name # ord) (dst, origins) =
     (case fmlookup src name of
        None \<Rightarrow> merge_loop lib src srcPath ord (dst, origins)
      | Some None \<Rightarrow> merge_loop lib src srcPath ord (dst, origins)
      | Some (Some prog) \<Rightarrow>
          (case fmlookup origins name of
             Some existingPath \<Rightarrow> Inl (DuplicateProgram name existingPath srcPath)
           | None \<Rightarrow>
               (case convertProgram lib name prog of
                  Inl e \<Rightarrow> Inl (ProgramError name srcPath e)
                | Inr programConfig \<Rightarrow>
                    merge_loop lib src srcPath ord
                      (fmupd name programConfig dst, fmupd name srcPath origins))))"

definition mergePrograms :: "stdlib \<Rightarrow> string list \<Rightarrow> (string, programFile option) fmap \<Rightarrow> string \<Rightarrow>
    merged \<Rightarrow> config_error + merged" where
  "mergePrograms lib ord src srcPath s = merge_loop lib src srcPath ord s"

definition emptySupavisor :: SupavisorConfig where
  "emptySupavisor = \<lparr>cfg_LogFile = '''', cfg_PidFile = '''', cfg_Socket = '''', cfg_SocketGroup = '''',
     cfg_LogFormat = '''', cfg_LogLevel = ''''\<rparr>"

definition isSupavisorSectionEmpty :: "SupavisorConfig \<Rightarrow> bool" where
  "isSupavisorSectionEmpty s \<longleftrightarrow> s = emptySupavisor"

definition supavisorDefaults :: "SupavisorConfig \<Rightarrow> SupavisorConfig" where
  "supavisorDefaults s =
     \<lparr>cfg_LogFile = cfg_LogFile s,
      cfg_PidFile = defaultString (cfg_PidFile s) ''/var/run/supavisor.pid'',
      cfg_Socket = defaultString (cfg_Socket s) ''/tmp/supavisor.sock'',
      cfg_SocketGroup = cfg_SocketGroup s,
      cfg_LogFormat = defaultString (cfg_LogFormat s) ''text'',
      cfg_LogLevel = defaultString (cfg_LogLevel s) ''info''\<rparr>"

text \<open>
  \<open>parseConfigFileRaw\<close>. A file is a sequence of YAML documents, which the decoder gives one by one: \<open>documents data\<close> are
  the results of decoding them, with unknown keys as errors. No document is \<^verbatim>\<open>io.EOF\<close>, and leaves the zero value.
\<close>

definition emptyFile :: configFile where
  "emptyFile = \<lparr>cf_Programs = fmempty, cf_Supavisor = emptySupavisor\<rparr>"

definition parseConfigFileRaw :: "(string \<Rightarrow> string option) \<Rightarrow> (string \<Rightarrow> (string + configFile) list) \<Rightarrow> string \<Rightarrow>
    config_error + configFile" where
  "parseConfigFileRaw readFile documents path =
     (case readFile path of
        None \<Rightarrow> Inl (FileError path)
      | Some data \<Rightarrow>
          (case documents data of
             [] \<Rightarrow> Inr emptyFile
           | Inl e # later \<Rightarrow> Inl (ParseFailed path e)
           | Inr cfg # later \<Rightarrow> Inr cfg))"

text \<open>\<open>ord path\<close> is the order of the range over the programs of the file \<open>path\<close>.\<close>

definition ParseConfigFile :: "stdlib \<Rightarrow> (string \<Rightarrow> config_error + configFile) \<Rightarrow>
    (string \<Rightarrow> string list) \<Rightarrow> string \<Rightarrow> config_error + Config" where
  "ParseConfigFile lib parse_raw ord path =
     (case parse_raw path of
        Inl e \<Rightarrow> Inl e
      | Inr cfg \<Rightarrow>
          (case mergePrograms lib (ord path) (cf_Programs cfg) path (fmempty, fmempty) of
             Inl e \<Rightarrow> Inl e
           | Inr (programs, _) \<Rightarrow>
               Inr \<lparr>Programs = programs, SourcePath = path,
                    Supavisor = supavisorDefaults (cf_Supavisor cfg)\<rparr>))"

fun fragment_loop :: "stdlib \<Rightarrow> (string \<Rightarrow> config_error + configFile) \<Rightarrow> (string \<Rightarrow> string list) \<Rightarrow>
    string list \<Rightarrow> merged \<Rightarrow> config_error + merged" where
  "fragment_loop lib parse_raw ord [] s = Inr s"
| "fragment_loop lib parse_raw ord (fragPath # fragments) s =
     (case parse_raw fragPath of
        Inl e \<Rightarrow> Inl e
      | Inr frag \<Rightarrow>
          if \<not> isSupavisorSectionEmpty (cf_Supavisor frag)
          then Inl (FragmentSupavisorSection fragPath)
          else (case mergePrograms lib (ord fragPath) (cf_Programs frag) fragPath s of
                  Inl e \<Rightarrow> Inl e
                | Inr s' \<Rightarrow> fragment_loop lib parse_raw ord fragments s'))"

text \<open>
  The drop-in directory of a main file, and the files of it that are read, in lexical order.
  \<open>dir\<close> and \<open>join\<close> are \<^verbatim>\<open>filepath.Dir\<close> and \<^verbatim>\<open>filepath.Join\<close>; an entry of \<^verbatim>\<open>os.ReadDir\<close> is its
  name and whether it is a directory, and the outer \<open>None\<close> is a missing directory.
\<close>

definition path_Base :: "string \<Rightarrow> string" where
  "path_Base path =
     (let stripped = rev (dropWhile (\<lambda>c. c = CHR ''/'') (rev path))
      in if path = '''' then ''.''
         else if stripped = '''' then ''/''
         else rev (takeWhile (\<lambda>c. c \<noteq> CHR ''/'') (rev stripped)))"

definition path_Ext :: "string \<Rightarrow> string" where
  "path_Ext path =
     (let tail = takeWhile (\<lambda>c. c \<noteq> CHR ''.'' \<and> c \<noteq> CHR ''/'') (rev path)
      in if length tail < length path \<and> rev path ! length tail = CHR ''.''
         then CHR ''.'' # rev tail else '''')"

definition fragmentDir :: "(string \<Rightarrow> string) \<Rightarrow> (string \<Rightarrow> string \<Rightarrow> string) \<Rightarrow> string \<Rightarrow> string" where
  "fragmentDir dir join mainPath =
     (let base = path_Base mainPath;
          stem = TrimSuffix base (path_Ext base)
      in join (dir mainPath) (stem @ ''.d''))"

definition is_fragment :: "string \<times> bool \<Rightarrow> bool" where
  "is_fragment entry \<longleftrightarrow> \<not> snd entry \<and>
     (ToLower (path_Ext (fst entry)) = ''.yml'' \<or> ToLower (path_Ext (fst entry)) = ''.yaml'')"

definition listFragmentFiles :: "(string \<Rightarrow> string \<Rightarrow> string) \<Rightarrow>
    (string \<Rightarrow> config_error + (string \<times> bool) list option) \<Rightarrow> string \<Rightarrow> config_error + string list" where
  "listFragmentFiles join readDir dir =
     (case readDir dir of
        Inl e \<Rightarrow> Inl e
      | Inr None \<Rightarrow> Inr []
      | Inr (Some entries) \<Rightarrow> Inr (sort (map (\<lambda>e. join dir (fst e)) (filter is_fragment entries))))"

text \<open>\<open>fragments\<close> is what \<open>listFragmentFiles\<close> returns for the drop-in directory of the main file.\<close>

definition ParseConfig :: "stdlib \<Rightarrow> (string \<Rightarrow> config_error + configFile) \<Rightarrow> (string \<Rightarrow> string list) \<Rightarrow>
    (string \<Rightarrow> config_error + string list) \<Rightarrow> string \<Rightarrow> config_error + Config" where
  "ParseConfig lib parse_raw ord fragments mainPath =
     (case ParseConfigFile lib parse_raw ord mainPath of
        Inl e \<Rightarrow> Inl e
      | Inr cfg \<Rightarrow>
          (case fragments mainPath of
             Inl e \<Rightarrow> Inl e
           | Inr paths \<Rightarrow>
               (case fragment_loop lib parse_raw ord paths
                       (Programs cfg, fmmap (\<lambda>_. mainPath) (Programs cfg)) of
                  Inl e \<Rightarrow> Inl e
                | Inr (programs, _) \<Rightarrow> Inr (cfg\<lparr>Programs := programs\<rparr>))))"

section \<open>Lemmas about byte counts\<close>

lemma HasSuffix_iff: "HasSuffix s p \<longleftrightarrow> (\<exists>t. s = t @ p)"
proof
  assume "HasSuffix s p"
  then have "s = take (length s - length p) s @ p"
    by (metis HasSuffix_def append_take_drop_id)
  then show "\<exists>t. s = t @ p" ..
qed auto

lemma digits_no_suffix: "list_all is_digit s \<Longrightarrow> p \<noteq> [] \<Longrightarrow> \<not> is_digit (last p) \<Longrightarrow> \<not> HasSuffix s p"
  by (auto simp: HasSuffix_iff list_all_iff)

lemma digits_unit_suffix:
  assumes "list_all is_digit s" and "\<not> is_digit k"
  shows "\<not> HasSuffix (s @ [b]) [k, b']"
proof
  assume "HasSuffix (s @ [b]) [k, b']"
  then obtain t where "s @ [b] = (t @ [k]) @ [b']"
    by (auto simp: HasSuffix_iff)
  then have "k \<in> set s" by simp
  with assms show False by (auto simp: list_all_iff)
qed

lemma not_digits [simp]: "\<not> is_digit (CHR ''B'')" "\<not> is_digit (CHR ''K'')" "\<not> is_digit (CHR ''M'')"
  "\<not> is_digit (CHR ''G'')"
  by (simp_all add: is_digit_def)

text \<open>The units a size may have.\<close>

definition byte_units :: "(string \<times> int) list" where
  "byte_units = [('''', 1), (''B'', 1), (''KB'', 1024), (''MB'', 1024 * 1024), (''GB'', 1024 * 1024 * 1024)]"

lemma trimmed_upper_unit:
  assumes "list_all is_digit s" and "s \<noteq> []" and "(unit, multiplier) \<in> set byte_units"
  shows "TrimSpace (s @ unit) = s @ unit" and "ToUpper (s @ unit) = s @ unit"
proof -
  have "\<not> is_space (hd s)" "\<not> is_space (last s)"
    using assms(1,2) by (auto simp: list_all_iff digit_not_space)
  moreover have "unit = '''' \<or> \<not> is_space (last unit)"
    using assms(3) by (auto simp: is_space_def byte_units_def)
  ultimately show "TrimSpace (s @ unit) = s @ unit"
    using assms(2) by (intro TrimSpace_id) (cases "unit = []"; simp)
  show "ToUpper (s @ unit) = s @ unit"
    using map_lower_digits [OF assms(1)] assms(3)
    by (auto simp: ToUpper_def upper_char_def byte_units_def)
qed

lemma parseBytes_unit:
  assumes "(unit, multiplier) \<in> set byte_units"
  shows "parseBytes field (nat_digits n @ unit) =
    (if int n < 2 ^ 63 then Inr (wrap64 (int n * multiplier)) else Inl (InvalidBytes field (nat_digits n @ unit)))"
proof -
  note digits = nat_digits_digits [of n]
  have parse: "ParseInt (nat_digits n) = (if int n < 2 ^ 63 then Some (int n) else None)"
    using nat_digits_no_sign [of n] digits by (simp add: ParseInt_def)
  have suffix: "HasSuffix (nat_digits n @ [c, CHR ''B'']) [c', CHR ''B''] \<longleftrightarrow> c = c'" for c c'
    by (simp add: HasSuffix_def)
  note trimmed = trimmed_upper_unit [OF digits nat_digits_nonempty assms]
  note absent = digits_no_suffix [OF digits] digits_unit_suffix [OF digits]
  from assms consider "unit = ''''" "multiplier = 1" | "unit = ''B''" "multiplier = 1"
    | "unit = ''KB''" "multiplier = 1024" | "unit = ''MB''" "multiplier = 1024 * 1024"
    | "unit = ''GB''" "multiplier = 1024 * 1024 * 1024"
    by (auto simp: byte_units_def)
  then show ?thesis
    by cases (use trimmed in \<open>simp_all add: parseBytes_def Let_def suffix absent parse TrimSpace_digits [OF digits]\<close>)
qed

section \<open>Properties of single settings\<close>

text \<open>
  A size written in decimal with any of the units the documentation lists is read as that many
  bytes, as long as the number of bytes fits in 63 bits.
\<close>

theorem parseBytes_reads_sizes:
  assumes "(unit, multiplier) \<in> set byte_units" and "int n * multiplier < 2 ^ 63"
  shows "parseBytes field (nat_digits n @ unit) = Inr (int n * multiplier)"
proof -
  have "1 \<le> multiplier" using assms(1) by (auto simp: byte_units_def)
  then have n: "int n \<le> int n * multiplier" by (simp add: mult_le_cancel_left1)
  then have "wrap64 (int n * multiplier) = int n * multiplier"
    using assms(2) by (intro wrap64_id) linarith+
  with n assms show ?thesis by (simp add: parseBytes_unit)
qed

theorem parseBytes_reads_sizes_witness:
  "parseBytes ''stdout_logfile_maxbytes'' (nat_digits 50 @ ''MB'') = Inr (int 50 * (1024 * 1024))"
  by (rule parseBytes_reads_sizes) (simp_all add: byte_units_def)

text \<open>
  A size that is too large for 63 bits is not rejected: the product wraps, and
  \<open>9223372036854775807KB\<close> is accepted as -1024 bytes (a maximum that is not positive switches
  rotation off).
\<close>

theorem parseBytes_overflow_accepted:
  "parseBytes ''stdout_logfile_maxbytes'' (nat_digits 9223372036854775807 @ ''KB'') = Inr (- 1024)"
  using parseBytes_unit [of "''KB''" 1024 "''stdout_logfile_maxbytes''" 9223372036854775807]
  by (simp add: byte_units_def wrap64_def)

section \<open>The mapping form of depends_on\<close>

text \<open>The node of a \<open>depends_on\<close> mapping that states the condition of every entry.\<close>

definition condition_text :: "DependencyCondition \<Rightarrow> string" where
  "condition_text c = (case c of ConditionStarted \<Rightarrow> ''started'' | ConditionHealthy \<Rightarrow> ''healthy''
     | ConditionCompleted \<Rightarrow> ''completed'')"

definition scalar :: "string \<Rightarrow> yaml_node" where
  "scalar s = Node ScalarNode ''!!str'' s []"

definition entry_nodes :: "Dependency \<Rightarrow> yaml_node list" where
  "entry_nodes d =
     [scalar (dep_Name d),
      Node MappingNode ''!!map'' '''' [scalar ''condition'', scalar (condition_text (dep_Condition d))]]"

definition depends_on_node :: "Dependency list \<Rightarrow> yaml_node" where
  "depends_on_node deps = Node MappingNode ''!!map'' '''' (concat (map entry_nodes deps))"

lemma condition_of_text [simp]: "condition_of (condition_text c) = Some c"
  by (cases c) (simp_all add: condition_text_def condition_of_def)

lemma parse_entry_nodes:
  "parseDependencyEntry (scalar (dep_Name d))
     (Node MappingNode ''!!map'' '''' [scalar ''condition'', scalar (condition_text (dep_Condition d))])
   = Inr d"
  by (simp add: parseDependencyEntry_def parseDependencyCondition_def scalar_def)

lemma mapping_loop_entries:
  "mapping_loop (concat (map entry_nodes deps)) acc = Inr (acc @ deps)"
  by (induction deps arbitrary: acc) (simp_all add: entry_nodes_def parse_entry_nodes)

text \<open>
  Reading back a \<open>depends_on\<close> mapping that states every condition gives the same dependencies
  in the same order, and a mapping is refused as soon as an entry has a key other than
  \<open>condition\<close> or a condition that is not one of the three.
\<close>

theorem depends_on_roundtrip:
  "UnmarshalYAML decode (depends_on_node deps) = Inr deps \<and>
   UnmarshalYAML decode (Node MappingNode tag text
     (concat (map entry_nodes deps) @ [scalar name, Node MappingNode ''!!map'' '''' (scalar key # value # others)])) =
   (if key \<noteq> ''condition'' then Inl (DependsOnKey name key)
    else case condition_of (Value value) of
           None \<Rightarrow> Inl (DependsOnCondition name (Value value))
         | Some c \<Rightarrow> (case condition_loop name others c of
                        Inl e \<Rightarrow> Inl e
                      | Inr c' \<Rightarrow> Inr (deps @ [\<lparr>dep_Name = name, dep_Condition = c'\<rparr>])))"
proof -
  have "mapping_loop (concat (map entry_nodes deps) @ rest) acc = mapping_loop rest (acc @ deps)" for rest acc
    by (induction deps arbitrary: acc) (simp_all add: entry_nodes_def parse_entry_nodes)
  then show ?thesis
    by (auto simp: UnmarshalYAML_def depends_on_node_def parseDependencyMapping_def mapping_loop_entries
        parseDependencyEntry_def parseDependencyCondition_def scalar_def split: option.splits sum.splits)
qed

section \<open>Properties of converted programs\<close>

definition health_check_ok :: "HealthCheck \<Rightarrow> bool" where
  "health_check_ok hc \<longleftrightarrow>
     length (filter (\<lambda>probe. probe \<noteq> '''') [hc_Exec hc, hc_TCP hc, hc_HTTP hc]) = 1 \<and>
     0 < hc_Interval hc \<and> 0 < hc_Timeout hc \<and> 0 \<le> hc_StartPeriod hc \<and> 1 \<le> hc_Retries hc"

lemma configured_probes_length:
  "length (configured_probes check) =
     length (filter (\<lambda>probe. probe \<noteq> '''') [hc_Exec check, hc_TCP check, hc_HTTP check])"
  by (simp add: configured_probes_def)

lemma validateProbeTarget_one:
  "validateProbeTarget lib check = Inr u \<Longrightarrow>
     length (filter (\<lambda>probe. probe \<noteq> '''') [hc_Exec check, hc_TCP check, hc_HTTP check]) = 1"
  by (simp only: validateProbeTarget_def configured_probes_length split: if_splits) auto

lemma convertHealthCheck_ok:
  assumes "convertHealthCheck lib (Some raw) = Inr hc"
  shows "\<exists>check. hc = Some check \<and> health_check_ok check"
proof -
  from assms obtain check interval timeout period where
    "validateProbeTarget lib check = Inr ()" "0 < interval" "0 < timeout" "0 \<le> period" "1 \<le> hc_Retries check"
    "hc = Some (check\<lparr>hc_Interval := interval, hc_Timeout := timeout, hc_StartPeriod := period\<rparr>)"
    by (auto simp: convertHealthCheck_def Let_def not_le not_less split: sum.splits if_splits)
  then show ?thesis
    using validateProbeTarget_one [of lib check "()"]
    by (auto simp: health_check_ok_def split: if_splits)
qed

definition program_ok :: "ProgramConfig \<Rightarrow> bool" where
  "program_ok pc \<longleftrightarrow> pc_Command pc \<noteq> '''' \<and> TrimSpace (pc_User pc) = '''' \<and>
     0 \<le> pc_StartSecs pc \<and> 0 \<le> pc_StopWaitSecs pc \<and> 0 \<le> pc_MaxRestarts pc \<and>
     (\<forall>hc \<in> set_option (pc_HealthCheck pc). health_check_ok hc)"

lemma first_negative_None:
  "first_negative settings value = None \<longleftrightarrow> (\<forall>f \<in> set settings. 0 \<le> value f)"
proof -
  have "first_negative settings value = None \<longleftrightarrow> filter (\<lambda>f. value f < 0) settings = []"
    by (simp add: first_negative_def split: list.splits)
  then show ?thesis by (simp add: filter_empty_conv not_less)
qed

lemma convertProgram_Inr:
  assumes "convertProgram lib name raw = Inr pc"
  shows "pf_Command raw \<noteq> '''' \<and> TrimSpace (pf_User raw) = '''' \<and>
    parseRestartPolicy (pf_Autorestart raw) = Inr (pc_Autorestart pc) \<and>
    parseSignal (pf_StopSignal raw) = Inr (pc_StopSignal pc) \<and>
    first_negative (field_order lib name)
      (checked_setting (pc_StartSecs pc) (pc_StopWaitSecs pc) (pc_MaxRestarts pc)) = None \<and>
    convertHealthCheck lib (pf_HealthCheck raw) = Inr (pc_HealthCheck pc) \<and>
    convertLogging raw =
      Inr \<lparr>stdoutMaxBytes = pc_StdoutLogfileMaxBytes pc, stderrMaxBytes = pc_StderrLogfileMaxBytes pc,
           stdoutBackups = pc_StdoutLogfileBackups pc, stderrBackups = pc_StderrLogfileBackups pc\<rparr>"
  using assms by (auto simp: convertProgram_def Let_def split: if_splits sum.splits option.splits)

lemma convertProgram_copied:
  assumes "convertProgram lib name raw = Inr pc"
  shows "pc_Name pc = name \<and> pc_Command pc = pf_Command raw \<and> pc_User pc = pf_User raw \<and>
    pc_StartSecs pc = intOrDefault (pf_StartSecs raw) defaultStartSecs \<and>
    pc_StopWaitSecs pc = intOrDefault (pf_StopWaitSecs raw) defaultStopWaitSecs \<and>
    pc_MaxRestarts pc = intOrDefault (pf_MaxRestarts raw) defaultMaxRestarts \<and>
    pc_Priority pc = intOrDefault (pf_Priority raw) defaultPriority \<and>
    pc_StdoutLogfileMaxAge pc = intOrDefault (pf_StdoutLogfileMaxAge raw) 0 \<and>
    pc_StderrLogfileMaxAge pc = intOrDefault (pf_StderrLogfileMaxAge raw) 0 \<and>
    pc_Autostart pc = (pf_Autostart raw \<noteq> Some False) \<and>
    pc_DependsOn pc = pf_DependsOn raw \<and> pc_Environment pc = pf_Environment raw"
  using assms by (auto simp: convertProgram_def Let_def split: if_splits sum.splits option.splits)

lemma unset_values:
  "TrimSpace '''' = ''''"
  "parseRestartPolicy '''' = Inr RestartUnexpected"
  "parseSignal '''' = Inr SIGTERM"
  "parseBytes field '''' = Inr 52428800"
  by (simp_all add: TrimSpace_def parseRestartPolicy_def defaultString_def parseSignal_def parseBytes_def
      defaultLogFileMaxBytes_def)

lemma convertLogging_Inr:
  "convertLogging raw = Inr l \<Longrightarrow>
    stdoutBackups l = intOrDefault (pf_StdoutLogfileBackups raw) defaultLogFileBackups \<and>
    stderrBackups l = intOrDefault (pf_StderrLogfileBackups raw) defaultLogFileBackups \<and>
    (pf_StdoutLogfileMaxBytes raw = '''' \<longrightarrow> stdoutMaxBytes l = 52428800) \<and>
    (pf_StderrLogfileMaxBytes raw = '''' \<longrightarrow> stderrMaxBytes l = 52428800)"
  by (auto simp: convertLogging_def unset_values split: sum.splits)

text \<open>
  A program that is accepted has a command, no user, no negative timing or restart setting,
  and either no health check or one with exactly one probe, a positive interval and timeout and at
  least one retry.
\<close>

theorem convertProgram_valid:
  assumes "convertProgram lib name raw = Inr pc"
    and "set (field_order lib name) = {''startsecs'', ''stopwaitsecs'', ''max_restarts''}"
  shows "pc_Name pc = name \<and> program_ok pc"
proof -
  note c = convertProgram_Inr [OF assms(1)] convertProgram_copied [OF assms(1)]
  have "0 \<le> pc_StartSecs pc \<and> 0 \<le> pc_StopWaitSecs pc \<and> 0 \<le> pc_MaxRestarts pc"
    using c assms(2) by (simp add: first_negative_None checked_setting_def)
  moreover have "\<forall>hc \<in> set_option (pc_HealthCheck pc). health_check_ok hc"
  proof (cases "pf_HealthCheck raw")
    case None
    with c show ?thesis by (auto simp: convertHealthCheck_def)
  next
    case (Some check)
    with c convertHealthCheck_ok [of lib check "pc_HealthCheck pc"] show ?thesis by auto
  qed
  ultimately show ?thesis using c by (simp add: program_ok_def)
qed

text \<open>Inputs for the witnesses: a program that sets its command and a health check.\<close>

definition sample_lib :: stdlib where
  "sample_lib = \<lparr>ParseDuration = (\<lambda>s. if s = ''3s'' then Some (3 * 10 ^ 9) else None),
     url_Parse = (\<lambda>_. None),
     field_order = (\<lambda>_. [''stopwaitsecs'', ''max_restarts'', ''startsecs''])\<rparr>"

definition sample_check :: healthCheckFile where
  "sample_check = \<lparr>hf_Retries = None, hf_Exec = ''pg_isready'', hf_TCP = '''', hf_HTTP = '''',
     hf_Interval = ''3s'', hf_Timeout = '''', hf_StartPeriod = ''''\<rparr>"

definition sample_program :: programFile where
  "sample_program = \<lparr>pf_Environment = fmempty, pf_HealthCheck = Some sample_check, pf_Autostart = None,
     pf_Priority = None, pf_StartSecs = None, pf_StopWaitSecs = None, pf_MaxRestarts = Some 0,
     pf_StdoutLogfileBackups = None, pf_StdoutLogfileMaxAge = None, pf_StderrLogfileBackups = None,
     pf_StderrLogfileMaxAge = None, pf_Command = ''postgres'', pf_Directory = '''', pf_Autorestart = '''',
     pf_StopSignal = ''sigint'', pf_StdoutLogfile = '''', pf_StderrLogfile = '''',
     pf_StdoutLogfileMaxBytes = '''', pf_StderrLogfileMaxBytes = '''', pf_User = '''', pf_DependsOn = None\<rparr>"

definition sample_config :: ProgramConfig where
  "sample_config = \<lparr>pc_Environment = fmempty,
     pc_HealthCheck = Some \<lparr>hc_Exec = ''pg_isready'', hc_TCP = '''', hc_HTTP = '''', hc_Interval = 3 * 10 ^ 9,
       hc_Timeout = 5 * 10 ^ 9, hc_StartPeriod = 0, hc_Retries = 3\<rparr>,
     pc_Name = ''db'', pc_Command = ''postgres'', pc_Directory = '''', pc_Autorestart = RestartUnexpected,
     pc_StdoutLogfile = '''', pc_StderrLogfile = '''', pc_User = '''', pc_DependsOn = None, pc_Autostart = True,
     pc_Priority = 999, pc_StartSecs = 1, pc_StopSignal = SIGINT, pc_StopWaitSecs = 10, pc_MaxRestarts = 0,
     pc_StdoutLogfileMaxBytes = 50 * 1024 * 1024, pc_StdoutLogfileBackups = 10, pc_StdoutLogfileMaxAge = 0,
     pc_StderrLogfileMaxBytes = 50 * 1024 * 1024, pc_StderrLogfileBackups = 10, pc_StderrLogfileMaxAge = 0\<rparr>"

lemma sample_signal: "parseSignal ''sigint'' = Inr SIGINT"
  by code_simp

lemma sample_check_converts:
  "convertHealthCheck sample_lib (Some sample_check) = Inr (pc_HealthCheck sample_config)"
  by (simp add: convertHealthCheck_def sample_check_def sample_lib_def sample_config_def TrimSpace_def
      is_space_def validateProbeTarget_def configured_probes_def parseDuration_def intOrDefault_def
      defaultProbeTimeout_def defaultProbeRetries_def)

lemma sample_converts: "convertProgram sample_lib ''db'' sample_program = Inr sample_config"
  using sample_check_converts
  by (simp add: convertProgram_def sample_program_def sample_signal parseRestartPolicy_def defaultString_def
      TrimSpace_def first_negative_def checked_setting_def convertLogging_def parseBytes_def intOrDefault_def
      config_defaults sample_config_def sample_lib_def)

theorem convertProgram_valid_witness: "pc_Name sample_config = ''db'' \<and> program_ok sample_config"
  by (rule convertProgram_valid [OF sample_converts]) (auto simp: sample_lib_def)

text \<open>
  A setting that is present is kept, zero included; one that is absent takes the documented
  default (autostart true, restart policy unexpected, stop signal TERM, \<open>startsecs\<close> 1,
  \<open>stopwaitsecs\<close> 10, \<open>max_restarts\<close> 3, priority 999, 10 backups of at most 50 MB, no maximum age).
\<close>

theorem convertProgram_settings:
  assumes "convertProgram lib name raw = Inr pc"
  shows "pc_MaxRestarts pc = intOrDefault (pf_MaxRestarts raw) 3 \<and>
    pc_StartSecs pc = intOrDefault (pf_StartSecs raw) 1 \<and>
    pc_StopWaitSecs pc = intOrDefault (pf_StopWaitSecs raw) 10 \<and>
    pc_Priority pc = intOrDefault (pf_Priority raw) 999 \<and>
    pc_StdoutLogfileBackups pc = intOrDefault (pf_StdoutLogfileBackups raw) 10 \<and>
    pc_StderrLogfileBackups pc = intOrDefault (pf_StderrLogfileBackups raw) 10 \<and>
    pc_StdoutLogfileMaxAge pc = intOrDefault (pf_StdoutLogfileMaxAge raw) 0 \<and>
    pc_StderrLogfileMaxAge pc = intOrDefault (pf_StderrLogfileMaxAge raw) 0 \<and>
    (pf_StdoutLogfileMaxBytes raw = '''' \<longrightarrow> pc_StdoutLogfileMaxBytes pc = 52428800) \<and>
    (pf_StderrLogfileMaxBytes raw = '''' \<longrightarrow> pc_StderrLogfileMaxBytes pc = 52428800) \<and>
    pc_Autostart pc = (pf_Autostart raw \<noteq> Some False) \<and>
    (pf_Autorestart raw = '''' \<longrightarrow> pc_Autorestart pc = RestartUnexpected) \<and>
    (pf_StopSignal raw = '''' \<longrightarrow> pc_StopSignal pc = SIGTERM) \<and>
    pc_DependsOn pc = pf_DependsOn raw \<and> pc_Environment pc = pf_Environment raw"
  using convertProgram_Inr [OF assms] convertProgram_copied [OF assms]
    convertLogging_Inr [of raw] by (auto simp: config_defaults unset_values)

theorem convertProgram_settings_witness: "pc_MaxRestarts sample_config = 0 \<and> pc_StartSecs sample_config = 1"
  using convertProgram_settings [OF sample_converts] by (simp add: sample_program_def intOrDefault_def)

section \<open>Properties of merged files\<close>

definition program_in :: "(string \<Rightarrow> config_error + configFile) \<Rightarrow> string \<Rightarrow> string \<Rightarrow> programFile \<Rightarrow> bool" where
  "program_in parse_raw path name prog \<longleftrightarrow>
     (\<exists>content. parse_raw path = Inr content \<and> fmlookup (cf_Programs content) name = Some (Some prog))"

text \<open>Two files that define no program of the same name.\<close>

definition disjoint_files :: "(string \<Rightarrow> config_error + configFile) \<Rightarrow> string \<Rightarrow> string \<Rightarrow> bool" where
  "disjoint_files parse_raw f g \<longleftrightarrow>
     (\<nexists>name prog prog'. program_in parse_raw f name prog \<and> program_in parse_raw g name prog')"

lemma merge_loop_Inr:
  assumes "merge_loop lib src srcPath ord (dst, origins) = Inr (dst', origins')" and "distinct ord"
  shows "(\<forall>prog. name \<in> set ord \<and> fmlookup src name = Some (Some prog) \<longrightarrow>
      fmlookup origins name = None \<and> fmlookup origins' name = Some srcPath \<and>
      (\<exists>pc. convertProgram lib name prog = Inr pc \<and> fmlookup dst' name = Some pc)) \<and>
    (name \<notin> set ord \<or> fmlookup src name = None \<or> fmlookup src name = Some None \<longrightarrow>
      fmlookup dst' name = fmlookup dst name \<and> fmlookup origins' name = fmlookup origins name)"
  using assms
proof (induction lib src srcPath ord "(dst, origins)" arbitrary: dst origins rule: merge_loop.induct)
  case (1 lib src srcPath)
  then show ?case by simp
next
  case (2 lib src srcPath n ord dst origins)
  consider (skip) "fmlookup src n = None \<or> fmlookup src n = Some None"
    | (add) prog where "fmlookup src n = Some (Some prog)"
    by (metis option.exhaust)
  then show ?case
  proof cases
    case skip
    with 2 show ?thesis by (cases "name = n") auto
  next
    case (add prog)
    with "2.prems" obtain pc where fresh: "fmlookup origins n = None"
      and pc: "convertProgram lib n prog = Inr pc"
      and rest: "merge_loop lib src srcPath ord (fmupd n pc dst, fmupd n srcPath origins) = Inr (dst', origins')"
      by (auto split: option.splits sum.splits)
    from "2.hyps"(3) [OF add refl fresh pc rest] "2.prems"(2) add fresh pc
    show ?thesis by (cases "name = n") auto
  qed
qed

text \<open>What merging one file into the programs read so far does.\<close>

lemma mergePrograms_Inr:
  assumes m: "mergePrograms lib ord (cf_Programs content) path (dst, origins) = Inr (dst', origins')"
    and parsed: "parse_raw path = Inr content" and ord: "ranges ord (cf_Programs content)"
    and dom: "fmdom' origins = fmdom' dst"
  shows "fmdom' origins' = fmdom' dst'"
    and "program_in parse_raw path name prog \<Longrightarrow> fmlookup dst name = None"
    and "fmlookup dst' name = Some pc \<longleftrightarrow> fmlookup dst name = Some pc \<or>
      (\<exists>prog. program_in parse_raw path name prog \<and> convertProgram lib name prog = Inr pc)"
proof -
  note loop = merge_loop_Inr [OF m [unfolded mergePrograms_def] rangesD(1) [OF ord]]
  have inn: "program_in parse_raw path n prog \<longleftrightarrow> fmlookup (cf_Programs content) n = Some (Some prog)" for n prog
    using parsed by (simp add: program_in_def)
  have same: "fmlookup origins n = None \<longleftrightarrow> fmlookup dst n = None" for n
    using dom by (metis in_dom_iff)
  have added: "fmlookup origins n = None \<and> fmlookup origins' n = Some path \<and>
      (\<exists>pc. convertProgram lib n prog = Inr pc \<and> fmlookup dst' n = Some pc)"
    if "fmlookup (cf_Programs content) n = Some (Some prog)" for n prog
    using that loop [of n] ranges_lookup [OF ord, of n] by simp
  have kept: "fmlookup dst' n = fmlookup dst n \<and> fmlookup origins' n = fmlookup origins n"
    if "\<nexists>prog. fmlookup (cf_Programs content) n = Some (Some prog)" for n
    using that loop [of n] by (metis option.exhaust)
  show "fmdom' origins' = fmdom' dst'"
  proof (rule set_eqI)
    fix n
    show "n \<in> fmdom' origins' \<longleftrightarrow> n \<in> fmdom' dst'"
      using added [of n] kept [of n] same [of n] by (metis in_dom_iff option.distinct(1))
  qed
  show "fmlookup dst name = None" if "program_in parse_raw path name prog"
    using that added [of name] same [of name] by (simp add: inn)
  show "fmlookup dst' name = Some pc \<longleftrightarrow> fmlookup dst name = Some pc \<or>
      (\<exists>prog. program_in parse_raw path name prog \<and> convertProgram lib name prog = Inr pc)"
    proof (cases "\<exists>prog. fmlookup (cf_Programs content) name = Some (Some prog)")
    case True
    then show ?thesis using added [of name] same [of name] by (auto simp: inn)
  next
    case False
    then show ?thesis using kept [of name] by (simp add: inn)
  qed
qed

lemma fragment_loop_Inr:
  assumes "fragment_loop lib parse_raw ord paths (dst, origins) = Inr (dst', origins')"
    and "\<And>path content. parse_raw path = Inr content \<Longrightarrow> ranges (ord path) (cf_Programs content)"
    and "fmdom' origins = fmdom' dst"
  shows "(\<forall>name pc. fmlookup dst' name = Some pc \<longleftrightarrow> fmlookup dst name = Some pc \<or>
      (\<exists>path \<in> set paths. \<exists>prog. program_in parse_raw path name prog \<and> convertProgram lib name prog = Inr pc)) \<and>
    (\<forall>path \<in> set paths. \<forall>name prog. program_in parse_raw path name prog \<longrightarrow> fmlookup dst name = None) \<and>
    sorted_wrt (disjoint_files parse_raw) paths"
  using assms
proof (induction paths arbitrary: dst origins)
  case Nil
  then show ?case by simp
next
  case (Cons path paths)
  from Cons.prems(1) obtain content dst1 origins1 where parsed: "parse_raw path = Inr content"
    and m: "mergePrograms lib (ord path) (cf_Programs content) path (dst, origins) = Inr (dst1, origins1)"
    and rest: "fragment_loop lib parse_raw ord paths (dst1, origins1) = Inr (dst', origins')"
    by (auto split: sum.splits if_splits)
  note step = mergePrograms_Inr [where parse_raw = parse_raw, OF m parsed Cons.prems(2) [OF parsed] Cons.prems(3)]
  note IH = Cons.IH [OF rest Cons.prems(2) step(1)]
  have new: "fmlookup dst1 n \<noteq> None" if "program_in parse_raw path n prog" for n prog
  proof -
    have "\<exists>pc. convertProgram lib n prog = Inr pc"
      using merge_loop_Inr [OF m [unfolded mergePrograms_def] rangesD(1) [OF Cons.prems(2) [OF parsed]], of n]
        that parsed ranges_lookup [OF Cons.prems(2) [OF parsed], of n] by (auto simp: program_in_def)
    then show ?thesis using step(3) that by blast
  qed
  have old: "fmlookup dst1 n \<noteq> None" if "fmlookup dst n \<noteq> None" for n
    using step(3) that by blast
  have "\<forall>q \<in> set paths. disjoint_files parse_raw path q"
    using IH new unfolding disjoint_files_def by blast
  moreover have "\<forall>q \<in> set (path # paths). \<forall>name prog. program_in parse_raw q name prog \<longrightarrow> fmlookup dst name = None"
    using IH old step(2) by (metis set_ConsD)
  ultimately show ?case using IH step(3) by auto
qed

lemma ParseConfig_contents:
  assumes "ParseConfig lib parse_raw ord fragments mainPath = Inr cfg"
    and "\<And>path content. parse_raw path = Inr content \<Longrightarrow> ranges (ord path) (cf_Programs content)"
  shows "\<exists>content paths. parse_raw mainPath = Inr content \<and> fragments mainPath = Inr paths \<and>
    Supavisor cfg = supavisorDefaults (cf_Supavisor content) \<and>
    sorted_wrt (disjoint_files parse_raw) (mainPath # paths) \<and>
    (\<forall>name pc. fmlookup (Programs cfg) name = Some pc \<longleftrightarrow>
      (\<exists>path \<in> set (mainPath # paths). \<exists>prog. program_in parse_raw path name prog \<and>
         convertProgram lib name prog = Inr pc))"
proof -
  from assms(1) obtain content programs origins paths programs' origins' where
    parsed: "parse_raw mainPath = Inr content" and paths: "fragments mainPath = Inr paths"
    and main: "mergePrograms lib (ord mainPath) (cf_Programs content) mainPath (fmempty, fmempty) = Inr (programs, origins)"
    and frag: "fragment_loop lib parse_raw ord paths (programs, fmmap (\<lambda>_. mainPath) programs) = Inr (programs', origins')"
    and cfg: "Programs cfg = programs'" "Supavisor cfg = supavisorDefaults (cf_Supavisor content)"
    by (auto simp: ParseConfig_def ParseConfigFile_def split: sum.splits)
  note step = mergePrograms_Inr [where parse_raw = parse_raw, OF main parsed assms(2) [OF parsed]]
  note rest = fragment_loop_Inr [OF frag assms(2)]
  have new: "fmlookup programs n \<noteq> None" if "program_in parse_raw mainPath n prog" for n prog
  proof -
    have "\<exists>pc. convertProgram lib n prog = Inr pc"
      using merge_loop_Inr [OF main [unfolded mergePrograms_def] rangesD(1) [OF assms(2) [OF parsed]], of n]
        that parsed ranges_lookup [OF assms(2) [OF parsed], of n] by (auto simp: program_in_def)
    then show ?thesis using step(3) that by auto
  qed
  have "\<forall>q \<in> set paths. disjoint_files parse_raw mainPath q"
    using rest new unfolding disjoint_files_def by (metis fmdom'_map)
  then show ?thesis
    using parsed paths cfg rest step(3) by auto
qed

lemma ParseConfig_programs_ok:
  assumes "ParseConfig lib parse_raw ord fragments mainPath = Inr cfg"
    and "\<And>path content. parse_raw path = Inr content \<Longrightarrow> ranges (ord path) (cf_Programs content)"
    and "\<And>name. set (field_order lib name) = {''startsecs'', ''stopwaitsecs'', ''max_restarts''}"
    and "fmlookup (Programs cfg) name = Some pc"
  shows "pc_Name pc = name \<and> program_ok pc"
  using ParseConfig_contents [OF assms(1,2)] assms(4) convertProgram_valid [OF _ assms(3)] by metis

text \<open>
  C35. A configuration that loads holds exactly the programs of the main file and of its fragments,
  each converted and with settings in range; no two of the files define a program of the same name; and the
  \<open>supavisor\<close> section is that of the main content, with the defaults filled in.
\<close>

theorem ParseConfig_merges:
  assumes "ParseConfig lib parse_raw ord fragments mainPath = Inr cfg"
    and "\<And>path content. parse_raw path = Inr content \<Longrightarrow> ranges (ord path) (cf_Programs content)"
    and "\<And>name. set (field_order lib name) = {''startsecs'', ''stopwaitsecs'', ''max_restarts''}"
  shows "\<exists>content paths. parse_raw mainPath = Inr content \<and> fragments mainPath = Inr paths \<and>
    Supavisor cfg = supavisorDefaults (cf_Supavisor content) \<and>
    sorted_wrt (disjoint_files parse_raw) (mainPath # paths) \<and>
    (\<forall>name pc. fmlookup (Programs cfg) name = Some pc \<longleftrightarrow>
      (\<exists>path \<in> set (mainPath # paths). \<exists>prog. program_in parse_raw path name prog \<and>
         convertProgram lib name prog = Inr pc)) \<and>
    (\<forall>name pc. fmlookup (Programs cfg) name = Some pc \<longrightarrow> pc_Name pc = name \<and> program_ok pc)"
  using ParseConfig_contents [OF assms(1,2)] ParseConfig_programs_ok [OF assms] by blast

definition sample_read :: "string \<Rightarrow> config_error + configFile" where
  "sample_read path =
     (if path = ''a.yml'' then Inr \<lparr>cf_Programs = fmupd ''db'' (Some sample_program) fmempty, cf_Supavisor = emptySupavisor\<rparr>
      else if path = ''a.d/b.yml'' then Inr \<lparr>cf_Programs = fmupd ''web'' None fmempty, cf_Supavisor = emptySupavisor\<rparr>
      else Inl (FileError path))"

definition sample_ord :: "string \<Rightarrow> string list" where
  "sample_ord path = (if path = ''a.yml'' then [''db''] else [''web''])"

definition sample_loaded :: Config where
  "sample_loaded = \<lparr>Programs = fmupd ''db'' sample_config fmempty, SourcePath = ''a.yml'',
     Supavisor = supavisorDefaults emptySupavisor\<rparr>"

lemma sample_loads:
  "ParseConfig sample_lib sample_read sample_ord (\<lambda>_. Inr [''a.d/b.yml'']) ''a.yml'' = Inr sample_loaded"
  by (simp add: ParseConfig_def ParseConfigFile_def sample_read_def sample_ord_def mergePrograms_def
      sample_converts isSupavisorSectionEmpty_def sample_loaded_def)

theorem ParseConfig_merges_witness:
  "fmlookup (Programs sample_loaded) ''db'' = Some sample_config \<and>
   Supavisor sample_loaded = supavisorDefaults emptySupavisor"
proof -
  have "ranges (sample_ord path) (cf_Programs content)" if "sample_read path = Inr content" for path content
    using that by (auto simp: sample_read_def sample_ord_def ranges_def split: if_splits)
  moreover have "set (field_order sample_lib name) = {''startsecs'', ''stopwaitsecs'', ''max_restarts''}" for name
    by (auto simp: sample_lib_def)
  ultimately show ?thesis using ParseConfig_merges [OF sample_loads] sample_converts
    by (fastforce simp: sample_read_def program_in_def)
qed

text \<open>
  Only the first document of a file is looked at: what follows a separator in it, programs or mistakes, changes
  nothing, and a file without a document counts as one without programs.
\<close>

theorem later_documents_ignored:
  assumes "\<And>data. take 1 (documents data) = take 1 (documents' data)"
  shows "ParseConfig lib (parseConfigFileRaw readFile documents) ord fragments mainPath =
      ParseConfig lib (parseConfigFileRaw readFile documents') ord fragments mainPath \<and>
    (readFile path = Some data \<and> documents data = [] \<longrightarrow> parseConfigFileRaw readFile documents path = Inr emptyFile)"
proof -
  have first: "(case a of [] \<Rightarrow> Inr emptyFile | Inl e # later \<Rightarrow> Inl (ParseFailed path e) | Inr cfg # later \<Rightarrow> Inr cfg) =
      (case b of [] \<Rightarrow> Inr emptyFile | Inl e # later \<Rightarrow> Inl (ParseFailed path e) | Inr cfg # later \<Rightarrow> Inr cfg)"
    if "take 1 a = take 1 b" for a b :: "(string + configFile) list" and path
    using that by (cases a; cases b) simp_all
  have "parseConfigFileRaw readFile documents path = parseConfigFileRaw readFile documents' path" for path
    using first [OF assms] by (simp add: parseConfigFileRaw_def split: option.split)
  then have "parseConfigFileRaw readFile documents = parseConfigFileRaw readFile documents'" by blast
  moreover have "readFile path = Some data \<and> documents data = [] \<longrightarrow> parseConfigFileRaw readFile documents path = Inr emptyFile"
    by (simp add: parseConfigFileRaw_def)
  ultimately show ?thesis by simp
qed

end
