(* ===== verification/Kahn.thy ===== *)
theory Kahn
  imports Prelude "HOL-Library.Multiset"
begin

text \<open>
  The loops of \<^verbatim>\<open>TopologicalSort\<close> and \<^verbatim>\<open>Tiers\<close> in \<^verbatim>\<open>internal/dependency/graph.go\<close>, which are
  Kahn's algorithm over an index of reverse edges. The loops take the index as a function.

  The interface between the loops and the graph that provides the index is the locale
  \<open>dependency_index\<close>: the index holds exactly the reverse of the dependencies. The loop invariant
  and what both loops return are proved from that law alone; theory \<open>Graph\<close> interprets it.
\<close>

section \<open>The loops\<close>

subsection \<open>The decrement loop\<close>

text \<open>
  The inner loop of both algorithms: each dependent loses one in-degree and joins the queue when
  that makes it 0. A name in the queue is a key of the node map (a name that is not has in-degree
  -1 after the decrement), so \<^verbatim>\<open>g.nodes[current]\<close> is never nil.
\<close>

fun relax :: "string list \<Rightarrow> (string, int) fmap \<times> string list \<Rightarrow> (string, int) fmap \<times> string list" where
  "relax [] (deg, queue) = (deg, queue)"
| "relax (dependent # rest) (deg, queue) =
     (let deg' = fmupd dependent (lookup0 deg dependent - 1) deg
      in relax rest (deg', if lookup0 deg' dependent = 0 then queue @ [dependent] else queue))"

subsection \<open>Termination of the two loops\<close>

text \<open>
  A name joins the queue only when its in-degree drops from 1 to 0, so the number of names with
  a positive in-degree, plus the length of the queue, never grows in the inner loop.
\<close>

definition positive :: "(string, int) fmap \<Rightarrow> string set" where
  "positive deg = {k. 0 < lookup0 deg k}"

lemma positive_finite [simp]: "finite (positive deg)"
proof (rule finite_subset)
  show "positive deg \<subseteq> fmdom' deg"
    by (auto simp: positive_def lookup0_def fmlookup_dom'_iff split: option.splits)
qed simp

lemma positive_decrement:
  "positive (fmupd d (lookup0 deg d - 1) deg) =
     (if lookup0 deg d \<le> 1 then positive deg - {d} else positive deg)"
  by (auto simp: positive_def split: if_splits)

lemma relax_measure:
  "relax ds (deg, queue) = (deg', queue') \<Longrightarrow>
     card (positive deg') + length queue' \<le> card (positive deg) + length queue"
proof (induction ds "(deg, queue)" arbitrary: deg queue rule: relax.induct)
  case 1
  then show ?case by simp
next
  case (2 d ds deg queue)
  let ?deg = "fmupd d (lookup0 deg d - 1) deg"
  let ?queue = "if lookup0 ?deg d = 0 then queue @ [d] else queue"
  have "card (positive ?deg) + length ?queue \<le> card (positive deg) + length queue"
  proof (cases "lookup0 deg d = 1")
    case True
    then have d: "d \<in> positive deg" by (simp add: positive_def)
    from True have "positive ?deg = positive deg - {d}"
      using positive_decrement [of d deg] by simp
    then have "Suc (card (positive ?deg)) = card (positive deg)"
      using card_Suc_Diff1 [OF positive_finite d] by simp
    with True show ?thesis by simp
  next
    case False
    have "positive ?deg \<subseteq> positive deg" by (auto simp: positive_decrement)
    then have "card (positive ?deg) \<le> card (positive deg)" by (rule card_mono [OF positive_finite])
    with False show ?thesis by simp
  qed
  with 2 show ?case by (fastforce simp: Let_def)
qed

subsection \<open>TopologicalSort\<close>

function kahn_loop :: "(string \<Rightarrow> string list) \<Rightarrow> (string, int) fmap \<Rightarrow> string list \<Rightarrow> string list \<Rightarrow> nat \<Rightarrow>
    string list \<times> nat" where
  "kahn_loop dependents deg [] result processed = (result, processed)"
| "kahn_loop dependents deg (current # queue) result processed =
     (let s = relax (dependents current) (deg, queue)
      in kahn_loop dependents (fst s) (snd s) (result @ [current]) (processed + 1))"
  by pat_completeness auto
termination
proof (relation "measure (\<lambda>(dependents, deg, queue, result, processed). card (positive deg) + length queue)")
  fix dependents :: "string \<Rightarrow> string list" and deg current queue and result :: "string list" and processed :: nat
    and s :: "(string, int) fmap \<times> string list"
  assume "s = relax (dependents current) (deg, queue)"
  then have "card (positive (fst s)) + length (snd s) \<le> card (positive deg) + length queue"
    using relax_measure by (metis prod.collapse)
  then show "((dependents, fst s, snd s, result @ [current], processed + 1),
      (dependents, deg, current # queue, result, processed))
    \<in> measure (\<lambda>(dependents, deg, queue, result, processed). card (positive deg) + length queue)"
    by simp
qed simp

subsection \<open>The loop over tiers\<close>

fun relax_tier :: "(string \<Rightarrow> string list) \<Rightarrow> string list \<Rightarrow> (string, int) fmap \<times> string list \<Rightarrow>
    (string, int) fmap \<times> string list" where
  "relax_tier dependents [] s = s"
| "relax_tier dependents (name # names) s = relax_tier dependents names (relax (dependents name) s)"

lemma relax_tier_measure:
  "card (positive (fst (relax_tier dependents names s))) + length (snd (relax_tier dependents names s))
     \<le> card (positive (fst s)) + length (snd s)"
proof (induction names arbitrary: s)
  case Nil
  then show ?case by simp
next
  case (Cons name names)
  obtain deg next_tier where s: "s = (deg, next_tier)" by (cases s)
  obtain deg' next' where r: "relax (dependents name) s = (deg', next')"
    by (cases "relax (dependents name) s")
  have "card (positive deg') + length next' \<le> card (positive deg) + length next_tier"
    using r s relax_measure by blast
  with Cons.IH [of "(deg', next')"] r s show ?case by simp
qed

function tier_loop :: "(string \<Rightarrow> string list) \<Rightarrow> (string, int) fmap \<Rightarrow> string list \<Rightarrow> string list list \<Rightarrow> nat \<Rightarrow>
    string list list \<times> nat" where
  "tier_loop dependents deg current tiers placed =
     (if current = [] then (tiers, placed)
      else let sorted_current = sort current;
               s = relax_tier dependents sorted_current (deg, [])
           in tier_loop dependents (fst s) (snd s) (tiers @ [sorted_current]) (placed + length sorted_current))"
  by pat_completeness auto
termination
proof (relation "measure (\<lambda>(dependents, deg, current, tiers, placed). card (positive deg) + length current)")
  fix dependents deg and current sorted_current :: "string list" and tiers :: "string list list"
    and placed :: nat and s
  assume "current \<noteq> []" and "sorted_current = sort current"
    and "s = relax_tier dependents sorted_current (deg, [])"
  then show "((dependents, fst s, snd s, tiers @ [sorted_current], placed + length sorted_current),
      (dependents, deg, current, tiers, placed))
    \<in> measure (\<lambda>(dependents, deg, current, tiers, placed). card (positive deg) + length current)"
    using relax_tier_measure [of dependents sorted_current "(deg, [])"]
    by (cases current) auto
qed simp

declare tier_loop.simps [simp del]

subsection \<open>What the operations promise\<close>

text \<open>The dependencies of a node that the graph has: edges to unknown names order nothing.\<close>

definition known_deps :: "string set \<Rightarrow> (string \<Rightarrow> string list) \<Rightarrow> string \<Rightarrow> string list" where
  "known_deps names deps n = filter (\<lambda>d. d \<in> names) (deps n)"

definition dep_edges :: "string set \<Rightarrow> (string \<Rightarrow> string list) \<Rightarrow> (string \<times> string) set" where
  "dep_edges names deps = {(d, n). n \<in> names \<and> d \<in> set (known_deps names deps n)}"

text \<open>Everything a listed name depends on comes before it.\<close>

definition deps_first :: "string set \<Rightarrow> (string \<Rightarrow> string list) \<Rightarrow> string list \<Rightarrow> bool" where
  "deps_first names deps xs \<longleftrightarrow>
     (\<forall>i < length xs. set (known_deps names deps (xs ! i)) \<subseteq> set (take i xs))"

text \<open>
  Tiers: every name of a tier depends on earlier tiers only, and on the tier just before its own,
  so that it is in the earliest tier it can be in. No tier is empty and each is sorted.
\<close>

definition tiered :: "string set \<Rightarrow> (string \<Rightarrow> string list) \<Rightarrow> string list list \<Rightarrow> bool" where
  "tiered names deps tiers \<longleftrightarrow>
     (\<forall>i < length tiers. tiers ! i \<noteq> [] \<and> sorted (tiers ! i) \<and>
        (\<forall>n \<in> set (tiers ! i).
           set (known_deps names deps n) \<subseteq> set (concat (take i tiers)) \<and>
           (0 < i \<longrightarrow> set (known_deps names deps n) \<inter> set (tiers ! (i - 1)) \<noteq> {})))"

section \<open>The state of the loops, as sets\<close>

text \<open>
  With the names \<open>P\<close> dealt with, a name is ready when its known dependencies are distinct and all
  in \<open>P\<close>. (A repeated dependency is counted twice in the in-degree and decremented once, so a name
  that has one is never ready.)
\<close>

definition ready :: "string set \<Rightarrow> (string \<Rightarrow> string list) \<Rightarrow> string set \<Rightarrow> string \<Rightarrow> bool" where
  "ready names deps P n \<longleftrightarrow>
     distinct (known_deps names deps n) \<and> set (known_deps names deps n) \<subseteq> P"

definition kahn_inv :: "string set \<Rightarrow> (string \<Rightarrow> string list) \<Rightarrow> string set \<Rightarrow> string list \<Rightarrow>
    (string, int) fmap \<Rightarrow> bool" where
  "kahn_inv names deps P Q deg \<longleftrightarrow>
     distinct Q \<and> set Q \<inter> P = {} \<and> P \<union> set Q \<subseteq> names \<and>
     (\<forall>n \<in> names. lookup0 deg n =
        int (length (known_deps names deps n)) - int (card (P \<inter> set (known_deps names deps n)))) \<and>
     (\<forall>n \<in> names. n \<in> P \<union> set Q \<longleftrightarrow> ready names deps P n)"

section \<open>Lemmas about the inner loop\<close>

lemma relax_distinct:
  assumes "distinct ds"
  shows "lookup0 (fst (relax ds (deg, queue))) n = lookup0 deg n - (if n \<in> set ds then 1 else 0)"
    and "snd (relax ds (deg, queue)) = queue @ filter (\<lambda>d. lookup0 deg d = 1) ds"
proof -
  have "lookup0 (fst (relax ds (deg, queue))) n = lookup0 deg n - (if n \<in> set ds then 1 else 0) \<and>
      snd (relax ds (deg, queue)) = queue @ filter (\<lambda>d. lookup0 deg d = 1) ds"
    using assms
  proof (induction ds "(deg, queue)" arbitrary: deg queue rule: relax.induct)
    case 1
    then show ?case by simp
  next
    case (2 d ds deg queue)
    let ?deg = "fmupd d (lookup0 deg d - 1) deg"
    have same: "filter (\<lambda>x. lookup0 ?deg x = 1) ds = filter (\<lambda>x. lookup0 deg x = 1) ds"
      using 2 by (intro filter_cong) auto
    from 2 show ?case by (auto simp: Let_def same [simplified])
  qed
  then show "lookup0 (fst (relax ds (deg, queue))) n = lookup0 deg n - (if n \<in> set ds then 1 else 0)"
    and "snd (relax ds (deg, queue)) = queue @ filter (\<lambda>d. lookup0 deg d = 1) ds"
    by simp_all
qed

lemma card_Int_insert:
  "finite A \<Longrightarrow> x \<notin> P \<Longrightarrow>
    card (insert x P \<inter> A) = card (P \<inter> A) + (if x \<in> A then 1 else 0)"
  by (simp add: Int_insert_left)

lemma card_Int_length:
  "card (P \<inter> set xs) = length xs \<longleftrightarrow> distinct xs \<and> set xs \<subseteq> P"
proof
  assume eq: "card (P \<inter> set xs) = length xs"
  have "card (P \<inter> set xs) \<le> card (set xs)" by (simp add: card_mono)
  with eq card_length [of xs] have c: "card (set xs) = length xs" by simp
  with eq have "P \<inter> set xs = set xs" by (intro card_subset_eq) simp_all
  with c show "distinct xs \<and> set xs \<subseteq> P" by (auto intro: card_distinct)
next
  assume "distinct xs \<and> set xs \<subseteq> P"
  then show "card (P \<inter> set xs) = length xs"
    by (simp add: distinct_card Int_absorb1)
qed

lemma kahn_inv_degree_zero:
  assumes "kahn_inv names deps P Q deg" and "n \<in> names"
  shows "lookup0 deg n = 0 \<longleftrightarrow> ready names deps P n"
  using assms card_Int_length [of P "known_deps names deps n"]
  by (auto simp: kahn_inv_def ready_def)

lemma kahn_inv_perm:
  "kahn_inv names deps P Q deg \<Longrightarrow> mset Q' = mset Q \<Longrightarrow> kahn_inv names deps P Q' deg"
  using mset_eq_setD [of Q' Q] mset_eq_imp_distinct_iff [of Q' Q]
  by (simp add: kahn_inv_def)

lemma known_deps_names: "set (known_deps names deps n) \<subseteq> names"
  by (auto simp: known_deps_def)

lemma deps_first_snoc:
  "deps_first names deps (xs @ [x]) \<longleftrightarrow>
     deps_first names deps xs \<and> set (known_deps names deps x) \<subseteq> set xs"
proof -
  have "(\<forall>i < length (xs @ [x]). set (known_deps names deps ((xs @ [x]) ! i)) \<subseteq> set (take i (xs @ [x])))
      \<longleftrightarrow> (\<forall>i < length xs. set (known_deps names deps (xs ! i)) \<subseteq> set (take i xs)) \<and>
          set (known_deps names deps x) \<subseteq> set xs"
    by (auto simp: nth_append less_Suc_eq)
  then show ?thesis by (simp add: deps_first_def)
qed

lemma deps_first_append:
  "deps_first names deps xs \<Longrightarrow> \<forall>y \<in> set ys. set (known_deps names deps y) \<subseteq> set xs \<Longrightarrow>
     deps_first names deps (xs @ ys)"
proof (induction ys rule: rev_induct)
  case Nil
  then show ?case by simp
next
  case (snoc y ys)
  then show ?case
    using deps_first_snoc [of names deps "xs @ ys" y] by auto
qed

lemma tiered_snoc:
  "tiered names deps (tiers @ [t]) \<longleftrightarrow>
     tiered names deps tiers \<and> t \<noteq> [] \<and> sorted t \<and>
     (\<forall>n \<in> set t. set (known_deps names deps n) \<subseteq> set (concat tiers) \<and>
        (tiers \<noteq> [] \<longrightarrow> set (known_deps names deps n) \<inter> set (last tiers) \<noteq> {}))"
proof -
  let ?P = "\<lambda>tiers i. tiers ! i \<noteq> [] \<and> sorted (tiers ! i) \<and>
        (\<forall>n \<in> set (tiers ! i).
           set (known_deps names deps n) \<subseteq> set (concat (take i tiers)) \<and>
           (0 < i \<longrightarrow> set (known_deps names deps n) \<inter> set (tiers ! (i - 1)) \<noteq> {}))"
  have old: "?P (tiers @ [t]) i = ?P tiers i" if "i < length tiers" for i
    using that by (simp add: nth_append less_imp_diff_less)
  have new: "?P (tiers @ [t]) (length tiers) \<longleftrightarrow> t \<noteq> [] \<and> sorted t \<and>
     (\<forall>n \<in> set t. set (known_deps names deps n) \<subseteq> set (concat tiers) \<and>
        (tiers \<noteq> [] \<longrightarrow> set (known_deps names deps n) \<inter> set (last tiers) \<noteq> {}))"
    by (cases tiers rule: rev_cases) (auto simp: nth_append)
  have "tiered names deps (tiers @ [t]) \<longleftrightarrow>
      (\<forall>i < length tiers. ?P (tiers @ [t]) i) \<and> ?P (tiers @ [t]) (length tiers)"
    unfolding tiered_def by (auto simp only: length_append_singleton less_Suc_eq)
  with old new show ?thesis by (simp add: tiered_def)
qed

lemma tiered_deps_first: "tiered names deps tiers \<Longrightarrow> deps_first names deps (concat tiers)"
proof (induction tiers rule: rev_induct)
  case Nil
  then show ?case by (simp add: deps_first_def)
next
  case (snoc t tiers)
  then show ?case by (simp add: tiered_snoc deps_first_append)
qed

lemma deps_first_acyclic:
  assumes first: "deps_first names deps xs" and dist: "distinct xs" and xs: "set xs = names"
  shows "acyclic (dep_edges names deps)"
proof (rule acyclicI_order)
  let ?pos = "inv_into {..<length xs} (nth xs)"
  have pos: "?pos (xs ! i) = i" if "i < length xs" for i
    using that dist by (intro inv_into_f_f) (auto simp: inj_on_nth)
  fix d n
  assume "(d, n) \<in> dep_edges names deps"
  then have n: "n \<in> set xs" and d: "d \<in> set (known_deps names deps n)"
    using xs by (auto simp: dep_edges_def)
  from n obtain i where i: "i < length xs" "n = xs ! i"
    by (auto simp: in_set_conv_nth)
  with first d have "d \<in> set (take i xs)"
    by (auto simp: deps_first_def)
  then obtain j where j: "j < i" "d = xs ! j"
    using i by (auto simp: in_set_conv_nth)
  with i pos have "?pos d < ?pos n" by simp
  then show "- int (?pos n) < - int (?pos d)" by simp
qed

lemma kahn_final:
  assumes fin: "finite names" and inv: "kahn_inv names deps P [] deg"
    and ac: "acyclic (dep_edges names deps)"
    and dist: "\<forall>n \<in> names. distinct (known_deps names deps n)"
  shows "P = names"
proof (rule ccontr)
  assume "P \<noteq> names"
  with inv have ne: "names - P \<noteq> {}" by (auto simp: kahn_inv_def)
  have "dep_edges names deps \<subseteq> names \<times> names"
    by (auto simp: dep_edges_def known_deps_def)
  then have "finite (dep_edges names deps)"
    using fin by (metis finite_SigmaI finite_subset)
  then have "wf (dep_edges names deps)" using ac by (rule finite_acyclic_wf)
  then obtain n where n: "n \<in> names - P"
    and min: "\<And>d. (d, n) \<in> dep_edges names deps \<Longrightarrow> d \<notin> names - P"
    using ne wfE_min' by metis
  have "set (known_deps names deps n) \<subseteq> P"
    using n min known_deps_names [of names deps n] by (auto simp: dep_edges_def)
  with n dist have "ready names deps P n" by (simp add: ready_def)
  with inv n show False by (auto simp: kahn_inv_def)
qed

section \<open>The interface\<close>

locale dependency_index =
  fixes names :: "'g \<Rightarrow> string set"
    and deps :: "'g \<Rightarrow> string \<Rightarrow> string list"
    and dependents :: "'g \<Rightarrow> string \<Rightarrow> string list"
    and ok :: "'g \<Rightarrow> bool"
  assumes finite_names: "finite (names g)"
    and dependents_distinct: "ok g \<Longrightarrow> distinct (dependents g n)"
    and dependents_set: "ok g \<Longrightarrow> n \<in> names g \<Longrightarrow>
      set (dependents g n) = {m \<in> names g. n \<in> set (deps g m)}"
begin

lemma relax_step:
  assumes g: "ok g" and inv: "kahn_inv (names g) (deps g) P (x # Q) deg"
  shows "kahn_inv (names g) (deps g) (insert x P)
      (Q @ filter (\<lambda>d. lookup0 deg d = 1) (dependents g x))
      (fst (relax (dependents g x) (deg, queue)))"
proof -
  let ?K = "known_deps (names g) (deps g)"
  let ?new = "filter (\<lambda>d. lookup0 deg d = 1) (dependents g x)"
  from inv have x: "x \<in> names g" and xP: "x \<notin> P" and xQ: "x \<notin> set Q"
    by (auto simp: kahn_inv_def)
  have dep: "n \<in> set (dependents g x) \<longleftrightarrow> x \<in> set (?K n)" if "n \<in> names g" for n
    using dependents_set [OF g x] that x by (simp add: known_deps_def)
  have deg': "lookup0 (fst (relax (dependents g x) (deg, queue))) n =
      int (length (?K n)) - int (card (insert x P \<inter> set (?K n)))" if n: "n \<in> names g" for n
    using inv n dep [OF n] xP
    by (simp add: relax_distinct [OF dependents_distinct [OF g]] card_Int_insert kahn_inv_def)
  have new: "n \<in> set ?new \<longleftrightarrow> x \<in> set (?K n) \<and> ready (names g) (deps g) (insert x P) n"
    if n: "n \<in> names g" for n
  proof -
    have "lookup0 deg n = int (length (?K n)) - int (card (P \<inter> set (?K n)))"
      using inv n by (simp add: kahn_inv_def)
    then show ?thesis
      using dep [OF n] card_Int_insert [of "set (?K n)" x P] xP
        card_Int_length [of "insert x P" "?K n"]
      by (auto simp: ready_def)
  qed
  have old: "n \<in> insert x P \<union> set Q \<longleftrightarrow> ready (names g) (deps g) P n" if "n \<in> names g" for n
    using inv that by (auto simp: kahn_inv_def)
  have new_names: "set ?new \<subseteq> names g"
    using dependents_set [OF g x] by auto
  have fresh: "n \<notin> insert x P \<union> set Q" if "n \<in> set ?new" for n
    using that new [of n] old [of n] new_names xP by (auto simp: ready_def)
  have mono: "ready (names g) (deps g) P n \<Longrightarrow> ready (names g) (deps g) (insert x P) n" for n
    by (auto simp: ready_def)
  have iff: "n \<in> insert x P \<union> set (Q @ ?new) \<longleftrightarrow> ready (names g) (deps g) (insert x P) n"
    if n: "n \<in> names g" for n
    using new [OF n] old [OF n] mono by (auto simp: ready_def)
  have "set Q \<inter> set ?new = {}"
    using fresh by blast
  then have "distinct (Q @ ?new)"
    using inv dependents_distinct [OF g] by (simp add: kahn_inv_def)
  moreover have "set ?new \<inter> insert x P = {}"
    using fresh by blast
  then have "set (Q @ ?new) \<inter> insert x P = {}"
    using inv xQ by (auto simp: kahn_inv_def)
  moreover have "insert x P \<union> set (Q @ ?new) \<subseteq> names g"
    using inv new_names by (auto simp: kahn_inv_def)
  ultimately show ?thesis
    using deg' iff by (simp add: kahn_inv_def)
qed

lemma queue_ready: "kahn_inv (names g) (deps g) P (x # Q) deg \<Longrightarrow>
    x \<in> names g \<and> x \<notin> P \<and> set (known_deps (names g) (deps g) x) \<subseteq> P"
  by (auto simp: kahn_inv_def ready_def)

lemma kahn_loop_inv:
  assumes "ok g"
  shows "kahn_inv (names g) (deps g) (set result) queue deg \<Longrightarrow> distinct result \<Longrightarrow>
    deps_first (names g) (deps g) result \<Longrightarrow> processed = length result \<Longrightarrow>
    (\<exists>deg'. kahn_inv (names g) (deps g)
       (set (fst (kahn_loop (dependents g) deg queue result processed))) [] deg') \<and>
    distinct (fst (kahn_loop (dependents g) deg queue result processed)) \<and>
    deps_first (names g) (deps g) (fst (kahn_loop (dependents g) deg queue result processed)) \<and>
    snd (kahn_loop (dependents g) deg queue result processed)
      = length (fst (kahn_loop (dependents g) deg queue result processed))"
proof (induction "dependents g" deg queue result processed rule: kahn_loop.induct)
  case (1 deg result processed)
  then show ?case by auto
next
  case (2 deg current queue result processed)
  let ?s = "relax (dependents g current) (deg, queue)"
  have "kahn_inv (names g) (deps g) (set (result @ [current])) (snd ?s) (fst ?s)"
    using relax_step [OF assms "2.prems"(1)]
    by (simp add: relax_distinct [OF dependents_distinct [OF assms]])
  moreover have "distinct (result @ [current])" "deps_first (names g) (deps g) (result @ [current])"
    using queue_ready [OF "2.prems"(1)] "2.prems"(2,3) by (auto simp: deps_first_snoc)
  ultimately show ?case
    using "2.hyps" "2.prems"(4) by (simp add: Let_def)
qed

lemma relax_tier_inv:
  assumes "ok g"
  shows "kahn_inv (names g) (deps g) P (current @ next_tier) deg \<Longrightarrow>
    kahn_inv (names g) (deps g) (P \<union> set current)
      (snd (relax_tier (dependents g) current (deg, next_tier)))
      (fst (relax_tier (dependents g) current (deg, next_tier)))"
proof (induction current arbitrary: P deg next_tier)
  case Nil
  then show ?case by simp
next
  case (Cons x current)
  let ?s = "relax (dependents g x) (deg, next_tier)"
  have "kahn_inv (names g) (deps g) (insert x P) (current @ snd ?s) (fst ?s)"
    using relax_step [OF assms, of P x "current @ next_tier" deg next_tier] Cons.prems
    by (simp add: relax_distinct(2) [OF dependents_distinct [OF assms]])
  then have "kahn_inv (names g) (deps g) (insert x P \<union> set current)
      (snd (relax_tier (dependents g) current (fst ?s, snd ?s)))
      (fst (relax_tier (dependents g) current (fst ?s, snd ?s)))"
    by (rule Cons.IH)
  then show ?case by simp
qed

lemma next_tier_deps:
  assumes "kahn_inv (names g) (deps g) P current deg"
    and "kahn_inv (names g) (deps g) (P \<union> set current) next_tier deg'"
    and "n \<in> set next_tier"
  shows "set (known_deps (names g) (deps g) n) \<inter> set current \<noteq> {}"
proof -
  from assms(2,3) have n: "n \<in> names g" "n \<notin> P \<union> set current"
    and "ready (names g) (deps g) (P \<union> set current) n"
    by (auto simp: kahn_inv_def)
  moreover have "\<not> ready (names g) (deps g) P n"
    using assms(1) n by (auto simp: kahn_inv_def)
  ultimately show ?thesis by (auto simp: ready_def)
qed

lemma tier_loop_inv:
  assumes "ok g"
  shows "kahn_inv (names g) (deps g) (set (concat tiers)) current deg \<Longrightarrow>
    distinct (concat tiers) \<Longrightarrow> tiered (names g) (deps g) tiers \<Longrightarrow>
    (tiers \<noteq> [] \<longrightarrow> (\<forall>n \<in> set current. set (known_deps (names g) (deps g) n) \<inter> set (last tiers) \<noteq> {})) \<Longrightarrow>
    placed = length (concat tiers) \<Longrightarrow>
    (\<exists>deg'. kahn_inv (names g) (deps g)
       (set (concat (fst (tier_loop (dependents g) deg current tiers placed)))) [] deg') \<and>
    distinct (concat (fst (tier_loop (dependents g) deg current tiers placed))) \<and>
    tiered (names g) (deps g) (fst (tier_loop (dependents g) deg current tiers placed)) \<and>
    snd (tier_loop (dependents g) deg current tiers placed)
      = length (concat (fst (tier_loop (dependents g) deg current tiers placed)))"
proof (induction "dependents g" deg current tiers placed rule: tier_loop.induct)
  case (1 deg current tiers placed)
  show ?case
  proof (cases "current = []")
    case True
    with 1 show ?thesis by (auto simp: tier_loop.simps)
  next
    case False
    let ?cur = "sort current"
    let ?s = "relax_tier (dependents g) ?cur (deg, [])"
    have cur: "kahn_inv (names g) (deps g) (set (concat tiers)) ?cur deg"
      using "1.prems"(1) by (rule kahn_inv_perm) simp
    have inv: "kahn_inv (names g) (deps g) (set (concat (tiers @ [?cur]))) (snd ?s) (fst ?s)"
      using relax_tier_inv [OF assms, of "set (concat tiers)" ?cur "[]" deg] cur by simp
    have ready: "set (known_deps (names g) (deps g) n) \<subseteq> set (concat tiers)" if "n \<in> set current" for n
      using "1.prems"(1) that by (auto simp: kahn_inv_def ready_def)
    have "?cur \<noteq> []"
      using False by (metis length_0_conv length_sort)
    then have "tiered (names g) (deps g) (tiers @ [?cur])"
      using "1.prems"(3,4) ready by (auto simp: tiered_snoc)
    moreover have "distinct (concat (tiers @ [?cur]))"
      using "1.prems"(1,2) by (auto simp: kahn_inv_def)
    moreover have "\<forall>n \<in> set (snd ?s). set (known_deps (names g) (deps g) n) \<inter> set ?cur \<noteq> {}"
      using next_tier_deps [OF cur, of "snd ?s"] inv by simp
    ultimately show ?thesis
      using "1.hyps" [OF False refl refl inv] "1.prems"(5) False
      by (simp add: tier_loop.simps [of _ deg current] Let_def)
  qed
qed

end

end
