(* ===== verification/Validate.thy ===== *)
theory Validate
  imports Convert Kahn
begin

text \<open>
  \<open>Validate\<close> of \<^verbatim>\<open>internal/config/config.go\<close> with the checks it makes: no circular dependency, every
  dependency exists and can reach the condition it is waited on for, no log file shared by two
  programs, a socket path that can be bound; and \<open>EnsureLogDirectories\<close>.

  The depth-first search mutates two maps of booleans, which are the sets of the names mapped to
  true here. \<open>Validate_iff\<close> says which configurations are accepted, in terms of the dependency
  relation alone, for every order in which the range over the programs may visit them.
\<close>

section \<open>Circular dependencies\<close>

text \<open>The two maps of the search: \<open>visited\<close> and \<open>recStack\<close>.\<close>

type_synonym search = "string set \<times> string set"

definition deps_of :: "Config \<Rightarrow> string \<Rightarrow> string list" where
  "deps_of c name = (case fmlookup (Programs c) name of None \<Rightarrow> [] | Some prog \<Rightarrow> DependencyNames prog)"

function checkCircularDependency :: "Config \<Rightarrow> string \<Rightarrow> search \<Rightarrow> config_error + search"
  and check_deps :: "Config \<Rightarrow> string \<Rightarrow> string list \<Rightarrow> search \<Rightarrow> config_error + search" where
  "checkCircularDependency c name (visited, recStack) =
     (let s = (insert name visited, insert name recStack)
      in case fmlookup (Programs c) name of
           None \<Rightarrow> Inr s
         | Some prog \<Rightarrow> check_deps c name (DependencyNames prog) s)"
| "check_deps c name [] (visited, recStack) = Inr (visited, recStack - {name})"
| "check_deps c name (dep # deps) (visited, recStack) =
     (if dep \<notin> visited then
        (case checkCircularDependency c dep (visited, recStack) of
           Inl e \<Rightarrow> Inl e
         | Inr s \<Rightarrow> check_deps c name deps s)
      else if dep \<in> recStack then Inl (CircularDependency name dep)
      else check_deps c name deps (visited, recStack))"
  by pat_completeness auto

subsection \<open>Termination\<close>

text \<open>
  A search never forgets a visited name, so the programs still to visit become fewer with each
  program entered, and a missing program ends the search of that branch at once.
\<close>

lemma search_grows:
  "checkCircularDependency_check_deps_dom (Inl (c, name, s)) \<Longrightarrow>
     checkCircularDependency c name s = Inr s' \<Longrightarrow> fst s \<subseteq> fst s'"
  "checkCircularDependency_check_deps_dom (Inr (c, name, deps, s)) \<Longrightarrow>
     check_deps c name deps s = Inr s' \<Longrightarrow> fst s \<subseteq> fst s'"
proof (induction c name s and c name deps s arbitrary: s' and s'
    rule: checkCircularDependency_check_deps.pinduct)
  case (1 c name visited recStack)
  then show ?case
    by (auto simp: checkCircularDependency.psimps Let_def split: option.splits)
next
  case (2 c name visited recStack)
  then show ?case by (auto simp: check_deps.psimps)
next
  case (3 c name dep deps visited recStack)
  show ?case
  proof (cases "dep \<in> visited")
    case True
    with 3 show ?thesis by (auto simp: check_deps.psimps split: if_splits)
  next
    case False
    with "3.prems" "3.hyps" obtain s1 where s1: "checkCircularDependency c dep (visited, recStack) = Inr s1"
      and rest: "check_deps c name deps s1 = Inr s'"
      by (auto simp: check_deps.psimps split: sum.splits)
    from "3.IH"(1) [OF False s1] "3.IH"(2) [OF False s1 rest] show ?thesis by auto
  qed
qed

definition unvisited :: "Config \<Rightarrow> string set \<Rightarrow> nat" where
  "unvisited c visited = card (fmdom' (Programs c) - visited)"

lemma unvisited_mono: "V \<subseteq> V' \<Longrightarrow> unvisited c V' \<le> unvisited c V"
  unfolding unvisited_def by (rule card_mono) auto

lemma unvisited_less:
  assumes "name \<in> fmdom' (Programs c)" and "name \<notin> V"
  shows "unvisited c (insert name V) < unvisited c V"
proof -
  have "fmdom' (Programs c) - insert name V \<subset> fmdom' (Programs c) - V"
    using assms by auto
  then show ?thesis unfolding unvisited_def by (rule psubset_card_mono [rotated]) simp
qed

definition search_rank :: "(Config \<times> string \<times> search) + (Config \<times> string \<times> string list \<times> search) \<Rightarrow> nat \<times> nat" where
  "search_rank x = (case x of
     Inl (c, name, s) \<Rightarrow> (unvisited c (insert name (fst s)),
        if fmlookup (Programs c) name = None then 0 else Suc (length (deps_of c name)))
   | Inr (c, name, deps, s) \<Rightarrow> (unvisited c (fst s), length deps))"

lemma search_rank_enter:
  assumes "dep \<notin> fst s"
  shows "(search_rank (Inl (c, dep, s)), search_rank (Inr (c, name, dep # deps, s))) \<in> less_than <*lex*> less_than"
proof (cases "dep \<in> fmdom' (Programs c)")
  case True
  then show ?thesis using unvisited_less [OF True assms] by (simp add: search_rank_def)
next
  case False
  moreover have "unvisited c (insert dep (fst s)) \<le> unvisited c (fst s)"
    by (rule unvisited_mono) auto
  ultimately show ?thesis by (auto simp: search_rank_def fmlookup_dom'_iff)
qed

termination checkCircularDependency
proof (relation "inv_image (less_than <*lex*> less_than) search_rank")
  fix c :: Config and name visited recStack and s :: search and prog
  assume "s = (insert name visited, insert name recStack)" and "fmlookup (Programs c) name = Some prog"
  then show "(Inr (c, name, DependencyNames prog, s), Inl (c, name, visited, recStack))
      \<in> inv_image (less_than <*lex*> less_than) search_rank"
    by (simp add: search_rank_def deps_of_def)
next
  fix c :: Config and name dep :: string and deps visited recStack
  assume "dep \<notin> visited"
  then show "(Inl (c, dep, visited, recStack), Inr (c, name, dep # deps, visited, recStack))
      \<in> inv_image (less_than <*lex*> less_than) search_rank"
    using search_rank_enter [of dep "(visited, recStack)"] by simp
next
  fix c :: Config and name dep :: string and deps visited recStack s
  assume "checkCircularDependency c dep (visited, recStack) = Inr s"
    and "checkCircularDependency_check_deps_dom (Inl (c, dep, visited, recStack))"
  then have "visited \<subseteq> fst s"
    using search_grows(1) [of c dep "(visited, recStack)" s] by simp
  then have "unvisited c (fst s) \<le> unvisited c visited" by (rule unvisited_mono)
  then show "(Inr (c, name, deps, s), Inr (c, name, dep # deps, visited, recStack))
      \<in> inv_image (less_than <*lex*> less_than) search_rank"
    by (auto simp: search_rank_def)
next
  fix c :: Config and name dep :: string and deps visited recStack
  show "(Inr (c, name, deps, visited, recStack), Inr (c, name, dep # deps, visited, recStack))
      \<in> inv_image (less_than <*lex*> less_than) search_rank"
    by (simp add: search_rank_def)
qed auto

section \<open>The other checks\<close>

fun search_loop :: "Config \<Rightarrow> string list \<Rightarrow> search \<Rightarrow> config_error + search" where
  "search_loop c [] s = Inr s"
| "search_loop c (name # ord) s =
     (if name \<notin> fst s then
        (case checkCircularDependency c name s of
           Inl e \<Rightarrow> Inl e
         | Inr s' \<Rightarrow> search_loop c ord s')
      else search_loop c ord s)"

text \<open>What is wrong with one dependency of a program.\<close>

definition dependency_error :: "Config \<Rightarrow> string \<Rightarrow> Dependency \<Rightarrow> config_error option" where
  "dependency_error c name dep =
     (case fmlookup (Programs c) (dep_Name dep) of
        None \<Rightarrow> Some (MissingDependency name (dep_Name dep))
      | Some target \<Rightarrow>
          if dep_Condition dep = ConditionHealthy \<and> pc_HealthCheck target = None
          then Some (NoHealthCheck name (dep_Name dep))
          else if dep_Condition dep = ConditionCompleted \<and> pc_Autorestart target = RestartAlways
          then Some (NeverCompletes name (dep_Name dep))
          else None)"

fun first_error :: "config_error option list \<Rightarrow> config_error + unit" where
  "first_error [] = Inr ()"
| "first_error (None # rest) = first_error rest"
| "first_error (Some e # rest) = Inl e"

definition dependencies :: "Config \<Rightarrow> string \<Rightarrow> Dependency list" where
  "dependencies c name = (case fmlookup (Programs c) name of None \<Rightarrow> [] | Some prog \<Rightarrow> elems (pc_DependsOn prog))"

definition sortedProgramNames :: "Config \<Rightarrow> string list" where
  "sortedProgramNames c = sorted_list_of_set (fmdom' (Programs c))"

definition validateDependencies :: "Config \<Rightarrow> config_error + unit" where
  "validateDependencies c =
     first_error (concat (map (\<lambda>name. map (dependency_error c name) (dependencies c name)) (sortedProgramNames c)))"

fun owners_loop :: "(string \<times> string) list \<Rightarrow> (string, string) fmap \<Rightarrow> config_error + unit" where
  "owners_loop [] owners = Inr ()"
| "owners_loop ((name, path) # rest) owners =
     (if path = '''' then owners_loop rest owners
      else case fmlookup owners path of
             Some owner \<Rightarrow> if owner \<noteq> name then Inl (SharedLogfile owner name path)
                           else owners_loop rest (fmupd path name owners)
           | None \<Rightarrow> owners_loop rest (fmupd path name owners))"

definition log_paths :: "Config \<Rightarrow> string \<Rightarrow> string list" where
  "log_paths c name = (case fmlookup (Programs c) name of
     None \<Rightarrow> [] | Some prog \<Rightarrow> [pc_StdoutLogfile prog, pc_StderrLogfile prog])"

definition validateLogPaths :: "Config \<Rightarrow> config_error + unit" where
  "validateLogPaths c =
     owners_loop (concat (map (\<lambda>name. map (Pair name) (log_paths c name)) (sortedProgramNames c))) fmempty"

definition validateSocketPath :: "Config \<Rightarrow> config_error + unit" where
  "validateSocketPath c =
     (if length (cfg_Socket (Supavisor c)) \<ge> maxSocketPathLen
      then Inl (SocketPathTooLong (length (cfg_Socket (Supavisor c))) (cfg_Socket (Supavisor c)))
      else Inr ())"

text \<open>\<open>ord\<close> is the order of the range over the programs in the search.\<close>

definition Validate :: "string list \<Rightarrow> Config \<Rightarrow> config_error + unit" where
  "Validate ord c =
     (case search_loop c ord ({}, {}) of
        Inl e \<Rightarrow> Inl e
      | Inr _ \<Rightarrow>
     (case validateDependencies c of
        Inl e \<Rightarrow> Inl e
      | Inr _ \<Rightarrow>
     (case validateLogPaths c of
        Inl e \<Rightarrow> Inl e
      | Inr _ \<Rightarrow> validateSocketPath c)))"

section \<open>Log directories\<close>

definition getDir :: "string \<Rightarrow> string" where
  "getDir path = (case before_last (CHR ''/'') path of None \<Rightarrow> '''' | Some dir \<Rightarrow> dir)"

text \<open>The directories of every log file, programs first, the daemon's own last.\<close>

definition log_dirs :: "Config \<Rightarrow> string set" where
  "log_dirs c =
     (let paths = (\<Union>name \<in> fmdom' (Programs c). set (log_paths c name)) \<union> {cfg_LogFile (Supavisor c)}
      in {dir \<in> getDir ` {p \<in> paths. p \<noteq> ''''}. dir \<noteq> ''''})"

text \<open>\<open>mkdirAll\<close> is \<^verbatim>\<open>os.MkdirAll\<close> on the state of the file system; \<open>ord\<close> lists the directories.\<close>

fun EnsureLogDirectories :: "(string \<Rightarrow> 'fs \<Rightarrow> string + 'fs) \<Rightarrow> string list \<Rightarrow> 'fs \<Rightarrow> string + 'fs" where
  "EnsureLogDirectories mkdirAll [] fs = Inr fs"
| "EnsureLogDirectories mkdirAll (dir # ord) fs =
     (case mkdirAll dir fs of Inl e \<Rightarrow> Inl e | Inr fs' \<Rightarrow> EnsureLogDirectories mkdirAll ord fs')"

section \<open>Lemmas about the search\<close>

text \<open>The search assumes that every dependency exists; a configuration where one does not is refused anyway.\<close>

definition closed_deps :: "Config \<Rightarrow> bool" where
  "closed_deps c \<longleftrightarrow> (\<forall>name. set (deps_of c name) \<subseteq> fmdom' (Programs c))"

text \<open>
  The finished names, those visited and no longer on the stack, can be listed with every
  dependency before the names that depend on it.
\<close>

definition finished :: "Config \<Rightarrow> search \<Rightarrow> bool" where
  "finished c s \<longleftrightarrow> (\<exists>xs. distinct xs \<and> set xs = fst s - snd s \<and>
     deps_first (fmdom' (Programs c)) (deps_of c) xs)"

lemma finished_snoc:
  assumes "finished c (V, R)" and "name \<in> V" and "name \<in> R" and "set (deps_of c name) \<subseteq> V - R"
  shows "finished c (V, R - {name})"
proof -
  from assms(1) obtain xs where xs: "distinct xs" "set xs = V - R"
    "deps_first (fmdom' (Programs c)) (deps_of c) xs" by (auto simp: finished_def)
  have "set (known_deps (fmdom' (Programs c)) (deps_of c) name) \<subseteq> set xs"
    using assms(4) xs(2) by (auto simp: known_deps_def)
  then have "deps_first (fmdom' (Programs c)) (deps_of c) (xs @ [name])"
    using xs(3) by (simp add: deps_first_snoc)
  moreover have "distinct (xs @ [name])" "set (xs @ [name]) = V - (R - {name})"
    using xs assms(2,3) by auto
  ultimately show ?thesis unfolding finished_def by (metis fst_conv snd_conv)
qed

lemma deps_of_lookup: "fmlookup (Programs c) name = Some prog \<Longrightarrow> deps_of c name = DependencyNames prog"
  by (simp add: deps_of_def)

text \<open>A search that succeeds leaves the stack as it was and has finished the name it was given.\<close>

lemma search_finishes:
  shows "closed_deps c \<Longrightarrow> checkCircularDependency c name (V, R) = Inr s' \<Longrightarrow> name \<in> fmdom' (Programs c) \<Longrightarrow> name \<notin> V \<Longrightarrow>
      R \<subseteq> V \<Longrightarrow> finished c (V, R) \<Longrightarrow>
      V \<subseteq> fst s' \<and> snd s' = R \<and> name \<in> fst s' \<and> fst s' - V \<subseteq> fmdom' (Programs c) \<and> finished c s'"
    and "closed_deps c \<Longrightarrow> check_deps c name deps (V, R) = Inr s' \<Longrightarrow> name \<in> R \<Longrightarrow> R \<subseteq> V \<Longrightarrow>
      set (deps_of c name) \<subseteq> set deps \<union> (V - R) \<Longrightarrow> set deps \<subseteq> fmdom' (Programs c) \<Longrightarrow> finished c (V, R) \<Longrightarrow>
      V \<subseteq> fst s' \<and> snd s' = R - {name} \<and> fst s' - V \<subseteq> fmdom' (Programs c) \<and> finished c s'"
proof (induction c name "(V, R)" and c name deps "(V, R)" arbitrary: V R s' and V R s'
    rule: checkCircularDependency_check_deps.induct)
  case (1 c name V R)
  from "1.prems"(3) obtain prog where prog: "fmlookup (Programs c) name = Some prog"
    by (auto simp: fmlookup_dom'_iff)
  with "1.prems"(2) have run: "check_deps c name (DependencyNames prog) (insert name V, insert name R) = Inr s'"
    by (simp add: Let_def)
  have "insert name V - insert name R = V - R" using "1.prems"(4,5) by auto
  then have "finished c (insert name V, insert name R)"
    using "1.prems"(6) by (simp add: finished_def)
  moreover have "set (DependencyNames prog) \<subseteq> fmdom' (Programs c)"
    using "1.prems"(1) prog by (metis closed_deps_def deps_of_lookup)
  ultimately have "insert name V \<subseteq> fst s' \<and> snd s' = insert name R - {name} \<and>
      fst s' - insert name V \<subseteq> fmdom' (Programs c) \<and> finished c s'"
    using "1.hyps" [OF refl prog "1.prems"(1) run] "1.prems" prog by (auto simp: deps_of_lookup)
  moreover have "insert name R - {name} = R" using "1.prems"(4,5) by auto
  ultimately show ?case using "1.prems"(3) by auto
next
  case (2 c name V R)
  have "finished c (V, R - {name})"
    using 2 by (intro finished_snoc) auto
  with 2 show ?case by auto
next
  case (3 c name dep deps V R)
  show ?case
  proof (cases "dep \<in> V")
    case True
    with "3.prems"(2) have "dep \<notin> R" and "check_deps c name deps (V, R) = Inr s'"
      by (auto split: if_splits)
    with True "3.hyps"(3) "3.prems" show ?thesis by auto
  next
    case False
    with "3.prems"(2) obtain V1 R1 where s1: "checkCircularDependency c dep (V, R) = Inr (V1, R1)"
      and rest: "check_deps c name deps (V1, R1) = Inr s'"
      by (auto split: sum.splits)
    have one: "V \<subseteq> V1" "R1 = R" "dep \<in> V1" "V1 - V \<subseteq> fmdom' (Programs c)" "finished c (V1, R1)"
      using "3.hyps"(1) [OF False "3.prems"(1) s1] False "3.prems" by auto
    have "dep \<notin> R" using False "3.prems"(4) by auto
    then have "set (deps_of c name) \<subseteq> set deps \<union> (V1 - R1)"
      using one "3.prems"(5) by auto
    moreover have "R1 \<subseteq> V1" using one(1,2) "3.prems"(4) by auto
    ultimately have "V1 \<subseteq> fst s' \<and> snd s' = R1 - {name} \<and> fst s' - V1 \<subseteq> fmdom' (Programs c) \<and> finished c s'"
      using "3.hyps"(2) [OF False s1 "3.prems"(1) rest] one "3.prems" by auto
    then show ?thesis using one by auto
  qed
qed

text \<open>
  Every name on the stack depends, directly or not, on the name being searched, so that an error is
  a cycle.
\<close>

definition leads_to :: "Config \<Rightarrow> (string \<times> string) set" where
  "leads_to c = {(d, n). d \<in> set (deps_of c n)}"

lemma search_no_error:
  shows "acyclic (leads_to c) \<Longrightarrow> closed_deps c \<Longrightarrow> name \<in> fmdom' (Programs c) \<Longrightarrow> name \<notin> V \<Longrightarrow> R \<subseteq> V \<Longrightarrow>
      finished c (V, R) \<Longrightarrow> \<forall>r \<in> R. (name, r) \<in> (leads_to c)\<^sup>* \<Longrightarrow>
      \<exists>s'. checkCircularDependency c name (V, R) = Inr s'"
    and "acyclic (leads_to c) \<Longrightarrow> closed_deps c \<Longrightarrow> name \<in> R \<Longrightarrow> R \<subseteq> V \<Longrightarrow>
      set (deps_of c name) = set seen \<union> set deps \<Longrightarrow> set seen \<subseteq> V - R \<Longrightarrow>
      finished c (V, R) \<Longrightarrow> \<forall>r \<in> R. (name, r) \<in> (leads_to c)\<^sup>* \<Longrightarrow>
      \<exists>s'. check_deps c name deps (V, R) = Inr s'"
proof (induction c name "(V, R)" and c name deps "(V, R)" arbitrary: V R and V R seen
    rule: checkCircularDependency_check_deps.induct)
  case (1 c name V R)
  from "1.prems"(3) obtain prog where prog: "fmlookup (Programs c) name = Some prog"
    by (auto simp: fmlookup_dom'_iff)
  have "insert name V - insert name R = V - R" using "1.prems"(4,5) by auto
  then have "finished c (insert name V, insert name R)"
    using "1.prems"(6) by (simp add: finished_def)
  then have "\<exists>s'. check_deps c name (DependencyNames prog) (insert name V, insert name R) = Inr s'"
    using "1.hyps" [OF refl prog "1.prems"(1,2), where seen = "[]"] "1.prems" prog
    by (auto simp: deps_of_lookup)
  with prog show ?case by (simp add: Let_def)
next
  case (2 c name V R)
  then show ?case by simp
next
  case (3 c name dep deps V R)
  have dep: "dep \<in> set (deps_of c name)" using "3.prems"(5) by simp
  then have edge: "(dep, name) \<in> leads_to c" by (simp add: leads_to_def)
  have known: "dep \<in> fmdom' (Programs c)" using "3.prems"(2) dep by (auto simp: closed_deps_def)
  show ?case
  proof (cases "dep \<in> V")
    case True
    have "dep \<notin> R"
    proof
      assume "dep \<in> R"
      with "3.prems"(8) have "(name, dep) \<in> (leads_to c)\<^sup>*" by blast
      with edge have "(dep, dep) \<in> (leads_to c)\<^sup>+" by (rule rtrancl_into_trancl2)
      with "3.prems"(1) show False by (simp add: acyclic_def)
    qed
    with True "3.hyps"(3) [where seen = "dep # seen"] "3.prems" show ?thesis by auto
  next
    case False
    have "\<forall>r \<in> R. (dep, r) \<in> (leads_to c)\<^sup>*"
      using "3.prems"(8) edge by (meson converse_rtrancl_into_rtrancl)
    then obtain V1 R1 where s1: "checkCircularDependency c dep (V, R) = Inr (V1, R1)"
      using "3.hyps"(1) [OF False "3.prems"(1,2) known False "3.prems"(4,7)] by fastforce
    have one: "V \<subseteq> V1" "R1 = R" "dep \<in> V1" "finished c (V1, R1)"
      using search_finishes(1) [OF "3.prems"(2) s1 known False "3.prems"(4,7)] by auto
    have "dep \<notin> R" using False "3.prems"(4) by auto
    moreover have "R \<subseteq> V1" using one(1) "3.prems"(4) by auto
    moreover have "set (dep # seen) \<subseteq> V1 - R" using one "3.prems"(6) \<open>dep \<notin> R\<close> by auto
    ultimately have "\<exists>s'. check_deps c name deps (V1, R1) = Inr s'"
      using "3.hyps"(2) [OF False s1 "3.prems"(1,2), where seen = "dep # seen"] one "3.prems" by auto
    with False s1 show ?thesis by simp
  qed
qed

lemma search_loop_finishes:
  "search_loop c ord (V, {}) = Inr s' \<Longrightarrow> closed_deps c \<Longrightarrow> set ord \<subseteq> fmdom' (Programs c) \<Longrightarrow>
     V \<subseteq> fmdom' (Programs c) \<Longrightarrow> finished c (V, {}) \<Longrightarrow>
     set ord \<union> V \<subseteq> fst s' \<and> fst s' \<subseteq> fmdom' (Programs c) \<and> snd s' = {} \<and> finished c s'"
proof (induction ord arbitrary: V)
  case Nil
  then show ?case by auto
next
  case (Cons name ord)
  show ?case
  proof (cases "name \<in> V")
    case True
    with Cons show ?thesis by auto
  next
    case False
    with Cons.prems(1) obtain V1 R1 where s1: "checkCircularDependency c name (V, {}) = Inr (V1, R1)"
      and rest: "search_loop c ord (V1, R1) = Inr s'"
      by (auto split: sum.splits)
    have one: "V \<subseteq> V1" "R1 = {}" "name \<in> V1" "V1 - V \<subseteq> fmdom' (Programs c)" "finished c (V1, R1)"
      using search_finishes(1) [OF Cons.prems(2) s1] False Cons.prems by auto
    then have "V1 \<subseteq> fmdom' (Programs c)" using Cons.prems(4) by auto
    with Cons.IH [of V1] rest one Cons.prems(2,3) show ?thesis by auto
  qed
qed

lemma search_loop_no_error:
  "acyclic (leads_to c) \<Longrightarrow> closed_deps c \<Longrightarrow> set ord \<subseteq> fmdom' (Programs c) \<Longrightarrow>
     finished c (V, {}) \<Longrightarrow> \<exists>s'. search_loop c ord (V, {}) = Inr s'"
proof (induction ord arbitrary: V)
  case Nil
  then show ?case by simp
next
  case (Cons name ord)
  show ?case
  proof (cases "name \<in> V")
    case True
    with Cons show ?thesis by auto
  next
    case False
    with Cons.prems obtain V1 R1 where s1: "checkCircularDependency c name (V, {}) = Inr (V1, R1)"
      using search_no_error(1) [of c name V "{}"] by fastforce
    have "R1 = {} \<and> finished c (V1, R1)"
      using search_finishes(1) [OF Cons.prems(2) s1] False Cons.prems by auto
    with Cons.IH [of V1] Cons.prems s1 False show ?thesis by auto
  qed
qed

lemma deps_of_known: "d \<in> set (deps_of c name) \<Longrightarrow> name \<in> fmdom' (Programs c)"
  by (cases "fmlookup (Programs c) name") (auto simp: deps_of_def fmlookup_dom'_iff)

lemma dep_edges_closed: "closed_deps c \<Longrightarrow> dep_edges (fmdom' (Programs c)) (deps_of c) = leads_to c"
  by (auto simp: dep_edges_def leads_to_def known_deps_def closed_deps_def dest: deps_of_known)

lemma search_loop_iff:
  assumes "ranges ord (Programs c)" and closed: "closed_deps c"
  shows "(\<exists>s. search_loop c ord ({}, {}) = Inr s) \<longleftrightarrow> acyclic (leads_to c)"
proof
  have start: "finished c ({}, {})" by (simp add: finished_def deps_first_def)
  have ord: "set ord = fmdom' (Programs c)" using assms(1) by (rule rangesD)
  show "\<exists>s. search_loop c ord ({}, {}) = Inr s" if "acyclic (leads_to c)"
    using search_loop_no_error [OF that closed _ start] ord by simp
  assume "\<exists>s. search_loop c ord ({}, {}) = Inr s"
  then obtain s where run: "search_loop c ord ({}, {}) = Inr s" by blast
  have "fst s = fmdom' (Programs c)" "snd s = {}" "finished c s"
    using search_loop_finishes [OF run closed] start ord by auto
  then obtain xs where "distinct xs" "set xs = fmdom' (Programs c)"
    "deps_first (fmdom' (Programs c)) (deps_of c) xs" by (auto simp: finished_def)
  then have "acyclic (dep_edges (fmdom' (Programs c)) (deps_of c))"
    using deps_first_acyclic by blast
  with closed show "acyclic (leads_to c)" by (simp add: dep_edges_closed)
qed

section \<open>Lemmas about the other checks\<close>

lemma first_error_Inr: "first_error es = Inr () \<longleftrightarrow> set es \<subseteq> {None}"
  by (induction es rule: first_error.induct) auto

text \<open>A dependency that exists and can reach the condition it is waited on for.\<close>

definition dependency_ok :: "Config \<Rightarrow> Dependency \<Rightarrow> bool" where
  "dependency_ok c dep \<longleftrightarrow>
     (\<exists>target. fmlookup (Programs c) (dep_Name dep) = Some target \<and>
        (dep_Condition dep = ConditionHealthy \<longrightarrow> pc_HealthCheck target \<noteq> None) \<and>
        (dep_Condition dep = ConditionCompleted \<longrightarrow> pc_Autorestart target \<noteq> RestartAlways))"

lemma dependency_error_None: "dependency_error c name dep = None \<longleftrightarrow> dependency_ok c dep"
  by (auto simp: dependency_error_def dependency_ok_def split: option.splits)

lemma set_sortedProgramNames [simp]: "set (sortedProgramNames c) = fmdom' (Programs c)"
  by (simp add: sortedProgramNames_def)

lemma dependencies_known: "dep \<in> set (dependencies c name) \<Longrightarrow> name \<in> fmdom' (Programs c)"
  by (cases "fmlookup (Programs c) name") (auto simp: dependencies_def fmlookup_dom'_iff)

lemma validateDependencies_Inr:
  "validateDependencies c = Inr () \<longleftrightarrow> (\<forall>name. \<forall>dep \<in> set (dependencies c name). dependency_ok c dep)"
proof -
  have "validateDependencies c = Inr () \<longleftrightarrow>
      (\<forall>name \<in> fmdom' (Programs c). \<forall>dep \<in> set (dependencies c name). dependency_error c name dep = None)"
    by (auto simp: validateDependencies_def first_error_Inr)
  then show ?thesis using dependencies_known by (auto simp: dependency_error_None)
qed

lemma deps_of_dependencies: "deps_of c name = map dep_Name (dependencies c name)"
  by (simp add: deps_of_def dependencies_def DependencyNames_def split: option.splits)

lemma dependency_ok_known: "dependency_ok c dep \<Longrightarrow> dep_Name dep \<in> fmdom' (Programs c)"
  by (auto simp: dependency_ok_def fmlookup_dom'_iff)

lemma dependencies_closed: "validateDependencies c = Inr () \<Longrightarrow> closed_deps c"
  by (auto simp: validateDependencies_Inr closed_deps_def deps_of_dependencies intro!: dependency_ok_known)

definition logs_to :: "Config \<Rightarrow> string \<Rightarrow> string \<Rightarrow> bool" where
  "logs_to c name path \<longleftrightarrow> path \<noteq> '''' \<and> path \<in> set (log_paths c name)"

lemma owners_loop_Inr:
  "owners_loop ps owners = Inr () \<longleftrightarrow>
     (\<forall>(name, path) \<in> set ps. path \<noteq> '''' \<longrightarrow> fmlookup owners path \<in> {None, Some name}) \<and>
     (\<forall>(name, path) \<in> set ps. \<forall>(name', path') \<in> set ps. path = path' \<and> path \<noteq> '''' \<longrightarrow> name = name')"
proof (induction ps owners rule: owners_loop.induct)
  case (1 owners)
  then show ?case by simp
next
  case (2 name path rest owners)
  consider (skip) "path = ''''"
    | (other) owner where "path \<noteq> ''''" "fmlookup owners path = Some owner" "owner \<noteq> name"
    | (claim) "path \<noteq> ''''" "fmlookup owners path \<in> {None, Some name}"
    by (cases "fmlookup owners path") auto
  then show ?case
  proof cases
    case skip
    with 2 show ?thesis by auto
  next
    case (other owner)
    then show ?thesis by auto
  next
    case claim
    then have "owners_loop ((name, path) # rest) owners = owners_loop rest (fmupd path name owners)"
      by (auto split: option.splits)
    moreover have "owners_loop rest (fmupd path name owners) = Inr () \<longleftrightarrow>
        (\<forall>(n, p) \<in> set rest. p \<noteq> '''' \<longrightarrow> fmlookup (fmupd path name owners) p \<in> {None, Some n}) \<and>
        (\<forall>(n, p) \<in> set rest. \<forall>(n', p') \<in> set rest. p = p' \<and> p \<noteq> '''' \<longrightarrow> n = n')"
      using claim 2 by (cases "fmlookup owners path") auto
    ultimately show ?thesis using claim by (auto split: if_splits)
  qed
qed

lemma logs_to_known: "logs_to c name path \<Longrightarrow> name \<in> fmdom' (Programs c)"
  by (cases "fmlookup (Programs c) name") (auto simp: logs_to_def log_paths_def fmlookup_dom'_iff)

lemma validateLogPaths_Inr:
  "validateLogPaths c = Inr () \<longleftrightarrow> (\<forall>n m path. logs_to c n path \<and> logs_to c m path \<longrightarrow> n = m)"
proof -
  have "validateLogPaths c = Inr () \<longleftrightarrow>
      (\<forall>n \<in> fmdom' (Programs c). \<forall>m \<in> fmdom' (Programs c). \<forall>path. logs_to c n path \<and> logs_to c m path \<longrightarrow> n = m)"
    by (simp add: validateLogPaths_def owners_loop_Inr logs_to_def) blast
  then show ?thesis using logs_to_known by blast
qed

section \<open>Properties\<close>

text \<open>
  C5. \<open>Validate\<close> accepts a configuration exactly when the dependencies have no cycle, every
  dependency exists and can reach its condition, no two programs log to one file and the socket
  path fits in \<^verbatim>\<open>sockaddr_un\<close>; the order in which the range visits the programs does not matter.
\<close>

theorem Validate_iff:
  assumes "ranges ord (Programs c)"
  shows "Validate ord c = Inr () \<longleftrightarrow>
    acyclic {(d, n). d \<in> set (deps_of c n)} \<and>
    (\<forall>name. \<forall>dep \<in> set (dependencies c name). dependency_ok c dep) \<and>
    (\<forall>n m path. logs_to c n path \<and> logs_to c m path \<longrightarrow> n = m) \<and>
    length (cfg_Socket (Supavisor c)) < 104"
proof -
  have "Validate ord c = Inr () \<longleftrightarrow> (\<exists>s. search_loop c ord ({}, {}) = Inr s) \<and>
      validateDependencies c = Inr () \<and> validateLogPaths c = Inr () \<and> validateSocketPath c = Inr ()"
    by (auto simp: Validate_def split: sum.splits)
  also have "\<dots> \<longleftrightarrow> acyclic (leads_to c) \<and> validateDependencies c = Inr () \<and>
      validateLogPaths c = Inr () \<and> validateSocketPath c = Inr ()"
    using search_loop_iff [OF assms] dependencies_closed by blast
  finally show ?thesis
    by (simp add: validateDependencies_Inr validateLogPaths_Inr validateSocketPath_def maxSocketPathLen_def
        leads_to_def not_le)
qed

text \<open>Inputs for the witnesses: programs given by their names and dependencies.\<close>

definition sample_validate :: "(string \<times> string list) list \<Rightarrow> Config" where
  "sample_validate ps = \<lparr>
     Programs = fmap_of_list (map (\<lambda>(name, deps). (name, sample_config\<lparr>pc_Name := name,
       pc_DependsOn := Some (map (\<lambda>d. \<lparr>dep_Name = d, dep_Condition = ConditionStarted\<rparr>) deps)\<rparr>)) ps),
     SourcePath = ''a.yml'', Supavisor = supavisorDefaults emptySupavisor\<rparr>"

lemma sample_validate_ok:
  "Validate [''api'', ''db''] (sample_validate [(''db'', []), (''api'', [''db''])]) = Inr ()"
  by code_simp

theorem Validate_iff_witness:
  "acyclic {(d, n). d \<in> set (deps_of (sample_validate [(''db'', []), (''api'', [''db''])]) n)}"
proof -
  have "ranges [''api'', ''db''] (Programs (sample_validate [(''db'', []), (''api'', [''db''])]))"
    by (auto simp: ranges_def sample_validate_def)
  from Validate_iff [OF this] sample_validate_ok show ?thesis by simp
qed

text \<open>
  Two programs that depend on the same missing program are not told that it does not exist:
  the search leaves the missing name on its stack, and finds it there again from the second one.
\<close>

theorem Validate_missing_reported_as_cycle:
  "Validate [''api'', ''web''] (sample_validate [(''api'', [''db'']), (''web'', [''db''])]) =
     Inl (CircularDependency ''web'' ''db'') \<and>
   Validate [''api''] (sample_validate [(''api'', [''db''])]) = Inl (MissingDependency ''api'' ''db'')"
  by code_simp

end
