(* ===== verification/Graph.thy ===== *)
theory Graph
  imports Kahn
begin

text \<open>
  The dependency graph of \<^verbatim>\<open>internal/dependency/graph.go\<close>: nodes with the names they depend on
  and an index of the reverse edges (\<open>Dependents\<close>) that \<open>AddNode\<close> keeps up to date, and the two
  consumers of that index, \<open>TopologicalSort\<close> and \<open>Tiers\<close>.

  The interpretation \<open>graph_index\<close> shows that the graphs \<open>AddNode\<close> builds obey the law of the
  interface \<open>dependency_index\<close>, so that the lemmas of theory \<open>Kahn\<close> are facts about them.
\<close>

section \<open>Definitions\<close>

record node =
  node_Name :: string
  Dependencies :: "string list"
  Dependents :: "string list"

record graph =
  nodes :: "(string, node) fmap"

datatype graph_error = CircularDependencyDetected

definition NewGraph :: graph where
  "NewGraph = \<lparr>nodes = fmempty\<rparr>"

subsection \<open>AddNode\<close>

text \<open>The map holds pointers, so changing a node found in the map changes the map's node.\<close>

definition update_node :: "string \<Rightarrow> (node \<Rightarrow> node) \<Rightarrow> (string, node) fmap \<Rightarrow> (string, node) fmap" where
  "update_node k f ns = (case fmlookup ns k of None \<Rightarrow> ns | Some nd \<Rightarrow> fmupd k (f nd) ns)"

definition drop_dependent :: "string \<Rightarrow> string \<Rightarrow> (string, node) fmap \<Rightarrow> (string, node) fmap" where
  "drop_dependent name oldDep =
     update_node oldDep (\<lambda>nd. nd\<lparr>Dependents := filter (\<lambda>d. d \<noteq> name) (Dependents nd)\<rparr>)"

definition add_dependent :: "string \<Rightarrow> string \<Rightarrow> (string, node) fmap \<Rightarrow> (string, node) fmap" where
  "add_dependent name dep =
     update_node dep (\<lambda>nd. if List.member (Dependents nd) name then nd
       else nd\<lparr>Dependents := Dependents nd @ [name]\<rparr>)"

definition adopt_dependents :: "string \<Rightarrow> string \<Rightarrow> (string, node) fmap \<Rightarrow> (string, node) fmap" where
  "adopt_dependents name otherName ns =
     (if otherName = name then ns
      else case fmlookup ns otherName of
        None \<Rightarrow> ns
      | Some otherNode \<Rightarrow>
          fold (\<lambda>dep ns'. if dep = name then add_dependent otherName name ns' else ns')
            (Dependencies otherNode) ns)"

text \<open>\<open>ord\<close> is the order in which the last loop ranges over the nodes.\<close>

definition AddNode :: "string list \<Rightarrow> string \<Rightarrow> string list \<Rightarrow> graph \<Rightarrow> graph" where
  "AddNode ord name deps g =
     (let ns1 = (case fmlookup (nodes g) name of
                   Some existingNode \<Rightarrow>
                     update_node name (\<lambda>nd. nd\<lparr>Dependencies := deps\<rparr>)
                       (fold (drop_dependent name) (Dependencies existingNode) (nodes g))
                 | None \<Rightarrow>
                     fmupd name \<lparr>node_Name = name, Dependencies = deps, Dependents = []\<rparr> (nodes g));
          ns2 = fold (add_dependent name) deps ns1;
          ns3 = fold (adopt_dependents name) ord ns2
      in g\<lparr>nodes := ns3\<rparr>)"

definition GetDependencies :: "graph \<Rightarrow> string \<Rightarrow> string list" where
  "GetDependencies g name =
     (case fmlookup (nodes g) name of None \<Rightarrow> [] | Some nd \<Rightarrow> Dependencies nd)"

subsection \<open>In-degrees and the index of reverse edges\<close>

definition count_dep :: "graph \<Rightarrow> string \<Rightarrow> string \<Rightarrow> (string, int) fmap \<Rightarrow> (string, int) fmap" where
  "count_dep g name dep deg =
     (if fmlookup (nodes g) dep \<noteq> None then fmupd name (lookup0 deg name + 1) deg else deg)"

definition in_degree :: "graph \<Rightarrow> string \<Rightarrow> (string, int) fmap \<Rightarrow> (string, int) fmap" where
  "in_degree g name deg =
     fold (count_dep g name) (GetDependencies g name) (fmupd name 0 deg)"

definition in_degrees :: "string list \<Rightarrow> graph \<Rightarrow> (string, int) fmap" where
  "in_degrees ord g = fold (in_degree g) ord fmempty"

definition dependents_of :: "graph \<Rightarrow> string \<Rightarrow> string list" where
  "dependents_of g name =
     (case fmlookup (nodes g) name of None \<Rightarrow> [] | Some nd \<Rightarrow> Dependents nd)"

subsection \<open>TopologicalSort and Tiers\<close>

text \<open>
  \<open>ordN\<close> is the order of the range over the nodes, \<open>ordD\<close> that of the range over the in-degrees.
\<close>

definition TopologicalSort :: "string list \<Rightarrow> string list \<Rightarrow> graph \<Rightarrow> graph_error + string list" where
  "TopologicalSort ordN ordD g =
     (let deg = in_degrees ordN g;
          queue = filter (\<lambda>name. fmlookup deg name = Some 0) ordD;
          r = kahn_loop (dependents_of g) deg queue [] 0
      in if snd r \<noteq> card (fmdom' (nodes g)) then Inl CircularDependencyDetected else Inr (fst r))"

definition Tiers :: "string list \<Rightarrow> string list \<Rightarrow> graph \<Rightarrow> graph_error + string list list" where
  "Tiers ordN ordD g =
     (let deg = in_degrees ordN g;
          current = filter (\<lambda>name. fmlookup deg name = Some 0) ordD;
          r = tier_loop (dependents_of g) deg current [] 0
      in if snd r \<noteq> card (fmdom' (nodes g)) then Inl CircularDependencyDetected else Inr (fst r))"

text \<open>The representation invariant: the index is the reverse of the dependencies, without repeats.\<close>

definition graph_ok :: "graph \<Rightarrow> bool" where
  "graph_ok g \<longleftrightarrow>
     (\<forall>n nd. fmlookup (nodes g) n = Some nd \<longrightarrow>
        node_Name nd = n \<and> distinct (Dependents nd) \<and>
        set (Dependents nd) = {m. n \<in> set (GetDependencies g m)})"

section \<open>AddNode keeps the index\<close>

lemma GetDependencies_known: "x \<in> set (GetDependencies g m) \<Longrightarrow> m \<in> fmdom' (nodes g)"
  by (cases "fmlookup (nodes g) m") (simp_all add: GetDependencies_def in_dom_iff)

lemma fmlookup_update_node [go_map]:
  "fmlookup (update_node k f ns) m = (if m = k then map_option f (fmlookup ns m) else fmlookup ns m)"
  by (auto simp: update_node_def split: option.splits)

lemma fmlookup_drop_dependents [go_map]:
  "fmlookup (fold (drop_dependent name) olds ns) m =
     map_option (\<lambda>nd. if m \<in> set olds then nd\<lparr>Dependents := filter (\<lambda>d. d \<noteq> name) (Dependents nd)\<rparr> else nd)
       (fmlookup ns m)"
proof (induction olds arbitrary: ns)
  case Nil
  then show ?case by (simp add: option.map_ident)
next
  case (Cons old olds)
  then show ?case
    by (cases "fmlookup ns m") (auto simp: drop_dependent_def fmlookup_update_node)
qed

lemma fmlookup_add_dependents [go_map]:
  "fmlookup (fold (add_dependent name) ds ns) m =
     map_option (\<lambda>nd. if m \<in> set ds \<and> name \<notin> set (Dependents nd)
         then nd\<lparr>Dependents := Dependents nd @ [name]\<rparr> else nd)
       (fmlookup ns m)"
proof (induction ds arbitrary: ns)
  case Nil
  then show ?case by (simp add: option.map_ident)
next
  case (Cons d ds)
  then show ?case
    by (cases "fmlookup ns m") (auto simp: add_dependent_def fmlookup_update_node)
qed

lemma fold_conditional_same:
  assumes "\<And>s. f (f s) = f s"
  shows "fold (\<lambda>x s. if x = a then f s else s) xs s = (if a \<in> set xs then f s else s)"
proof (induction xs arbitrary: s)
  case Nil
  then show ?case by simp
next
  case (Cons x xs)
  then show ?case using assms by auto
qed

lemma add_dependent_idem: "add_dependent name dep (add_dependent name dep ns) = add_dependent name dep ns"
  by (rule fmap_ext) (auto simp: add_dependent_def fmlookup_update_node option.map_comp o_def
      intro!: option.map_cong)

lemma adopt_dependents_eq:
  "adopt_dependents name other ns =
     (if other \<noteq> name \<and> (\<exists>nd. fmlookup ns other = Some nd \<and> name \<in> set (Dependencies nd))
      then add_dependent other name ns else ns)"
  by (auto simp: adopt_dependents_def fold_conditional_same add_dependent_idem split: option.splits)

lemma fmlookup_adopt_other [go_map]:
  "m \<noteq> name \<Longrightarrow> fmlookup (fold (adopt_dependents name) ord ns) m = fmlookup ns m"
  by (induction ord arbitrary: ns)
    (auto simp: adopt_dependents_eq add_dependent_def fmlookup_update_node)

lemma fmlookup_adopt_self:
  assumes "distinct ord" and "fmlookup ns name = Some nd"
  shows "fmlookup (fold (adopt_dependents name) ord ns) name =
    Some (nd\<lparr>Dependents := Dependents nd @
      filter (\<lambda>k. k \<noteq> name \<and> name \<in> set (GetDependencies \<lparr>nodes = ns\<rparr> k) \<and> k \<notin> set (Dependents nd)) ord\<rparr>)"
  using assms
proof (induction ord arbitrary: ns nd)
  case Nil
  then show ?case by simp
next
  case (Cons k ord)
  let ?ns = "adopt_dependents name k ns"
  let ?nd = "if k \<noteq> name \<and> name \<in> set (GetDependencies \<lparr>nodes = ns\<rparr> k) \<and> k \<notin> set (Dependents nd)
    then nd\<lparr>Dependents := Dependents nd @ [k]\<rparr> else nd"
  have self: "fmlookup ?ns name = Some ?nd"
    using Cons.prems(2)
    by (auto simp: adopt_dependents_eq add_dependent_def fmlookup_update_node GetDependencies_def)
  have other: "GetDependencies \<lparr>nodes = ?ns\<rparr> x = GetDependencies \<lparr>nodes = ns\<rparr> x" for x
    using Cons.prems(2)
    by (auto simp: adopt_dependents_eq add_dependent_def fmlookup_update_node GetDependencies_def)
  have "filter (\<lambda>x. x \<noteq> name \<and> name \<in> set (GetDependencies \<lparr>nodes = ns\<rparr> x) \<and> x \<notin> set (Dependents ?nd)) ord
      = filter (\<lambda>x. x \<noteq> name \<and> name \<in> set (GetDependencies \<lparr>nodes = ns\<rparr> x) \<and> x \<notin> set (Dependents nd)) ord"
    using Cons.prems(1) by (intro filter_cong) auto
  with Cons.IH [OF _ self] Cons.prems(1) show ?case by (auto simp: other)
qed

lemma AddNode_base:
  assumes "ns2 = fold (add_dependent name) deps
    (case fmlookup (nodes g) name of
       Some existingNode \<Rightarrow> update_node name (\<lambda>nd. nd\<lparr>Dependencies := deps\<rparr>)
         (fold (drop_dependent name) (Dependencies existingNode) (nodes g))
     | None \<Rightarrow> fmupd name \<lparr>node_Name = name, Dependencies = deps, Dependents = []\<rparr> (nodes g))"
  shows "AddNode ord name deps g = g\<lparr>nodes := fold (adopt_dependents name) ord ns2\<rparr>"
  by (simp add: AddNode_def Let_def assms)

text \<open>The state before the last loop: all but the edges from nodes that were there first.\<close>

lemma AddNode_before_adopt:
  assumes ok: "graph_ok g"
    and ns2: "ns2 = fold (add_dependent name) deps
    (case fmlookup (nodes g) name of
       Some existingNode \<Rightarrow> update_node name (\<lambda>nd. nd\<lparr>Dependencies := deps\<rparr>)
         (fold (drop_dependent name) (Dependencies existingNode) (nodes g))
     | None \<Rightarrow> fmupd name \<lparr>node_Name = name, Dependencies = deps, Dependents = []\<rparr> (nodes g))"
  shows "GetDependencies \<lparr>nodes = ns2\<rparr> n = (if n = name then deps else GetDependencies g n)"
    and "fmlookup ns2 n = None \<longleftrightarrow> n \<noteq> name \<and> fmlookup (nodes g) n = None"
    and "fmlookup ns2 n = Some nd \<Longrightarrow> node_Name nd = n \<and> distinct (Dependents nd)"
    and "fmlookup ns2 n = Some nd \<Longrightarrow> n \<noteq> name \<or> fmlookup (nodes g) name \<noteq> None \<Longrightarrow>
      set (Dependents nd) = {k. n \<in> set (GetDependencies \<lparr>nodes = ns2\<rparr> k)}"
    and "fmlookup ns2 name = Some nd \<Longrightarrow> fmlookup (nodes g) name = None \<Longrightarrow>
      set (Dependents nd) = {k. k = name \<and> name \<in> set deps}"
proof -
  have okD: "node_Name nd = n" "distinct (Dependents nd)"
    "set (Dependents nd) = {k. n \<in> set (GetDependencies g k)}"
    if "fmlookup (nodes g) n = Some nd" for n nd
    using ok that by (simp_all add: graph_ok_def)
  show deps2: "GetDependencies \<lparr>nodes = ns2\<rparr> n = (if n = name then deps else GetDependencies g n)" for n
    by (auto simp: ns2 GetDependencies_def go_map option.map_comp split: option.splits)
  show none2: "fmlookup ns2 n = None \<longleftrightarrow> n \<noteq> name \<and> fmlookup (nodes g) n = None"
    by (auto simp: ns2 go_map split: option.splits)
  show "node_Name nd = n \<and> distinct (Dependents nd)" if "fmlookup ns2 n = Some nd"
    using that okD by (auto simp: ns2 go_map split: option.splits if_splits)
  show "set (Dependents nd) = {k. k = name \<and> name \<in> set deps}"
    if "fmlookup ns2 name = Some nd" "fmlookup (nodes g) name = None"
    using that by (auto simp: ns2 go_map split: if_splits)
  show "set (Dependents nd) = {k. n \<in> set (GetDependencies \<lparr>nodes = ns2\<rparr> k)}"
    if lookup: "fmlookup ns2 n = Some nd" and present: "n \<noteq> name \<or> fmlookup (nodes g) name \<noteq> None"
  proof (cases "fmlookup (nodes g) name")
    case None
    with present have n: "n \<noteq> name" by simp
    with lookup None obtain nd0 where nd0: "fmlookup (nodes g) n = Some nd0"
      and nd: "nd = (if n \<in> set deps \<and> name \<notin> set (Dependents nd0)
        then nd0\<lparr>Dependents := Dependents nd0 @ [name]\<rparr> else nd0)"
      using n by (auto simp: ns2 go_map)
    have "GetDependencies g name = []" using None by (simp add: GetDependencies_def)
    then show ?thesis
      using okD(3) [OF nd0] nd by (auto simp: deps2)
  next
    case (Some e)
    then have e: "GetDependencies g name = Dependencies e" by (simp add: GetDependencies_def)
    obtain nd0 where nd0: "fmlookup (nodes g) n = Some nd0"
      using lookup Some none2 by (cases "n = name") auto
    let ?kept = "if n \<in> set (Dependencies e) then filter (\<lambda>d. d \<noteq> name) (Dependents nd0) else Dependents nd0"
    have "Dependents nd = (if n \<in> set deps \<and> name \<notin> set ?kept then ?kept @ [name] else ?kept)"
      using lookup Some nd0 by (auto simp: ns2 go_map split: if_splits)
    then show ?thesis
      using okD(3) [OF nd0] e by (auto simp: deps2)
  qed
qed

lemma AddNode_ok:
  assumes ok: "graph_ok g" and ord: "distinct ord" "set ord = insert name (fmdom' (nodes g))"
  shows "graph_ok (AddNode ord name deps g)"
    and "GetDependencies (AddNode ord name deps g) n = (if n = name then deps else GetDependencies g n)"
    and "fmdom' (nodes (AddNode ord name deps g)) = insert name (fmdom' (nodes g))"
proof -
  define ns2 where "ns2 = fold (add_dependent name) deps
    (case fmlookup (nodes g) name of
       Some existingNode \<Rightarrow> update_node name (\<lambda>nd. nd\<lparr>Dependencies := deps\<rparr>)
         (fold (drop_dependent name) (Dependencies existingNode) (nodes g))
     | None \<Rightarrow> fmupd name \<lparr>node_Name = name, Dependencies = deps, Dependents = []\<rparr> (nodes g))"
  note before = AddNode_before_adopt [OF ok ns2_def]
  obtain nd where nd: "fmlookup ns2 name = Some nd"
    using before(2) [of name] by auto
  let ?new = "filter (\<lambda>k. k \<noteq> name \<and> name \<in> set (GetDependencies \<lparr>nodes = ns2\<rparr> k)
    \<and> k \<notin> set (Dependents nd)) ord"
  have add: "AddNode ord name deps g = g\<lparr>nodes := fold (adopt_dependents name) ord ns2\<rparr>"
    by (rule AddNode_base [OF ns2_def])
  have self: "fmlookup (fold (adopt_dependents name) ord ns2) name
      = Some (nd\<lparr>Dependents := Dependents nd @ ?new\<rparr>)"
    using ord(1) nd by (rule fmlookup_adopt_self)
  have deps2: "GetDependencies (AddNode ord name deps g) k = GetDependencies \<lparr>nodes = ns2\<rparr> k" for k
    using self nd by (cases "k = name") (simp_all add: add GetDependencies_def go_map)
  then show deps: "GetDependencies (AddNode ord name deps g) k
      = (if k = name then deps else GetDependencies g k)" for k
    by (simp add: before(1))
  show "fmdom' (nodes (AddNode ord name deps g)) = insert name (fmdom' (nodes g))"
  proof (rule set_eqI)
    fix k
    show "k \<in> fmdom' (nodes (AddNode ord name deps g)) \<longleftrightarrow> k \<in> insert name (fmdom' (nodes g))"
      using before(2) [of k] self by (cases "k = name") (simp_all add: add in_dom_iff go_map)
  qed
  have known: "k \<in> set ord" if "name \<in> set (GetDependencies g k)" for k
    using GetDependencies_known [OF that] ord(2) by simp
  have selfset: "set (Dependents nd @ ?new) = {k. name \<in> set (GetDependencies \<lparr>nodes = ns2\<rparr> k)}"
  proof (cases "fmlookup (nodes g) name")
    case None
    show ?thesis
      using before(5) [OF nd None] known by (auto simp: before(1) split: if_splits)
  next
    case (Some e)
    then show ?thesis using before(4) [OF nd] by auto
  qed
  show "graph_ok (AddNode ord name deps g)"
    unfolding graph_ok_def
  proof (intro allI impI)
    fix n nd'
    assume lookup: "fmlookup (nodes (AddNode ord name deps g)) n = Some nd'"
    show "node_Name nd' = n \<and> distinct (Dependents nd') \<and>
        set (Dependents nd') = {m. n \<in> set (GetDependencies (AddNode ord name deps g) m)}"
    proof (cases "n = name")
      case True
      with lookup self have "nd' = nd\<lparr>Dependents := Dependents nd @ ?new\<rparr>" by (simp add: add)
      then show ?thesis
        using True selfset before(3) [OF nd] ord(1) by (simp add: deps2) blast
    next
      case False
      with lookup have "fmlookup ns2 n = Some nd'" by (simp add: add go_map)
      then show ?thesis
        using False before(3,4) by (simp add: deps2)
    qed
  qed
qed

lemma NewGraph_ok: "graph_ok NewGraph"
  by (simp add: graph_ok_def NewGraph_def)

section \<open>The graph provides the index\<close>

lemma dependents_of_distinct: "graph_ok g \<Longrightarrow> distinct (dependents_of g n)"
  by (auto simp: graph_ok_def dependents_of_def split: option.splits)

lemma dependents_of_set:
  "graph_ok g \<Longrightarrow> n \<in> fmdom' (nodes g) \<Longrightarrow>
     set (dependents_of g n) = {m \<in> fmdom' (nodes g). n \<in> set (GetDependencies g m)}"
  using GetDependencies_known
  by (fastforce simp: graph_ok_def dependents_of_def in_dom_iff split: option.splits)

interpretation graph_index: dependency_index "\<lambda>g. fmdom' (nodes g)" GetDependencies dependents_of graph_ok
  by unfold_locales (simp_all add: dependents_of_distinct dependents_of_set)

section \<open>The start state of the loops\<close>

lemma count_deps_lookup:
  "fmlookup deg name = Some c \<Longrightarrow>
    fmlookup (fold (count_dep g name) ds deg) m =
      (if m = name then Some (c + int (length (filter (\<lambda>d. d \<in> fmdom' (nodes g)) ds))) else fmlookup deg m)"
proof (induction ds arbitrary: deg c)
  case Nil
  then show ?case by simp
next
  case (Cons d ds)
  let ?deg = "count_dep g name d deg"
  have "fmlookup ?deg name = Some (if d \<in> fmdom' (nodes g) then c + 1 else c)"
    using Cons.prems by (simp add: count_dep_def lookup0_def in_dom_iff)
  moreover have "m \<noteq> name \<Longrightarrow> fmlookup ?deg m = fmlookup deg m"
    by (simp add: count_dep_def)
  ultimately show ?case using Cons.IH [of ?deg] by simp
qed

lemma in_degrees_lookup:
  "fmlookup (in_degrees ord g) m =
    (if m \<in> set ord
     then Some (int (length (known_deps (fmdom' (nodes g)) (GetDependencies g) m))) else None)"
proof -
  have one: "fmlookup (in_degree g n deg) m =
      (if m = n then Some (int (length (known_deps (fmdom' (nodes g)) (GetDependencies g) m)))
       else fmlookup deg m)" for n deg
    by (simp add: in_degree_def count_deps_lookup [where c = 0] known_deps_def)
  have "fmlookup (fold (in_degree g) ord deg) m =
      (if m \<in> set ord then Some (int (length (known_deps (fmdom' (nodes g)) (GetDependencies g) m)))
       else fmlookup deg m)" for deg
    by (induction ord arbitrary: deg) (auto simp: one)
  then show ?thesis by (simp add: in_degrees_def)
qed

lemma start_inv:
  assumes "ranges ordN (nodes g)" and "ranges ordD (nodes g)"
  shows "kahn_inv (fmdom' (nodes g)) (GetDependencies g) (set [])
    (filter (\<lambda>n. fmlookup (in_degrees ordN g) n = Some 0) ordD) (in_degrees ordN g)"
  using assms by (auto simp: kahn_inv_def ranges_def in_degrees_lookup lookup0_def ready_def)

lemma TopologicalSort_cases:
  assumes "graph_ok g" and "ranges ordN (nodes g)" and "ranges ordD (nodes g)"
  obtains xs deg where "kahn_inv (fmdom' (nodes g)) (GetDependencies g) (set xs) [] deg"
    and "distinct xs" and "deps_first (fmdom' (nodes g)) (GetDependencies g) xs"
    and "TopologicalSort ordN ordD g =
      (if set xs = fmdom' (nodes g) then Inr xs else Inl CircularDependencyDetected)"
proof -
  let ?r = "kahn_loop (dependents_of g) (in_degrees ordN g)
    (filter (\<lambda>n. fmlookup (in_degrees ordN g) n = Some 0) ordD) [] 0"
  note start = start_inv [OF assms(2,3)]
  have first: "deps_first (fmdom' (nodes g)) (GetDependencies g) []"
    by (simp add: deps_first_def)
  obtain deg where inv: "kahn_inv (fmdom' (nodes g)) (GetDependencies g) (set (fst ?r)) [] deg"
    and r: "distinct (fst ?r)" "deps_first (fmdom' (nodes g)) (GetDependencies g) (fst ?r)"
      "snd ?r = length (fst ?r)"
    using graph_index.kahn_loop_inv [OF assms(1) start _ first, of 0] by auto
  have "snd ?r = card (fmdom' (nodes g)) \<longleftrightarrow> set (fst ?r) = fmdom' (nodes g)"
    using r(1,3) inv by (simp add: kahn_inv_def) (metis card_subset_eq distinct_card finite_fmdom')
  then have "TopologicalSort ordN ordD g =
      (if set (fst ?r) = fmdom' (nodes g) then Inr (fst ?r) else Inl CircularDependencyDetected)"
    by (simp add: TopologicalSort_def Let_def)
  with that inv r show thesis by blast
qed

lemma Tiers_cases:
  assumes "graph_ok g" and "ranges ordN (nodes g)" and "ranges ordD (nodes g)"
  obtains tiers deg where "kahn_inv (fmdom' (nodes g)) (GetDependencies g) (set (concat tiers)) [] deg"
    and "distinct (concat tiers)" and "tiered (fmdom' (nodes g)) (GetDependencies g) tiers"
    and "Tiers ordN ordD g =
      (if set (concat tiers) = fmdom' (nodes g) then Inr tiers else Inl CircularDependencyDetected)"
proof -
  let ?r = "tier_loop (dependents_of g) (in_degrees ordN g)
    (filter (\<lambda>n. fmlookup (in_degrees ordN g) n = Some 0) ordD) [] 0"
  have start: "kahn_inv (fmdom' (nodes g)) (GetDependencies g) (set (concat []))
      (filter (\<lambda>n. fmlookup (in_degrees ordN g) n = Some 0) ordD) (in_degrees ordN g)"
    using start_inv [OF assms(2,3)] by simp
  have first: "tiered (fmdom' (nodes g)) (GetDependencies g) []"
    by (simp add: tiered_def)
  obtain deg where inv: "kahn_inv (fmdom' (nodes g)) (GetDependencies g) (set (concat (fst ?r))) [] deg"
    and r: "distinct (concat (fst ?r))" "tiered (fmdom' (nodes g)) (GetDependencies g) (fst ?r)"
      "snd ?r = length (concat (fst ?r))"
    using graph_index.tier_loop_inv [OF assms(1) start _ first, of 0] by auto
  have "snd ?r = card (fmdom' (nodes g)) \<longleftrightarrow> set (concat (fst ?r)) = fmdom' (nodes g)"
    using r(1,3) inv
    by (simp add: kahn_inv_def del: set_concat) (metis card_subset_eq distinct_card finite_fmdom')
  then have "Tiers ordN ordD g =
      (if set (concat (fst ?r)) = fmdom' (nodes g) then Inr (fst ?r) else Inl CircularDependencyDetected)"
    by (simp add: Tiers_def Let_def)
  with that inv r show thesis by blast
qed

text \<open>Both loops place every name exactly when there is no cycle and no repeated dependency.\<close>

definition sortable :: "graph \<Rightarrow> bool" where
  "sortable g \<longleftrightarrow> acyclic (dep_edges (fmdom' (nodes g)) (GetDependencies g)) \<and>
     (\<forall>n \<in> fmdom' (nodes g). distinct (known_deps (fmdom' (nodes g)) (GetDependencies g) n))"

lemma all_placed_iff_sortable:
  assumes "kahn_inv (fmdom' (nodes g)) (GetDependencies g) (set xs) [] deg"
    and "distinct xs" and "deps_first (fmdom' (nodes g)) (GetDependencies g) xs"
  shows "set xs = fmdom' (nodes g) \<longleftrightarrow> sortable g"
proof
  assume all: "set xs = fmdom' (nodes g)"
  then have "\<forall>n \<in> fmdom' (nodes g). distinct (known_deps (fmdom' (nodes g)) (GetDependencies g) n)"
    using assms(1) by (auto simp: kahn_inv_def ready_def)
  with deps_first_acyclic [OF assms(3,2) all] show "sortable g" by (simp add: sortable_def)
next
  assume "sortable g"
  then show "set xs = fmdom' (nodes g)"
    using kahn_final [OF _ assms(1)] by (simp add: sortable_def)
qed

text \<open>A graph the code builds, for the witnesses: \<open>api\<close> depends on \<open>db\<close> and is added first.\<close>

definition sample_graph :: graph where
  "sample_graph = AddNode [''db'', ''api''] ''db'' [] (AddNode [''api''] ''api'' [''db''] NewGraph)"

lemma sample_start_ok: "graph_ok (AddNode [''api''] ''api'' [''db''] NewGraph)"
  by (rule AddNode_ok(1) [OF NewGraph_ok]) (simp_all add: NewGraph_def)

lemma sample_start_dom: "fmdom' (nodes (AddNode [''api''] ''api'' [''db''] NewGraph)) = {''api''}"
  by (subst AddNode_ok(3) [OF NewGraph_ok]) (simp_all add: NewGraph_def)

lemma sample_graph_ok: "graph_ok sample_graph"
  unfolding sample_graph_def
  by (rule AddNode_ok(1) [OF sample_start_ok]) (simp_all add: sample_start_dom)

lemma sample_dom: "fmdom' (nodes sample_graph) = {''db'', ''api''}"
  unfolding sample_graph_def
  by (subst AddNode_ok(3) [OF sample_start_ok]) (simp_all add: sample_start_dom)

lemma sample_ranges: "ranges [''api'', ''db''] (nodes sample_graph)" "ranges [''db'', ''api''] (nodes sample_graph)"
  by (auto simp: ranges_def sample_dom)

section \<open>Properties\<close>

text \<open>
  Adding a program, or replacing its dependencies when it is already there, keeps the index of
  reverse edges exact, whatever order the loop over the nodes takes; it changes the dependencies
  of that program only and adds no other name to the graph.
\<close>

theorem AddNode_keeps_index:
  assumes "graph_ok g" and "distinct ord" and "set ord = insert name (fmdom' (nodes g))"
  shows "graph_ok (AddNode ord name deps g) \<and>
    fmdom' (nodes (AddNode ord name deps g)) = insert name (fmdom' (nodes g)) \<and>
    (\<forall>n. GetDependencies (AddNode ord name deps g) n = (if n = name then deps else GetDependencies g n))"
  using AddNode_ok [OF assms] by blast

theorem AddNode_keeps_index_witness:
  "graph_ok (AddNode [''db'', ''api''] ''api'' [] sample_graph) \<and>
    fmdom' (nodes (AddNode [''db'', ''api''] ''api'' [] sample_graph)) = insert ''api'' (fmdom' (nodes sample_graph)) \<and>
    (\<forall>n. GetDependencies (AddNode [''db'', ''api''] ''api'' [] sample_graph) n =
      (if n = ''api'' then [] else GetDependencies sample_graph n))"
  by (rule AddNode_keeps_index [OF sample_graph_ok]) (auto simp: sample_dom)

text \<open>
  A topological sort that succeeds lists every program of the graph once, each after
  everything it depends on (that the graph has).
\<close>

theorem TopologicalSort_order:
  assumes "graph_ok g" and "ranges ordN (nodes g)" and "ranges ordD (nodes g)"
    and "TopologicalSort ordN ordD g = Inr xs"
  shows "distinct xs \<and> set xs = fmdom' (nodes g) \<and>
    (\<forall>i < length xs. \<forall>d \<in> set (GetDependencies g (xs ! i)).
      d \<in> fmdom' (nodes g) \<longrightarrow> d \<in> set (take i xs))"
proof -
  obtain ys deg where "distinct ys" "deps_first (fmdom' (nodes g)) (GetDependencies g) ys"
    and "TopologicalSort ordN ordD g =
      (if set ys = fmdom' (nodes g) then Inr ys else Inl CircularDependencyDetected)"
    using TopologicalSort_cases [OF assms(1-3)] by blast
  with assms(4) have "distinct xs" "set xs = fmdom' (nodes g)"
    "deps_first (fmdom' (nodes g)) (GetDependencies g) xs"
    by (simp_all split: if_splits)
  then show ?thesis by (auto simp: deps_first_def known_deps_def)
qed

theorem TopologicalSort_order_witness:
  "distinct [''db'', ''api''] \<and> set [''db'', ''api''] = fmdom' (nodes sample_graph)"
proof -
  have "TopologicalSort [''api'', ''db''] [''db'', ''api''] sample_graph = Inr [''db'', ''api'']"
    by code_simp
  from TopologicalSort_order [OF sample_graph_ok sample_ranges this] show ?thesis by blast
qed

text \<open>
  C4. \<open>TopologicalSort\<close> reports a circular dependency exactly when the graph has a cycle or a
  program names one of the graph's programs twice in its dependencies.
\<close>

theorem TopologicalSort_succeeds_iff:
  assumes "graph_ok g" and "ranges ordN (nodes g)" and "ranges ordD (nodes g)"
  shows "(\<exists>xs. TopologicalSort ordN ordD g = Inr xs) \<longleftrightarrow>
    acyclic (dep_edges (fmdom' (nodes g)) (GetDependencies g)) \<and>
    (\<forall>n \<in> fmdom' (nodes g). distinct (known_deps (fmdom' (nodes g)) (GetDependencies g) n))"
proof -
  obtain ys deg where "kahn_inv (fmdom' (nodes g)) (GetDependencies g) (set ys) [] deg"
    "distinct ys" "deps_first (fmdom' (nodes g)) (GetDependencies g) ys"
    and "TopologicalSort ordN ordD g =
      (if set ys = fmdom' (nodes g) then Inr ys else Inl CircularDependencyDetected)"
    using TopologicalSort_cases [OF assms] by blast
  then show ?thesis
    using all_placed_iff_sortable [of g ys deg] by (simp add: sortable_def)
qed

theorem TopologicalSort_succeeds_iff_witness:
  "(\<exists>xs. TopologicalSort [''api'', ''db''] [''db'', ''api''] sample_graph = Inr xs) \<longleftrightarrow>
    acyclic (dep_edges (fmdom' (nodes sample_graph)) (GetDependencies sample_graph)) \<and>
    (\<forall>n \<in> fmdom' (nodes sample_graph).
      distinct (known_deps (fmdom' (nodes sample_graph)) (GetDependencies sample_graph) n))"
  by (rule TopologicalSort_succeeds_iff [OF sample_graph_ok sample_ranges])

text \<open>
  C10. \<open>Tiers\<close> puts every program of the graph in exactly one tier; no tier is empty, each is
  sorted, a program's dependencies are all in earlier tiers, and it is in the earliest tier
  possible, since one of them is in the tier just before.
\<close>

theorem Tiers_layered:
  assumes "graph_ok g" and "ranges ordN (nodes g)" and "ranges ordD (nodes g)"
    and "Tiers ordN ordD g = Inr tiers"
  shows "distinct (concat tiers) \<and> set (concat tiers) = fmdom' (nodes g) \<and>
    tiered (fmdom' (nodes g)) (GetDependencies g) tiers"
proof -
  obtain ts deg where "distinct (concat ts)" "tiered (fmdom' (nodes g)) (GetDependencies g) ts"
    and "Tiers ordN ordD g =
      (if set (concat ts) = fmdom' (nodes g) then Inr ts else Inl CircularDependencyDetected)"
    using Tiers_cases [OF assms(1-3)] by blast
  with assms(4) show ?thesis by (simp del: set_concat split: if_splits)
qed

theorem Tiers_layered_witness:
  "distinct (concat [[''db''], [''api'']]) \<and> set (concat [[''db''], [''api'']]) = fmdom' (nodes sample_graph) \<and>
    tiered (fmdom' (nodes sample_graph)) (GetDependencies sample_graph) [[''db''], [''api'']]"
  by (rule Tiers_layered [OF sample_graph_ok sample_ranges]) code_simp

text \<open>
  \<open>Tiers\<close> does not depend on the order in which Go happens to range over its maps, and it
  succeeds exactly when \<open>TopologicalSort\<close> does, whatever orders the two see.
\<close>

theorem Tiers_deterministic:
  assumes "graph_ok g" and "ranges ordN (nodes g)" and "ranges ordD (nodes g)"
    and "ranges ordN' (nodes g)" and "ranges ordD' (nodes g)"
  shows "Tiers ordN ordD g = Tiers ordN' ordD' g \<and>
    ((\<exists>tiers. Tiers ordN ordD g = Inr tiers) \<longleftrightarrow> (\<exists>xs. TopologicalSort ordN' ordD' g = Inr xs))"
proof -
  let ?zero = "\<lambda>ordN. \<lambda>n. fmlookup (in_degrees ordN g) n = Some 0"
  have deg: "in_degrees ordN g = in_degrees ordN' g"
    using ranges_same_set [OF assms(2,4)] by (intro fmap_ext) (simp add: in_degrees_lookup)
  have "sort (filter (?zero ordN) ordD) = filter (?zero ordN) (sort ordD)"
    "sort (filter (?zero ordN) ordD') = filter (?zero ordN) (sort ordD')"
    by (simp_all add: filter_sort)
  then have sorted: "sort (filter (?zero ordN) ordD) = sort (filter (?zero ordN) ordD')"
    using sort_ranges_unique [OF assms(3,5)] by simp
  have "tier_loop (dependents_of g) d (filter P ordD) ts p = tier_loop (dependents_of g) d (filter P ordD') ts p"
    if "sort (filter P ordD) = sort (filter P ordD')" for d P ts p
    using that by (subst (1 2) tier_loop.simps) (metis length_0_conv length_sort)
  then have same: "Tiers ordN ordD g = Tiers ordN' ordD' g"
    using sorted by (simp add: Tiers_def Let_def deg)
  obtain ts dt where "kahn_inv (fmdom' (nodes g)) (GetDependencies g) (set (concat ts)) [] dt"
    "distinct (concat ts)" "tiered (fmdom' (nodes g)) (GetDependencies g) ts"
    and "Tiers ordN ordD g =
      (if set (concat ts) = fmdom' (nodes g) then Inr ts else Inl CircularDependencyDetected)"
    using Tiers_cases [OF assms(1-3)] by blast
  then have "(\<exists>tiers. Tiers ordN ordD g = Inr tiers) \<longleftrightarrow> sortable g"
    using all_placed_iff_sortable [of g "concat ts" dt] tiered_deps_first
    by (simp del: set_concat)
  moreover obtain ys dy where "kahn_inv (fmdom' (nodes g)) (GetDependencies g) (set ys) [] dy"
    "distinct ys" "deps_first (fmdom' (nodes g)) (GetDependencies g) ys"
    and "TopologicalSort ordN' ordD' g =
      (if set ys = fmdom' (nodes g) then Inr ys else Inl CircularDependencyDetected)"
    using TopologicalSort_cases [OF assms(1,4,5)] by blast
  then have "(\<exists>xs. TopologicalSort ordN' ordD' g = Inr xs) \<longleftrightarrow> sortable g"
    using all_placed_iff_sortable [of g ys dy] by simp
  ultimately show ?thesis using same by simp
qed

theorem Tiers_deterministic_witness:
  "Tiers [''api'', ''db''] [''db'', ''api''] sample_graph = Tiers [''db'', ''api''] [''api'', ''db''] sample_graph \<and>
    ((\<exists>tiers. Tiers [''api'', ''db''] [''db'', ''api''] sample_graph = Inr tiers) \<longleftrightarrow>
     (\<exists>xs. TopologicalSort [''db'', ''api''] [''api'', ''db''] sample_graph = Inr xs))"
  by (rule Tiers_deterministic [OF sample_graph_ok sample_ranges sample_ranges(2,1)])

end
