(* ===== verification/Machine.thy ===== *)
theory Machine
  imports Main
begin

text \<open>
  Labelled transition systems, for the parts of the program that run as several goroutines: a step
  is one critical section or one action of the operating system, and the steps of all parties
  interleave freely.

  The interface \<open>inductive_invariant\<close> is what a component proves about its own steps; what follows
  for every state that can be reached, and for every sequence of steps, is proved here once.
\<close>

inductive reachable :: "('s \<Rightarrow> bool) \<Rightarrow> ('s \<Rightarrow> 'l \<Rightarrow> 's \<Rightarrow> bool) \<Rightarrow> 's \<Rightarrow> bool" for initial step where
  reachable_initial: "initial s \<Longrightarrow> reachable initial step s"
| reachable_step: "reachable initial step s \<Longrightarrow> step s l s' \<Longrightarrow> reachable initial step s'"

inductive runs :: "('s \<Rightarrow> 'l \<Rightarrow> 's \<Rightarrow> bool) \<Rightarrow> 's \<Rightarrow> 'l list \<Rightarrow> 's \<Rightarrow> bool" for step where
  runs_none: "runs step s [] s"
| runs_more: "runs step s ls s' \<Longrightarrow> step s' l s'' \<Longrightarrow> runs step s (ls @ [l]) s''"

lemma reachable_mono: "reachable initial step s \<Longrightarrow> (\<And>x. initial x \<Longrightarrow> initial' x) \<Longrightarrow> reachable initial' step s"
  by (induction rule: reachable.induct) (auto intro: reachable_initial reachable_step)

inductive_cases runs_NilE: "runs step s [] s'"

lemma runs_reachable: "runs step s ls s' \<Longrightarrow> reachable initial step s \<Longrightarrow> reachable initial step s'"
  by (induction rule: runs.induct) (auto intro: reachable_step)

lemma runs_one: "step s l s' \<Longrightarrow> runs step s [l] s'"
  using runs_more [OF runs_none, of step s l s'] by simp

lemma runs_trans: "runs step s' ms s'' \<Longrightarrow> runs step s ls s' \<Longrightarrow> runs step s (ls @ ms) s''"
proof (induction s' ms s'' rule: runs.induct)
  case (runs_more s' ms s1 l s2)
  then have "runs step s ((ls @ ms) @ [l]) s2" by (blast intro: runs.runs_more)
  then show ?case by simp
qed simp

locale inductive_invariant =
  fixes initial :: "'s \<Rightarrow> bool"
    and step :: "'s \<Rightarrow> 'l \<Rightarrow> 's \<Rightarrow> bool"
    and inv :: "'s \<Rightarrow> bool"
  assumes inv_initial: "initial s \<Longrightarrow> inv s"
    and inv_step: "inv s \<Longrightarrow> step s l s' \<Longrightarrow> inv s'"
begin

lemma inv_reachable: "reachable initial step s \<Longrightarrow> inv s"
  by (induction rule: reachable.induct) (auto intro: inv_initial inv_step)

lemma inv_runs: "runs step s ls s' \<Longrightarrow> inv s \<Longrightarrow> inv s'"
  by (induction rule: runs.induct) (auto intro: inv_step)

text \<open>Every state along a run from an initial state satisfies the invariant.\<close>

lemma inv_from_initial: "initial s \<Longrightarrow> runs step s ls s' \<Longrightarrow> inv s'"
  using inv_initial inv_runs by blast

end

text \<open>A quantity that no step decreases, under an invariant.\<close>

locale monotone_measure = inductive_invariant initial step inv
  for initial :: "'s \<Rightarrow> bool" and step :: "'s \<Rightarrow> 'l \<Rightarrow> 's \<Rightarrow> bool" and inv :: "'s \<Rightarrow> bool" +
  fixes amount :: "'s \<Rightarrow> 'a::preorder"
  assumes amount_step: "inv s \<Longrightarrow> step s l s' \<Longrightarrow> amount s \<le> amount s'"
begin

lemma amount_runs: "runs step s ls s' \<Longrightarrow> inv s \<Longrightarrow> amount s \<le> amount s'"
proof (induction rule: runs.induct)
  case (runs_more s ls s' l s'')
  then have "inv s'" using inv_runs by blast
  with runs_more amount_step show ?case by (blast intro: order_trans)
qed simp

end

text \<open>
  A detailed machine that takes, seen through \<open>abs\<close>, the steps of an abstract one or none at all: what
  it reaches is what the abstract machine reaches. It is a functional refinement when \<open>abs\<close> completes work that
  is under way, and a projection when \<open>abs\<close> is one component of a larger state.
\<close>

locale simulation =
  fixes initial :: "'s \<Rightarrow> bool" and step :: "'s \<Rightarrow> 'l \<Rightarrow> 's \<Rightarrow> bool"
    and initial' :: "'t \<Rightarrow> bool" and step' :: "'t \<Rightarrow> 'm \<Rightarrow> 't \<Rightarrow> bool"
    and abs :: "'s \<Rightarrow> 't"
  assumes abs_initial: "initial s \<Longrightarrow> initial' (abs s)"
    and abs_step: "reachable initial step s \<Longrightarrow> step s l s' \<Longrightarrow> abs s' = abs s \<or> (\<exists>m. step' (abs s) m (abs s'))"
begin

lemma abs_reachable: "reachable initial step s \<Longrightarrow> reachable initial' step' (abs s)"
proof (induction rule: reachable.induct)
  case (reachable_step s l s')
  with abs_step [OF reachable_step.hyps(1,2)] show ?case by (auto intro: reachable.reachable_step)
qed (simp add: abs_initial reachable.reachable_initial)

end

end
