(* ===== verification/Reaper.thy ===== *)
theory Reaper
  imports Prelude Machine
begin

unbundle bit_operations_syntax

text \<open>
  The reaper of \<^verbatim>\<open>internal/process/reaper.go\<close>, with the reading of wait statuses it rests on
  (\<open>exitCodeOfStatus\<close>, and \<open>exitErrorOf\<close> of \<^verbatim>\<open>internal/process/process.go\<close>).

  Programs are started from several goroutines while the reaper collects exits and the kernel ends
  children, reuses their numbers and hands over orphans, so the whole is a transition system. The
  lock \<open>forking\<close> is in the state: a start holds it for reading from the fork to the registration,
  and \<open>reapAll\<close> for writing. \<open>incarnation\<close> numbers the children that ever existed, so that two children
  with the same process id are told apart; it is for the statements only and no step looks at it. A round
  of the loop of \<open>reapAll\<close> is one step here, and the loop may end whenever it likes, since children go on exiting
  after \<^verbatim>\<open>wait4\<close> has found nothing (\<open>no_zombie\<close>) and before the lock is released; theory \<open>ReapLoop\<close> cuts it up and proves that this is right.
\<close>

section \<open>Wait statuses\<close>

type_synonym WaitStatus = "32 word"

text \<open>\<^verbatim>\<open>syscall.WaitStatus\<close> on Linux.\<close>

definition Exited :: "WaitStatus \<Rightarrow> bool" where
  "Exited w \<longleftrightarrow> w AND 0x7F = 0"

definition Signaled :: "WaitStatus \<Rightarrow> bool" where
  "Signaled w \<longleftrightarrow> w AND 0x7F \<noteq> 0x7F \<and> w AND 0x7F \<noteq> 0"

definition ExitStatus :: "WaitStatus \<Rightarrow> int" where
  "ExitStatus w = (if \<not> Exited w then - 1 else uint (drop_bit 8 w AND 0xFF))"

definition StatusSignal :: "WaitStatus \<Rightarrow> int" where
  "StatusSignal w = (if \<not> Signaled w then - 1 else uint (w AND 0x7F))"

definition exitCodeSignalled :: int where
  "exitCodeSignalled = - 1"

definition exitCodeOfStatus :: "WaitStatus \<Rightarrow> int" where
  "exitCodeOfStatus status = (if Signaled status then exitCodeSignalled else ExitStatus status)"

datatype exit_error = KilledBySignal int | ExitedWith int

definition exitErrorOf :: "WaitStatus \<Rightarrow> exit_error option" where
  "exitErrorOf status =
     (if Signaled status then Some (KilledBySignal (StatusSignal status))
      else if ExitStatus status \<noteq> 0 then Some (ExitedWith (ExitStatus status))
      else None)"

text \<open>What the kernel reports for a child that exits with a code, or is killed by a signal.\<close>

definition exited_status :: "8 word \<Rightarrow> WaitStatus" where
  "exited_status code = push_bit 8 (ucast code)"

definition signaled_status :: "nat \<Rightarrow> bool \<Rightarrow> WaitStatus" where
  "signaled_status sig core = of_nat sig OR (if core then 0x80 else 0)"

section \<open>The reaper and the kernel\<close>

datatype child_state = Running | Zombie WaitStatus

record child =
  ch_state :: child_state
  ch_incarnation :: nat

text \<open>A channel that statuses are sent on; \<open>owner\<close> is the incarnation of the child it was made for.\<close>

record exit_chan =
  sent :: "WaitStatus list"
  closed :: bool
  owner :: nat

record reaper_sys =
  children :: "(int, child) fmap"
  waiters :: "(int, nat) fmap"
  chans :: "(nat, exit_chan) fmap"
  forked :: "(int, nat) fmap"    \<comment> \<open>forked but not registered yet, with the incarnation\<close>
  reaping :: bool    \<comment> \<open>\<open>reapAll\<close> holds \<open>forking\<close>\<close>
  next_chan :: nat
  next_incarnation :: nat
  exits :: "(nat, WaitStatus) fmap"    \<comment> \<open>how each incarnation ended\<close>

definition new_reaper :: reaper_sys where
  "new_reaper = \<lparr>children = fmempty, waiters = fmempty, chans = fmempty, forked = fmempty, reaping = False,
     next_chan = 0, next_incarnation = 0, exits = fmempty\<rparr>"

text \<open>The two halves of \<open>spawn\<close>: the fork, and the registration of the process id it gave.\<close>

definition new_child :: "int \<Rightarrow> reaper_sys \<Rightarrow> reaper_sys" where
  "new_child pid s = s\<lparr>children := fmupd pid \<lparr>ch_state = Running, ch_incarnation = next_incarnation s\<rparr> (children s),
     next_incarnation := next_incarnation s + 1\<rparr>"

definition fork_child :: "int \<Rightarrow> reaper_sys \<Rightarrow> reaper_sys" where
  "fork_child pid s = (new_child pid s)\<lparr>forked := fmupd pid (next_incarnation s) (forked s)\<rparr>"

definition register :: "int \<Rightarrow> nat \<Rightarrow> reaper_sys \<Rightarrow> reaper_sys" where
  "register pid i s = s\<lparr>waiters := fmupd pid (next_chan s) (waiters s),
     chans := fmupd (next_chan s) \<lparr>sent = [], closed = False, owner = i\<rparr> (chans s),
     next_chan := next_chan s + 1, forked := fmdrop pid (forked s)\<rparr>"

text \<open>
  One round of the loop of \<open>reapAll\<close>: \<^verbatim>\<open>wait4\<close> has given \<open>pid\<close> and its status, which frees the number;
  the status goes to the waiter, if there is one, and the channel is closed.
\<close>

definition deliver :: "nat \<Rightarrow> WaitStatus \<Rightarrow> reaper_sys \<Rightarrow> reaper_sys" where
  "deliver ch status s =
     (case fmlookup (chans s) ch of
        None \<Rightarrow> s
      | Some c \<Rightarrow> s\<lparr>chans := fmupd ch (c\<lparr>sent := sent c @ [status], closed := True\<rparr>) (chans s)\<rparr>)"

definition collect :: "int \<Rightarrow> WaitStatus \<Rightarrow> reaper_sys \<Rightarrow> reaper_sys" where
  "collect pid status s =
     (let s1 = s\<lparr>children := fmdrop pid (children s), waiters := fmdrop pid (waiters s)\<rparr>
      in case fmlookup (waiters s) pid of
           None \<Rightarrow> s1
         | Some ch \<Rightarrow> deliver ch status s1)"

definition child_exits :: "int \<Rightarrow> WaitStatus \<Rightarrow> child \<Rightarrow> reaper_sys \<Rightarrow> reaper_sys" where
  "child_exits pid status c s =
     s\<lparr>children := fmupd pid (c\<lparr>ch_state := Zombie status\<rparr>) (children s),
       exits := fmupd (ch_incarnation c) status (exits s)\<rparr>"

definition no_zombie :: "reaper_sys \<Rightarrow> bool" where
  "no_zombie s \<longleftrightarrow> (\<forall>c \<in> fmran' (children s). ch_state c = Running)"

text \<open>
  \<open>signalGroupIfUnreaped\<close>: \<open>None\<close> when nothing is sent, \<open>Some pid\<close> when the group of \<open>pid\<close> is signalled.
\<close>

definition signalGroupIfUnreaped :: "int \<Rightarrow> reaper_sys \<Rightarrow> int option" where
  "signalGroupIfUnreaped pid s =
     (if pid \<le> 0 then None
      else if fmlookup (waiters s) pid = None then None
      else Some pid)"

datatype reaper_label = Fork int | Register int | Exit int WaitStatus | Orphan int | BeginReap | Wait4 int | EndReap

inductive reaper_step :: "reaper_sys \<Rightarrow> reaper_label \<Rightarrow> reaper_sys \<Rightarrow> bool" where
  fork: "\<not> reaping s \<Longrightarrow> 0 < pid \<Longrightarrow> fmlookup (children s) pid = None \<Longrightarrow>
    reaper_step s (Fork pid) (fork_child pid s)"
| register: "fmlookup (forked s) pid = Some i \<Longrightarrow> reaper_step s (Register pid) (register pid i s)"
| exit: "fmlookup (children s) pid = Some c \<Longrightarrow> ch_state c = Running \<Longrightarrow>
    reaper_step s (Exit pid status) (child_exits pid status c s)"
| orphan: "0 < pid \<Longrightarrow> fmlookup (children s) pid = None \<Longrightarrow> reaper_step s (Orphan pid) (new_child pid s)"
| begin_reap: "\<not> reaping s \<Longrightarrow> forked s = fmempty \<Longrightarrow> reaper_step s BeginReap (s\<lparr>reaping := True\<rparr>)"
| wait4: "reaping s \<Longrightarrow> fmlookup (children s) pid = Some c \<Longrightarrow> ch_state c = Zombie status \<Longrightarrow>
    reaper_step s (Wait4 pid) (collect pid status s)"
| end_reap: "reaping s \<Longrightarrow> reaper_step s EndReap (s\<lparr>reaping := False\<rparr>)"

inductive_cases reaper_stepE: "reaper_step s l s'"

section \<open>The invariant\<close>

text \<open>
  A waiter is always there for a child that has not been collected, and for that very child; a
  channel without a waiter has been given exactly one status, that of its child, and is closed.
\<close>

definition incarnation_of :: "reaper_sys \<Rightarrow> int \<Rightarrow> nat option" where
  "incarnation_of s pid = map_option ch_incarnation (fmlookup (children s) pid)"

fun status_of :: "child_state \<Rightarrow> WaitStatus option" where
  "status_of Running = None"
| "status_of (Zombie status) = Some status"

definition waits_ok :: "reaper_sys \<Rightarrow> bool" where
  "waits_ok s \<longleftrightarrow>
     (\<forall>pid ch. fmlookup (waiters s) pid = Some ch \<longrightarrow>
        (\<exists>c. fmlookup (chans s) ch = Some c \<and> sent c = [] \<and> \<not> closed c \<and> incarnation_of s pid = Some (owner c)))"

definition chans_ok :: "reaper_sys \<Rightarrow> bool" where
  "chans_ok s \<longleftrightarrow>
     (\<forall>ch c. fmlookup (chans s) ch = Some c \<longrightarrow> ch < next_chan s \<and>
        ((\<exists>pid. fmlookup (waiters s) pid = Some ch) \<or>
         (closed c \<and> (\<exists>status. sent c = [status] \<and> fmlookup (exits s) (owner c) = Some status)))) \<and>
     (\<forall>pid pid' ch. fmlookup (waiters s) pid = Some ch \<and> fmlookup (waiters s) pid' = Some ch \<longrightarrow> pid = pid')"

definition forks_ok :: "reaper_sys \<Rightarrow> bool" where
  "forks_ok s \<longleftrightarrow>
     (\<forall>pid i. fmlookup (forked s) pid = Some i \<longrightarrow>
        incarnation_of s pid = Some i \<and> fmlookup (waiters s) pid = None) \<and>
     (reaping s \<longrightarrow> forked s = fmempty)"

definition children_ok :: "reaper_sys \<Rightarrow> bool" where
  "children_ok s \<longleftrightarrow>
     (\<forall>pid c. fmlookup (children s) pid = Some c \<longrightarrow> 0 < pid \<and> ch_incarnation c < next_incarnation s \<and>
        fmlookup (exits s) (ch_incarnation c) = status_of (ch_state c)) \<and>
     (\<forall>i status. fmlookup (exits s) i = Some status \<longrightarrow> i < next_incarnation s) \<and>
     (\<forall>pid pid' c c'. fmlookup (children s) pid = Some c \<and> fmlookup (children s) pid' = Some c' \<and>
        ch_incarnation c = ch_incarnation c' \<longrightarrow> pid = pid')"

definition reaper_inv :: "reaper_sys \<Rightarrow> bool" where
  "reaper_inv s \<longleftrightarrow> waits_ok s \<and> chans_ok s \<and> forks_ok s \<and> children_ok s"

lemmas reaper_inv_defs = waits_ok_def chans_ok_def forks_ok_def children_ok_def incarnation_of_def

lemma new_reaper_inv: "reaper_inv new_reaper"
  by (simp add: reaper_inv_def reaper_inv_defs new_reaper_def)

section \<open>Every step keeps the invariant\<close>

lemma served_chan:
  assumes "reaper_inv s" and "fmlookup (chans s) ch = Some c" and "\<nexists>p. fmlookup (waiters s) p = Some ch"
  shows "closed c \<and> (\<exists>status. sent c = [status] \<and> fmlookup (exits s) (owner c) = Some status)"
  using assms unfolding reaper_inv_def chans_ok_def by blast

lemma chan_bound: "reaper_inv s \<Longrightarrow> fmlookup (chans s) ch = Some c \<Longrightarrow> ch < next_chan s"
  unfolding reaper_inv_def chans_ok_def by blast

lemma waiter_unique:
  "reaper_inv s \<Longrightarrow> fmlookup (waiters s) p = Some ch \<Longrightarrow> fmlookup (waiters s) p' = Some ch \<Longrightarrow> p = p'"
  unfolding reaper_inv_def chans_ok_def by blast

lemma no_child:
  assumes "reaper_inv s" and "fmlookup (children s) pid = None"
  shows "fmlookup (waiters s) pid = None" and "fmlookup (forked s) pid = None"
  using assms by (cases "fmlookup (waiters s) pid"; fastforce simp: reaper_inv_def waits_ok_def incarnation_of_def)
    (use assms in \<open>cases "fmlookup (forked s) pid"; fastforce simp: reaper_inv_def forks_ok_def incarnation_of_def\<close>)

lemma fork_inv:
  assumes inv: "reaper_inv s" and s: "\<not> reaping s" "0 < pid" "fmlookup (children s) pid = None"
  shows "reaper_inv (fork_child pid s)"
proof -
  have w: "fmlookup (waiters s) pid = None" using no_child [OF inv] s by simp
  have "waits_ok (fork_child pid s)" "chans_ok (fork_child pid s)"
    using inv w by (auto simp: reaper_inv_def reaper_inv_defs fork_child_def new_child_def split: if_splits)
  moreover have "forks_ok (fork_child pid s)"
    using inv s w by (auto simp: reaper_inv_def reaper_inv_defs fork_child_def new_child_def)
  moreover have "children_ok (fork_child pid s)"
    using inv s unfolding reaper_inv_def children_ok_def fork_child_def new_child_def
    by (auto split: if_splits) (force dest: less_SucI)+
  ultimately show ?thesis by (simp add: reaper_inv_def)
qed

lemma orphan_inv:
  assumes inv: "reaper_inv s" and s: "0 < pid" "fmlookup (children s) pid = None"
  shows "reaper_inv (new_child pid s)"
proof -
  have w: "fmlookup (waiters s) pid = None" and f: "fmlookup (forked s) pid = None"
    using no_child [OF inv] s by simp_all
  have "waits_ok (new_child pid s)" "chans_ok (new_child pid s)"
    using inv w by (auto simp: reaper_inv_def reaper_inv_defs new_child_def split: if_splits)
  moreover have "forks_ok (new_child pid s)"
    using inv s w f by (auto simp: reaper_inv_def reaper_inv_defs new_child_def)
  moreover have "children_ok (new_child pid s)"
    using inv s unfolding reaper_inv_def children_ok_def new_child_def
    by (auto split: if_splits) (force dest: less_SucI)+
  ultimately show ?thesis by (simp add: reaper_inv_def)
qed

lemma register_inv:
  assumes inv: "reaper_inv s" and f: "fmlookup (forked s) pid = Some i"
  shows "reaper_inv (register pid i s)"
proof -
  have w: "fmlookup (waiters s) pid = None" and i: "incarnation_of s pid = Some i"
    using inv f by (auto simp: reaper_inv_def forks_ok_def)
  have fresh: "fmlookup (chans s) (next_chan s) = None"
    using inv by (cases "fmlookup (chans s) (next_chan s)") (auto simp: reaper_inv_def chans_ok_def)
  have used: "ch \<noteq> next_chan s" if "fmlookup (waiters s) p = Some ch" for p ch
    using inv that fresh unfolding reaper_inv_def waits_ok_def by fastforce
  have "waits_ok (register pid i s)"
    using inv i used by (auto simp: reaper_inv_def waits_ok_def incarnation_of_def register_def)
  moreover have "chans_ok (register pid i s)"
    unfolding chans_ok_def
  proof (intro conjI allI impI)
    fix ch c
    assume c: "fmlookup (chans (register pid i s)) ch = Some c"
    show "ch < next_chan (register pid i s)"
      using c chan_bound [OF inv] by (auto simp: register_def less_SucI split: if_splits)
    show "(\<exists>p. fmlookup (waiters (register pid i s)) p = Some ch) \<or>
        (closed c \<and> (\<exists>status. sent c = [status] \<and> fmlookup (exits (register pid i s)) (owner c) = Some status))"
    proof (cases "ch = next_chan s")
      case True
      then show ?thesis by (auto simp: register_def)
    next
      case False
      with c have old: "fmlookup (chans s) ch = Some c" by (simp add: register_def)
      show ?thesis
      proof (cases "\<exists>p. fmlookup (waiters s) p = Some ch")
        case True
        then obtain p where "fmlookup (waiters s) p = Some ch" by blast
        moreover from this have "p \<noteq> pid" using w by auto
        ultimately have "fmlookup (waiters (register pid i s)) p = Some ch" by (simp add: register_def)
        then show ?thesis by blast
      next
        case False
        from served_chan [OF inv old this] show ?thesis by (simp add: register_def)
      qed
    qed
  next
    fix p p' ch
    assume "fmlookup (waiters (register pid i s)) p = Some ch \<and> fmlookup (waiters (register pid i s)) p' = Some ch"
    then show "p = p'"
      using waiter_unique [OF inv, of p ch p'] used [of p ch] used [of p' ch]
      by (simp add: register_def split: if_splits)
  qed
  moreover have "forks_ok (register pid i s)"
    using inv f by (auto simp: reaper_inv_def forks_ok_def incarnation_of_def register_def)
  moreover have "children_ok (register pid i s)"
    using inv by (simp add: reaper_inv_def children_ok_def register_def)
  ultimately show ?thesis by (simp add: reaper_inv_def)
qed

lemma exit_inv:
  assumes inv: "reaper_inv s" and c: "fmlookup (children s) pid = Some c" "ch_state c = Running"
  shows "reaper_inv (child_exits pid status c s)"
proof -
  have fresh: "fmlookup (exits s) (ch_incarnation c) = None"
    using inv c by (fastforce simp: reaper_inv_def children_ok_def)
  have same: "incarnation_of (child_exits pid status c s) p = incarnation_of s p" for p
    using c by (auto simp: incarnation_of_def child_exits_def)
  have "waits_ok (child_exits pid status c s)" "forks_ok (child_exits pid status c s)"
    using inv by (auto simp: reaper_inv_def waits_ok_def forks_ok_def same) (auto simp: child_exits_def)
  moreover have "chans_ok (child_exits pid status c s)"
    using inv fresh by (fastforce simp: reaper_inv_def chans_ok_def child_exits_def)
  moreover have "children_ok (child_exits pid status c s)"
    unfolding children_ok_def
  proof (intro conjI allI impI)
    fix p d
    assume d: "fmlookup (children (child_exits pid status c s)) p = Some d"
    show "0 < p" "ch_incarnation d < next_incarnation (child_exits pid status c s)"
      using d c inv by (auto simp: child_exits_def reaper_inv_def children_ok_def split: if_splits)
    show "fmlookup (exits (child_exits pid status c s)) (ch_incarnation d) = status_of (ch_state d)"
    proof (cases "p = pid")
      case True
      with d show ?thesis by (auto simp: child_exits_def)
    next
      case False
      with d have old: "fmlookup (children s) p = Some d" by (simp add: child_exits_def)
      then have "ch_incarnation d \<noteq> ch_incarnation c"
        using inv c False by (auto simp: reaper_inv_def children_ok_def)
      with old inv show ?thesis by (auto simp: child_exits_def reaper_inv_def children_ok_def)
    qed
  next
    fix j st
    assume "fmlookup (exits (child_exits pid status c s)) j = Some st"
    then show "j < next_incarnation (child_exits pid status c s)"
      using inv c by (auto simp: child_exits_def reaper_inv_def children_ok_def split: if_splits)
  next
    fix p p' d d'
    assume "fmlookup (children (child_exits pid status c s)) p = Some d \<and>
      fmlookup (children (child_exits pid status c s)) p' = Some d' \<and> ch_incarnation d = ch_incarnation d'"
    then show "p = p'"
      using inv c by (auto simp: child_exits_def reaper_inv_def children_ok_def split: if_splits)
  qed
  ultimately show ?thesis by (simp add: reaper_inv_def)
qed

lemma collect_inv:
  assumes inv: "reaper_inv s" and c: "fmlookup (children s) pid = Some c" "ch_state c = Zombie status"
    and reaping: "reaping s"
  shows "reaper_inv (collect pid status s)"
proof -
  have st: "fmlookup (exits s) (ch_incarnation c) = Some status"
    using inv c by (fastforce simp: reaper_inv_def children_ok_def)
  have nofork: "forked s = fmempty"
    using inv reaping by (simp add: reaper_inv_def forks_ok_def)
  show ?thesis
  proof (cases "fmlookup (waiters s) pid")
    case None
    then have col: "collect pid status s = s\<lparr>children := fmdrop pid (children s), waiters := fmdrop pid (waiters s)\<rparr>"
      by (simp add: collect_def)
    have "waiters (collect pid status s) = waiters s"
      using None by (simp add: col)
    then have col': "collect pid status s = s\<lparr>children := fmdrop pid (children s)\<rparr>"
      using col None by simp
    have "waits_ok (collect pid status s)"
      using inv None by (auto simp: col' reaper_inv_def waits_ok_def incarnation_of_def)
    moreover have "chans_ok (collect pid status s)"
      using inv by (simp add: col' reaper_inv_def chans_ok_def)
    moreover have "forks_ok (collect pid status s)"
      using nofork by (simp add: col' forks_ok_def)
    moreover have "children_ok (collect pid status s)"
      using inv by (auto simp: col' reaper_inv_def children_ok_def)
    ultimately show ?thesis by (simp add: reaper_inv_def)
  next
    case (Some ch)
    with inv obtain k where k: "fmlookup (chans s) ch = Some k" "sent k = []" "\<not> closed k"
      "incarnation_of s pid = Some (owner k)" by (auto simp: reaper_inv_def waits_ok_def)
    then have own: "owner k = ch_incarnation c" using c by (simp add: incarnation_of_def)
    have col: "collect pid status s = s\<lparr>children := fmdrop pid (children s), waiters := fmdrop pid (waiters s),
        chans := fmupd ch (k\<lparr>sent := [status], closed := True\<rparr>) (chans s)\<rparr>"
      using Some k by (simp add: collect_def deliver_def)
    have other: "ch' \<noteq> ch" if "fmlookup (waiters s) p = Some ch'" "p \<noteq> pid" for p ch'
      using inv that Some unfolding reaper_inv_def chans_ok_def by blast
    have "waits_ok (collect pid status s)"
      unfolding waits_ok_def
    proof (intro allI impI)
      fix p ch'
      assume "fmlookup (waiters (collect pid status s)) p = Some ch'"
      then have w: "fmlookup (waiters s) p = Some ch'" "p \<noteq> pid"
        by (auto simp: col split: if_splits)
      then obtain c' where "fmlookup (chans s) ch' = Some c'" "sent c' = []" "\<not> closed c'"
        "incarnation_of s p = Some (owner c')"
        using inv unfolding reaper_inv_def waits_ok_def by blast
      then show "\<exists>c'. fmlookup (chans (collect pid status s)) ch' = Some c' \<and> sent c' = [] \<and> \<not> closed c' \<and>
          incarnation_of (collect pid status s) p = Some (owner c')"
        using other [OF w] w(2) by (simp add: col incarnation_of_def)
    qed
    moreover have "chans_ok (collect pid status s)"
      unfolding chans_ok_def
    proof (intro conjI allI impI)
      fix ch' c'
      assume c': "fmlookup (chans (collect pid status s)) ch' = Some c'"
      show "ch' < next_chan (collect pid status s)"
        using c' chan_bound [OF inv, of ch'] k(1) by (cases "ch' = ch") (simp_all add: col)
      show "(\<exists>p. fmlookup (waiters (collect pid status s)) p = Some ch') \<or>
        (closed c' \<and> (\<exists>st. sent c' = [st] \<and> fmlookup (exits (collect pid status s)) (owner c') = Some st))"
      proof (cases "ch' = ch")
        case True
        with c' have "c' = k\<lparr>sent := [status], closed := True\<rparr>" by (simp add: col)
        then show ?thesis using st own by (simp add: col)
      next
        case False
        with c' have old: "fmlookup (chans s) ch' = Some c'" by (simp add: col)
        show ?thesis
        proof (cases "\<exists>p. fmlookup (waiters s) p = Some ch'")
          case True
          then obtain p where p: "fmlookup (waiters s) p = Some ch'" by blast
          with False Some have "p \<noteq> pid" by auto
          with p have "fmlookup (waiters (collect pid status s)) p = Some ch'" by (simp add: col)
          then show ?thesis by blast
        next
          case False
          from served_chan [OF inv old this] show ?thesis by (simp add: col)
        qed
      qed
    next
      fix p p' ch'
      assume "fmlookup (waiters (collect pid status s)) p = Some ch' \<and> fmlookup (waiters (collect pid status s)) p' = Some ch'"
      then show "p = p'"
        using waiter_unique [OF inv, of p ch' p'] by (simp add: col split: if_splits)
    qed
    moreover have "forks_ok (collect pid status s)"
      using nofork by (simp add: forks_ok_def col)
    moreover have "children_ok (collect pid status s)"
      using inv by (auto simp: reaper_inv_def children_ok_def col split: if_splits)
    ultimately show ?thesis by (simp add: reaper_inv_def)
  qed
qed

lemma reaper_step_inv:
  assumes "reaper_inv s" and "reaper_step s l s'"
  shows "reaper_inv s'"
  using assms(2)
proof (cases rule: reaper_step.cases)
  case (begin_reap)
  then show ?thesis using assms(1) by (auto simp: reaper_inv_def reaper_inv_defs)
next
  case (end_reap)
  then show ?thesis using assms(1) by (auto simp: reaper_inv_def reaper_inv_defs)
qed (use assms(1) in \<open>auto intro: fork_inv register_inv exit_inv orphan_inv collect_inv\<close>)

interpretation reaper_machine: inductive_invariant "\<lambda>s. s = new_reaper" reaper_step reaper_inv
  by unfold_locales (auto simp: new_reaper_inv reaper_step_inv)

text \<open>Statuses that have been delivered stay as they are, and only reaping adds to them.\<close>

definition delivered :: "reaper_sys \<Rightarrow> (nat \<times> WaitStatus) set" where
  "delivered s = {(ch, status). \<exists>c. fmlookup (chans s) ch = Some c \<and> closed c \<and> sent c = [status]}"

lemma waiter_chan:
  "reaper_inv s \<Longrightarrow> fmlookup (waiters s) pid = Some ch \<Longrightarrow>
     \<exists>c. fmlookup (chans s) ch = Some c \<and> sent c = [] \<and> \<not> closed c"
  unfolding reaper_inv_def waits_ok_def by blast

lemma delivered_step:
  assumes inv: "reaper_inv s" and step: "reaper_step s l s'"
  shows "delivered s \<subseteq> delivered s'"
  using step
proof (cases rule: reaper_step.cases)
  case (register pid i)
  have "fmlookup (chans s) (next_chan s) = None"
    using chan_bound [OF inv, of "next_chan s"] by (cases "fmlookup (chans s) (next_chan s)") auto
  with register show ?thesis by (auto simp: delivered_def register_def)
next
  case (wait4 pid c status)
  then show ?thesis
    using waiter_chan [OF inv, of pid]
    by (auto simp: delivered_def collect_def deliver_def Let_def split: option.splits)
qed (auto simp: delivered_def fork_child_def new_child_def child_exits_def)

interpretation reaper_history: monotone_measure "\<lambda>s. s = new_reaper" reaper_step reaper_inv delivered
  by unfold_locales (auto dest: delivered_step)

section \<open>Properties\<close>

abbreviation reaper_reachable :: "reaper_sys \<Rightarrow> bool" where
  "reaper_reachable \<equiv> reachable (\<lambda>s. s = new_reaper) reaper_step"

lemma chan_served_or_waiting:
  assumes "reaper_reachable s" and "fmlookup (chans s) ch = Some c"
  shows "(sent c = [] \<and> \<not> closed c \<and>
      (\<exists>pid. fmlookup (waiters s) pid = Some ch \<and> incarnation_of s pid = Some (owner c))) \<or>
    (closed c \<and> (\<exists>status. sent c = [status] \<and> fmlookup (exits s) (owner c) = Some status))"
proof -
  have inv: "reaper_inv s" using reaper_machine.inv_reachable [OF assms(1)] .
  show ?thesis
  proof (cases "\<exists>pid. fmlookup (waiters s) pid = Some ch")
    case True
    with inv assms(2) show ?thesis unfolding reaper_inv_def waits_ok_def by fastforce
  next
    case False
    with served_chan [OF inv assms(2)] show ?thesis by simp
  qed
qed

text \<open>Each step, as a rule about reachable states.\<close>

lemma reaper_reach:
  "reaper_reachable s \<Longrightarrow> \<not> reaping s \<Longrightarrow> 0 < pid \<Longrightarrow> fmlookup (children s) pid = None \<Longrightarrow> reaper_reachable (fork_child pid s)"
  "reaper_reachable s \<Longrightarrow> fmlookup (forked s) pid = Some i \<Longrightarrow> reaper_reachable (register pid i s)"
  "reaper_reachable s \<Longrightarrow> fmlookup (children s) pid = Some c \<Longrightarrow> ch_state c = Running \<Longrightarrow>
     reaper_reachable (child_exits pid status c s)"
  "reaper_reachable s \<Longrightarrow> 0 < pid \<Longrightarrow> fmlookup (children s) pid = None \<Longrightarrow> reaper_reachable (new_child pid s)"
  "reaper_reachable s \<Longrightarrow> \<not> reaping s \<Longrightarrow> forked s = fmempty \<Longrightarrow> reaper_reachable (s\<lparr>reaping := True\<rparr>)"
  "reaper_reachable s \<Longrightarrow> reaping s \<Longrightarrow> fmlookup (children s) pid = Some c \<Longrightarrow> ch_state c = Zombie status \<Longrightarrow>
     reaper_reachable (collect pid status s)"
  "reaper_reachable s \<Longrightarrow> reaping s \<Longrightarrow> reaper_reachable (s\<lparr>reaping := False\<rparr>)"
  by (blast intro: reachable_step reaper_step.intros)+

text \<open>
  C16. However starts, exits, orphans, the reuse of process ids and reaping interleave, a channel is
  given at most one status, never after it was closed, and that status is the one with which the
  very child it was made for ended; until then the child's number is registered.
\<close>

theorem reaper_delivers_own_status:
  assumes "reaper_reachable s" and "fmlookup (chans s) ch = Some c"
  shows "(sent c = [] \<and> \<not> closed c \<and>
      (\<exists>pid. fmlookup (waiters s) pid = Some ch \<and> incarnation_of s pid = Some (owner c))) \<or>
    (closed c \<and> (\<exists>status. sent c = [status] \<and> fmlookup (exits s) (owner c) = Some status))"
  using chan_served_or_waiting [OF assms] .

text \<open>A run for the witnesses: a start, its exit while an orphan appears and exits as well, and one reap.\<close>

definition sample_started :: reaper_sys where
  "sample_started = register 7 0 (fork_child 7 new_reaper)"

definition sample_exited :: reaper_sys where
  "sample_exited = child_exits 7 (exited_status 3) \<lparr>ch_state = Running, ch_incarnation = 0\<rparr> sample_started"

definition sample_orphan :: reaper_sys where
  "sample_orphan = child_exits 9 0 \<lparr>ch_state = Running, ch_incarnation = 1\<rparr> (new_child 9 sample_exited)"

definition sample_reaped :: reaper_sys where
  "sample_reaped = collect 7 (exited_status 3) (sample_orphan\<lparr>reaping := True\<rparr>)"

lemmas sample_run = sample_started_def sample_exited_def sample_orphan_def sample_reaped_def
  new_reaper_def fork_child_def new_child_def register_def child_exits_def fmdrop_fmupd_same

lemma sample_started_reachable: "reaper_reachable sample_started"
proof -
  have "reaper_reachable new_reaper" by (simp add: reachable_initial)
  then have "reaper_reachable (fork_child 7 new_reaper)"
    by (rule reaper_reach(1)) (simp_all add: new_reaper_def)
  then show ?thesis unfolding sample_started_def
    by (rule reaper_reach(2)) (simp add: fork_child_def new_child_def new_reaper_def)
qed

lemma sample_exited_reachable: "reaper_reachable sample_exited"
  unfolding sample_exited_def by (rule reaper_reach(3) [OF sample_started_reachable]) (simp_all add: sample_run)

lemma sample_orphan_reachable: "reaper_reachable sample_orphan"
proof -
  have "reaper_reachable (new_child 9 sample_exited)"
    by (rule reaper_reach(4) [OF sample_exited_reachable]) (simp_all add: sample_run)
  then show ?thesis unfolding sample_orphan_def
    by (rule reaper_reach(3)) (simp_all add: sample_run)
qed

lemma sample_reaped_reachable: "reaper_reachable sample_reaped"
proof -
  have "reaper_reachable (sample_orphan\<lparr>reaping := True\<rparr>)"
    by (rule reaper_reach(5) [OF sample_orphan_reachable]) (simp_all add: sample_run)
  then show ?thesis unfolding sample_reaped_def
    by (rule reaper_reach(6) [where c = "\<lparr>ch_state = Zombie (exited_status 3), ch_incarnation = 0\<rparr>"])
      (simp_all add: sample_run)
qed

theorem reaper_delivers_own_status_witness:
  "\<exists>c. fmlookup (chans sample_reaped) 0 = Some c \<and> sent c = [exited_status 3]"
proof -
  have "\<exists>c. fmlookup (chans sample_reaped) 0 = Some c \<and> closed c \<and> owner c = 0"
      "fmlookup (exits sample_reaped) 0 = Some (exited_status 3)"
    by (simp_all add: sample_run collect_def deliver_def)
  then show ?thesis using reaper_delivers_own_status [OF sample_reaped_reachable] by fastforce
qed

text \<open>
  Reaping never sends on a closed channel, closes one twice or blocks on a full one, whatever has
  happened before: whenever a waiter is found for a collected child its channel is open and empty; and
  a status that was delivered is never changed or taken back by anything that happens later.
\<close>

theorem reaper_never_panics:
  assumes "reaper_reachable s" and "fmlookup (waiters s) pid = Some ch" and "runs reaper_step s ls s'"
  shows "(\<exists>c. fmlookup (chans s) ch = Some c \<and> \<not> closed c \<and> sent c = []) \<and>
    (ch, status) \<in> delivered (collect pid status s) \<and> delivered s \<subseteq> delivered s'"
proof -
  have inv: "reaper_inv s" using reaper_machine.inv_reachable [OF assms(1)] .
  obtain c where c: "fmlookup (chans s) ch = Some c" "sent c = []" "\<not> closed c"
    using waiter_chan [OF inv assms(2)] by blast
  then have "(ch, status) \<in> delivered (collect pid status s)"
    using assms(2) by (simp add: delivered_def collect_def deliver_def)
  moreover have "delivered s \<subseteq> delivered s'" by (rule reaper_history.amount_runs [OF assms(3) inv])
  ultimately show ?thesis using c by blast
qed

theorem reaper_never_panics_witness:
  "(0, exited_status 3) \<in> delivered (collect 7 (exited_status 3) sample_started)"
proof -
  have "fmlookup (waiters sample_started) 7 = Some 0" by (simp add: sample_run)
  from reaper_never_panics [OF sample_started_reachable this runs_none] show ?thesis by blast
qed

text \<open>The status \<^verbatim>\<open>wait4\<close> would give for a child.\<close>

definition wait_status :: "reaper_sys \<Rightarrow> int \<Rightarrow> WaitStatus option" where
  "wait_status s pid = (case fmlookup (children s) pid of None \<Rightarrow> None | Some c \<Rightarrow> status_of (ch_state c))"

text \<open>
  One call of \<open>reapAll\<close>, when the kernel offers the children that have exited in the order \<open>ord\<close>.
\<close>

fun reap_loop :: "int list \<Rightarrow> reaper_sys \<Rightarrow> reaper_sys" where
  "reap_loop [] s = s"
| "reap_loop (pid # ord) s =
     (case wait_status s pid of
        None \<Rightarrow> reap_loop ord s
      | Some status \<Rightarrow> reap_loop ord (collect pid status s))"

definition reapAll :: "int list \<Rightarrow> reaper_sys \<Rightarrow> reaper_sys" where
  "reapAll ord s = (reap_loop ord (s\<lparr>reaping := True\<rparr>))\<lparr>reaping := False\<rparr>"

definition zombies :: "reaper_sys \<Rightarrow> int set" where
  "zombies s = {pid. \<exists>c status. fmlookup (children s) pid = Some c \<and> ch_state c = Zombie status}"

lemma no_zombie_iff: "no_zombie s \<longleftrightarrow> zombies s = {}"
proof -
  have "no_zombie s \<longleftrightarrow> (\<forall>pid c. fmlookup (children s) pid = Some c \<longrightarrow> ch_state c = Running)"
    by (auto simp: no_zombie_def fmlookup_ran'_iff)
  moreover have "st = Running \<longleftrightarrow> (\<nexists>status. st = Zombie status)" for st
    by (cases st) simp_all
  ultimately show ?thesis by (auto simp: zombies_def)
qed

lemma status_of_Some: "status_of st = Some status \<Longrightarrow> st = Zombie status"
  by (cases st) simp_all

lemma collect_frame [simp]:
  "children (collect pid status s) = fmdrop pid (children s)" "reaping (collect pid status s) = reaping s"
  by (simp_all add: collect_def deliver_def Let_def split: option.splits)

lemma zombies_collect [simp]: "zombies (collect pid status s) = zombies s - {pid}"
  by (auto simp: zombies_def)

lemma reap_loop_runs:
  "reaping s \<Longrightarrow> \<exists>ls. runs reaper_step s ls (reap_loop ord s) \<and> reaping (reap_loop ord s) \<and>
     zombies (reap_loop ord s) = zombies s - set ord"
proof (induction ord arbitrary: s)
  case Nil
  then show ?case by (auto intro: runs_none)
next
  case (Cons pid ord)
  show ?case
  proof (cases "\<exists>c status. fmlookup (children s) pid = Some c \<and> ch_state c = Zombie status")
    case True
    then obtain c status where c: "fmlookup (children s) pid = Some c" "ch_state c = Zombie status" by blast
    then have loop: "reap_loop (pid # ord) s = reap_loop ord (collect pid status s)"
      by (simp add: wait_status_def)
    have "runs reaper_step s [Wait4 pid] (collect pid status s)"
      using wait4 [OF Cons.prems c] by (rule runs_one)
    with Cons.IH [of "collect pid status s"] Cons.prems show ?thesis
      unfolding loop by (auto intro: runs_trans)
  next
    case False
    then have "reap_loop (pid # ord) s = reap_loop ord s"
      by (auto simp: wait_status_def split: option.splits dest!: status_of_Some)
    moreover have "pid \<notin> zombies s" using False by (auto simp: zombies_def)
    ultimately show ?thesis using Cons by auto
  qed
qed

text \<open>
  A call of \<open>reapAll\<close> collects every child that has exited: afterwards none is left to be
  waited for, the children still running are as they were, and every status owed has been
  delivered, so that a child without a delivered status is still running.
\<close>

theorem reapAll_drains:
  assumes "reaper_reachable s" and "\<not> reaping s" and "forked s = fmempty" and "zombies s \<subseteq> set ord"
  shows "reaper_reachable (reapAll ord s) \<and> zombies (reapAll ord s) = {} \<and>
    (\<forall>ch c. fmlookup (chans (reapAll ord s)) ch = Some c \<longrightarrow>
       (\<exists>pid k. fmlookup (children (reapAll ord s)) pid = Some k \<and> ch_state k = Running \<and> ch_incarnation k = owner c) \<or>
       (\<exists>status. sent c = [status] \<and> fmlookup (exits (reapAll ord s)) (owner c) = Some status))"
proof -
  let ?s1 = "s\<lparr>reaping := True\<rparr>" and ?s2 = "reap_loop ord (s\<lparr>reaping := True\<rparr>)"
  obtain ls where run: "runs reaper_step ?s1 ls ?s2" and r: "reaping ?s2" "zombies ?s2 = zombies ?s1 - set ord"
    using reap_loop_runs [of ?s1 ord] by auto
  have "zombies ?s1 = zombies s" by (simp add: zombies_def)
  then have empty: "zombies ?s2 = {}" using r(2) assms(4) by auto
  have "reaper_reachable ?s1" using reachable_step [OF assms(1) begin_reap [OF assms(2,3)]] .
  then have "reaper_reachable ?s2" using runs_reachable [OF run] by blast
  then have reach: "reaper_reachable (reapAll ord s)"
    unfolding reapAll_def using reaper_reach(7) [OF _ r(1)] by blast
  have clean: "zombies (reapAll ord s) = {}" using empty by (simp add: reapAll_def zombies_def)
  have "(\<exists>pid k. fmlookup (children (reapAll ord s)) pid = Some k \<and> ch_state k = Running \<and> ch_incarnation k = owner c) \<or>
       (\<exists>status. sent c = [status] \<and> fmlookup (exits (reapAll ord s)) (owner c) = Some status)"
    if c: "fmlookup (chans (reapAll ord s)) ch = Some c" for ch c
  proof -
    consider "\<exists>pid. incarnation_of (reapAll ord s) pid = Some (owner c)"
      | "\<exists>status. sent c = [status] \<and> fmlookup (exits (reapAll ord s)) (owner c) = Some status"
      using chan_served_or_waiting [OF reach c] by blast
    then show ?thesis
    proof cases
      case 1
      then obtain pid k where "fmlookup (children (reapAll ord s)) pid = Some k" "ch_incarnation k = owner c"
        by (auto simp: incarnation_of_def)
      moreover from this have "ch_state k = Running"
        using clean by (cases "ch_state k") (auto simp: zombies_def)
      ultimately show ?thesis by blast
    qed auto
  qed
  with reach clean show ?thesis by blast
qed

theorem reapAll_drains_witness: "zombies (reapAll [9, 7] sample_orphan) = {}"
proof -
  have "zombies sample_orphan \<subseteq> set [9, 7]"
    by (auto simp: zombies_def sample_run split: if_splits)
  moreover have "\<not> reaping sample_orphan" "forked sample_orphan = fmempty"
    by (simp_all add: sample_run)
  ultimately show ?thesis using reapAll_drains [OF sample_orphan_reachable] by blast
qed

text \<open>
  \<open>signalGroupIfUnreaped\<close>, where a round of the loop is one step, never signals a number that may belong to
  somebody else: when it sends, the child of that number has not been collected and is one that was started
  through \<open>spawn\<close>. Theory \<open>ReapLoop\<close> looks inside the round, where there is an exception.
\<close>

theorem signal_only_own_child:
  assumes "reaper_reachable s" and "signalGroupIfUnreaped pid s = Some target"
  shows "target = pid \<and> 0 < pid \<and> (\<exists>k ch c. fmlookup (children s) pid = Some k \<and>
    fmlookup (waiters s) pid = Some ch \<and> fmlookup (chans s) ch = Some c \<and> owner c = ch_incarnation k \<and> sent c = [])"
proof -
  have "reaper_inv s" using reaper_machine.inv_reachable [OF assms(1)] .
  with assms(2) show ?thesis
    by (fastforce simp: signalGroupIfUnreaped_def reaper_inv_def waits_ok_def incarnation_of_def split: if_splits)
qed

theorem signal_only_own_child_witness: "\<exists>k. fmlookup (children sample_started) 7 = Some k"
proof -
  have "signalGroupIfUnreaped 7 sample_started = Some 7"
    by (simp add: signalGroupIfUnreaped_def sample_run)
  from signal_only_own_child [OF sample_started_reachable this] show ?thesis by blast
qed

section \<open>Reading a wait status\<close>

lemma low_mask: "w AND 0x7F = take_bit 7 (w :: 32 word)" "w AND 0xFF = take_bit 8 (w :: 32 word)"
proof -
  have "(0x7F :: 32 word) = mask 7" "(0xFF :: 32 word) = mask 8" by (simp_all add: mask_eq_exp_minus_1)
  then show "w AND 0x7F = take_bit 7 w" "w AND 0xFF = take_bit 8 w" by (simp_all only: take_bit_eq_mask)
qed

lemma exited_low: "exited_status code AND 0x7F = 0"
  by (simp add: low_mask exited_status_def take_bit_push_bit)

lemma exited_code: "uint (drop_bit 8 (exited_status code) AND 0xFF) = uint code"
proof -
  have "take_bit 8 (drop_bit 8 (exited_status code)) = (ucast code :: 32 word)"
    by (rule bit_word_eqI) (auto simp: exited_status_def bit_simps dest: bit_imp_le_length)
  then show ?thesis by (simp only: low_mask) (simp add: uint_up_ucast is_up)
qed

lemma signaled_low:
  assumes "sig < 128"
  shows "signaled_status sig core AND 0x7F = of_nat sig"
proof -
  have a: "take_bit 7 (of_nat sig :: 32 word) = of_nat sig"
    using assms by (simp add: take_bit_of_nat take_bit_nat_eq_self)
  have b: "take_bit 7 (if core then 0x80 else 0 :: 32 word) = 0" by simp
  show ?thesis by (simp only: low_mask signaled_status_def take_bit_or a b) simp
qed

text \<open>
  The exit code reported is the code the child exited with, and -1 for a child killed by a
  signal, with or without a core dump; and no error is recorded exactly for exit code 0.
\<close>

theorem exitCode_of_kernel_status:
  assumes "0 < sig" and "sig < 127"
  shows "exitCodeOfStatus (exited_status code) = uint code \<and>
    exitCodeOfStatus (signaled_status sig core) = - 1 \<and>
    exitErrorOf (signaled_status sig core) = Some (KilledBySignal (int sig)) \<and>
    (\<forall>status. exitErrorOf status = None \<longleftrightarrow> exitCodeOfStatus status = 0)"
proof -
  have low: "signaled_status sig core AND 0x7F = of_nat sig"
    using signaled_low assms(2) by simp
  have uint_sig: "uint (of_nat sig :: 32 word) = int sig"
    using assms(2) by (simp add: uint_nat unat_of_nat)
  then have "(of_nat sig :: 32 word) \<noteq> 0" "(of_nat sig :: 32 word) \<noteq> 0x7F"
    using assms by auto
  with low have "Signaled (signaled_status sig core)" by (simp add: Signaled_def)
  moreover have "exitErrorOf status = None \<longleftrightarrow> exitCodeOfStatus status = 0" for status
    by (simp add: exitErrorOf_def exitCodeOfStatus_def exitCodeSignalled_def)
  moreover have "exitCodeOfStatus (exited_status code) = uint code"
    by (simp only: exitCodeOfStatus_def Signaled_def ExitStatus_def Exited_def exited_low exited_code) simp
  ultimately show ?thesis
    using low uint_sig by (simp add: exitCodeOfStatus_def exitErrorOf_def exitCodeSignalled_def StatusSignal_def)
qed

theorem exitCode_of_kernel_status_witness:
  "exitErrorOf (signaled_status 9 True) = Some (KilledBySignal 9) \<and> exitCodeOfStatus (exited_status 3) = 3"
  using exitCode_of_kernel_status [of 9 3 True] by simp

end
