(* ===== verification/Process.thy ===== *)
theory Process
  imports Config Reaper
begin

text \<open>
  One managed program: the type \<open>Process\<close> of \<^verbatim>\<open>internal/process/process.go\<close> and the states of
  \<^verbatim>\<open>internal/process/state.go\<close>.

  Every critical section of the source (a stretch of code under \<open>p.mu\<close>, or a channel operation) is a
  function on the record \<open>proc\<close>. The goroutines that run them are threads with a program counter
  (\<open>pc\<close>, which holds the local variables): calls of \<open>Start\<close> and \<open>Stop\<close>, the monitor of each run, which
  may call \<open>Start\<close> itself for a restart, and the check that a start has succeeded. \<open>exec\<close> is the
  interleaving semantics: a label says which thread moves and how a \<open>select\<close> or a system call turned
  out, so that a sequence of labels can be evaluated.

  That a child exits is one event here: theory \<open>Reaped\<close> adds the reaper and the kernel, and takes it apart.
  Health checks and log capture, which keep their own state, are not part of this machine.
\<close>

section \<open>States and policies\<close>

datatype State = StateStopped | StateStarting | StateRunning | StateBackoff | StateStopping | StateExited | StateFatal | StateUnknown

definition IsRunning :: "State \<Rightarrow> bool" where
  "IsRunning s \<longleftrightarrow> s = StateRunning"

definition IsStopped :: "State \<Rightarrow> bool" where
  "IsStopped s \<longleftrightarrow> s = StateStopped \<or> s = StateExited \<or> s = StateFatal"

definition maxBackoffSeconds :: int where "maxBackoffSeconds = 30"
definition maxBackoffShift :: int where "maxBackoffShift = 5"
definition second :: int where "second = 10 ^ 9"
definition healthyUptime :: int where "healthyUptime = 60 * second"

text \<open>The delay before restart attempt \<open>n\<close>, in nanoseconds.\<close>

definition backoffDuration :: "int \<Rightarrow> int" where
  "backoffDuration attempt =
     (let shift = (if attempt - 1 < 0 then 0 else attempt - 1);
          shift' = (if shift > maxBackoffShift then maxBackoffShift else shift)
      in min (2 ^ nat shift' * second) (maxBackoffSeconds * second))"

definition wants_restart :: "RestartPolicy \<Rightarrow> int \<Rightarrow> bool" where
  "wants_restart policy exitCode =
     (case policy of RestartAlways \<Rightarrow> True | RestartUnexpected \<Rightarrow> exitCode \<noteq> 0 | RestartNever \<Rightarrow> False)"

section \<open>The mutable fields and the critical sections\<close>

text \<open>
  Contexts and runs are numbered. \<open>p_run\<close> stands for \<open>cmd\<close>, \<open>pid\<close> and \<open>monitorDone\<close>, which are always
  set together; \<open>p_stopRequested\<close> is the run whose channel the field still holds.
\<close>

record proc =
  p_state :: State
  p_cancel :: "nat option"
  p_run :: "nat option"
  p_stopRequested :: "nat option"
  p_lastError :: "exit_error option"
  p_startTime :: int
  p_stopTime :: int
  p_exitCode :: int
  p_restartCount :: int
  p_completed :: bool
  p_stoppedExternally :: bool

definition NewProcess :: proc where
  "NewProcess = \<lparr>p_state = StateStopped, p_cancel = None, p_run = None, p_stopRequested = None, p_lastError = None,
     p_startTime = 0, p_stopTime = 0, p_exitCode = 0, p_restartCount = 0, p_completed = False,
     p_stoppedExternally = False\<rparr>"

definition setState :: "State \<Rightarrow> proc \<Rightarrow> proc" where
  "setState newState p = p\<lparr>p_state := newState\<rparr>"

definition compareAndSetState :: "State \<Rightarrow> State \<Rightarrow> proc \<Rightarrow> bool \<times> proc" where
  "compareAndSetState frm dest p = (if p_state p \<noteq> frm then (False, p) else (True, p\<lparr>p_state := dest\<rparr>))"

text \<open>
  The first critical section of \<open>Start\<close>: refused (\<open>None\<close>) when the program is running or starting,
  otherwise a fresh context replaces the old one, which is returned to be canceled.
\<close>

definition start_enter :: "nat \<Rightarrow> proc \<Rightarrow> (nat option \<times> proc) option" where
  "start_enter ctx p =
     (if p_state p = StateRunning \<or> p_state p = StateStarting then None
      else Some (p_cancel p, p\<lparr>p_completed := False, p_cancel := Some ctx\<rparr>))"

definition recordRun :: "nat \<Rightarrow> int \<Rightarrow> proc \<Rightarrow> proc" where
  "recordRun run instant p = p\<lparr>p_run := Some run, p_startTime := instant, p_lastError := None,
     p_stopRequested := Some run, p_stoppedExternally := False\<rparr>"

text \<open>The first critical section of \<open>Stop\<close> takes the channel \<open>stopRequested\<close> out of the field.\<close>

definition stop_enter :: "proc \<Rightarrow> (State \<times> nat option \<times> nat option \<times> nat option) \<times> proc" where
  "stop_enter p = ((p_state p, p_cancel p, p_run p, p_stopRequested p),
     p\<lparr>p_stoppedExternally := True, p_stopRequested := None\<rparr>)"

text \<open>What the monitor records of an exit: it reads \<open>stoppedExternally\<close> and the code on the way.\<close>

definition record_exit :: "WaitStatus \<Rightarrow> int \<Rightarrow> proc \<Rightarrow> (bool \<times> int) \<times> proc" where
  "record_exit status instant p =
     ((p_stoppedExternally p, exitCodeOfStatus status),
      p\<lparr>p_exitCode := exitCodeOfStatus status, p_stopTime := instant, p_lastError := exitErrorOf status,
        p_restartCount := (if instant - p_startTime p \<ge> healthyUptime then 0 else p_restartCount p)\<rparr>)"

text \<open>The switch of the monitor: the state an exit leads to, or \<open>None\<close> for the default branch.\<close>

definition exit_target :: "State \<Rightarrow> bool \<Rightarrow> State option" where
  "exit_target currentState stoppedExternally =
     (if currentState = StateStopping \<and> stoppedExternally then Some StateStopped
      else if currentState = StateStopping then Some StateExited
      else if stoppedExternally then Some StateStopped
      else None)"

definition latch_completed :: "proc \<Rightarrow> proc" where
  "latch_completed p = p\<lparr>p_completed := True\<rparr>"

text \<open>The attempt number, or \<open>None\<close> when the restarts are used up.\<close>

definition count_restart :: "int \<Rightarrow> proc \<Rightarrow> int option \<times> proc" where
  "count_restart maxRestarts p =
     (if p_restartCount p \<ge> maxRestarts then (None, p)
      else (Some (p_restartCount p + 1), p\<lparr>p_restartCount := p_restartCount p + 1\<rparr>))"

definition restart_canceled :: "proc \<Rightarrow> bool" where
  "restart_canceled p \<longleftrightarrow> p_stoppedExternally p \<or> p_state p = StateStopping"

section \<open>Threads\<close>

text \<open>Who called \<open>Start\<close>: a client, or the monitor of a run.\<close>

datatype caller = Client | RestartOf nat

datatype pc =
    StartEnter caller
  | StartSet caller nat    \<comment> \<open>the context of the run\<close>
  | StartSpawn caller nat
  | StartFail caller nat
  | StartFatal caller
  | StartRecord caller nat nat    \<comment> \<open>the context and the run\<close>
  | RestartFatal nat
  | StopClose State "nat option" "nat option" "nat option"
  | StopIdle "nat option"
  | StopIdleSet
  | StopSet "nat option" "nat option"
  | StopTerm "nat option" "nat option"
  | StopWait "nat option" "nat option"
  | StopKill "nat option" "nat option"
  | StopGrace "nat option" "nat option"
  | StopCancel "nat option"
  | MonWait nat nat    \<comment> \<open>the run and its context\<close>
  | MonLinger nat nat
  | MonRecord nat nat
  | MonSwitch nat nat bool int
  | MonSet nat State
  | MonLatch nat nat int
  | MonExited nat nat int
  | MonCount nat nat
  | MonBackoff nat nat int
  | MonCheck nat
  | MonRestart nat
  | WaitStart nat nat
  | WaitSet

text \<open>
  A run: whether its child is alive, and which of its channels (\<open>runExited\<close>, \<open>monitorDone\<close>,
  \<open>stopRequested\<close>) are closed.
\<close>

record run =
  run_alive :: bool
  run_status :: WaitStatus
  run_exited :: bool
  run_done :: bool
  run_stop :: bool

record psys =
  the_proc :: proc
  policy :: RestartPolicy
  maxRestarts :: int
  the_runs :: "(nat, run) fmap"
  canceled :: "nat set"
  pcs :: "(nat, pc) fmap"
  next_id :: nat
  clock :: int
  signals :: "(nat \<times> bool) list"    \<comment> \<open>the groups signalled, and whether with SIGKILL\<close>

definition new_psys :: "RestartPolicy \<Rightarrow> int \<Rightarrow> psys" where
  "new_psys pol m = \<lparr>the_proc = NewProcess, policy = pol, maxRestarts = m, the_runs = fmempty, canceled = {},
     pcs = fmempty, next_id = 0, clock = 0, signals = []\<rparr>"

definition goto :: "nat \<Rightarrow> pc \<Rightarrow> psys \<Rightarrow> psys" where
  "goto t c s = s\<lparr>pcs := fmupd t c (pcs s)\<rparr>"

definition finish :: "nat \<Rightarrow> psys \<Rightarrow> psys" where
  "finish t s = s\<lparr>pcs := fmdrop t (pcs s)\<rparr>"

definition cancel_ctx :: "nat option \<Rightarrow> psys \<Rightarrow> psys" where
  "cancel_ctx c s = (case c of None \<Rightarrow> s | Some x \<Rightarrow> s\<lparr>canceled := insert x (canceled s)\<rparr>)"

definition upd_run :: "nat \<Rightarrow> (run \<Rightarrow> run) \<Rightarrow> psys \<Rightarrow> psys" where
  "upd_run r f s = (case fmlookup (the_runs s) r of None \<Rightarrow> s
     | Some x \<Rightarrow> s\<lparr>the_runs := fmupd r (f x) (the_runs s)\<rparr>)"

definition run_flag :: "(run \<Rightarrow> bool) \<Rightarrow> nat \<Rightarrow> psys \<Rightarrow> bool" where
  "run_flag f r s = (case fmlookup (the_runs s) r of None \<Rightarrow> False | Some x \<Rightarrow> f x)"

definition set_state :: "State \<Rightarrow> psys \<Rightarrow> psys" where
  "set_state st s = s\<lparr>the_proc := setState st (the_proc s)\<rparr>"

text \<open>The monitor returns: its deferred close of \<open>monitorDone\<close> runs.\<close>

definition monitor_done :: "nat \<Rightarrow> nat \<Rightarrow> psys \<Rightarrow> psys" where
  "monitor_done t r s = finish t (upd_run r (\<lambda>x. x\<lparr>run_done := True\<rparr>) s)"

definition start_ok :: "caller \<Rightarrow> nat \<Rightarrow> psys \<Rightarrow> psys" where
  "start_ok k t s = (case k of Client \<Rightarrow> finish t s | RestartOf r \<Rightarrow> monitor_done t r s)"

definition start_failed :: "caller \<Rightarrow> nat \<Rightarrow> psys \<Rightarrow> psys" where
  "start_failed k t s = (case k of Client \<Rightarrow> finish t s | RestartOf r \<Rightarrow> goto t (RestartFatal r) s)"

text \<open>How a \<open>select\<close> or a system call turned out.\<close>

datatype choice = Proceed | Refuse | Timer | CtxDone | Closed

definition begin_start :: "caller \<Rightarrow> nat \<Rightarrow> psys \<Rightarrow> psys" where
  "begin_start k t s =
     (case start_enter (next_id s) (the_proc s) of
        None \<Rightarrow> start_failed k t s
      | Some (old, p) \<Rightarrow>
          goto t (StartSet k (next_id s)) (cancel_ctx old (s\<lparr>the_proc := p, next_id := next_id s + 1\<rparr>)))"

definition begin_stop :: "nat \<Rightarrow> psys \<Rightarrow> psys" where
  "begin_stop t s =
     (case stop_enter (the_proc s) of
        ((st, c, r, sr), p) \<Rightarrow> goto t (StopClose st c r sr) (s\<lparr>the_proc := p\<rparr>))"

definition spawn_run :: "caller \<Rightarrow> nat \<Rightarrow> nat \<Rightarrow> psys \<Rightarrow> psys" where
  "spawn_run k t c s = goto t (StartRecord k c (next_id s))
     (s\<lparr>the_runs := fmupd (next_id s) \<lparr>run_alive = True, run_status = 0, run_exited = False, run_done = False,
         run_stop = False\<rparr> (the_runs s), next_id := next_id s + 1\<rparr>)"

text \<open>The end of \<open>Start\<close>: the run is recorded, and the monitor and the start check are let go.\<close>

definition record_and_go :: "caller \<Rightarrow> nat \<Rightarrow> nat \<Rightarrow> nat \<Rightarrow> psys \<Rightarrow> psys" where
  "record_and_go k t c r s =
     (let s1 = start_ok k t (s\<lparr>the_proc := recordRun r (clock s) (the_proc s), next_id := next_id s + 2\<rparr>)
      in goto (next_id s) (MonWait r c) (goto (next_id s + 1) (WaitStart r c) s1))"

definition send_signal :: "nat option \<Rightarrow> bool \<Rightarrow> psys \<Rightarrow> psys" where
  "send_signal r kill s = (case r of None \<Rightarrow> s | Some x \<Rightarrow> s\<lparr>signals := signals s @ [(x, kill)]\<rparr>)"

text \<open>
  The rest of \<open>Stop\<close>: close \<open>stopRequested\<close>; nothing more than a cancel where nothing runs; otherwise the
  stop signal, unless nobody is left to receive it, the wait for the monitor, SIGKILL when
  \<open>stopwaitsecs\<close> are over, and a second, bounded wait.
\<close>

definition stop_close :: "nat \<Rightarrow> State \<Rightarrow> nat option \<Rightarrow> nat option \<Rightarrow> nat option \<Rightarrow> psys \<Rightarrow> psys" where
  "stop_close t st c r sr s =
     (let s1 = (case sr of None \<Rightarrow> s | Some x \<Rightarrow> upd_run x (\<lambda>y. y\<lparr>run_stop := True\<rparr>) s)
      in if IsStopped st \<or> st = StateBackoff then goto t (StopIdle c) s1 else goto t (StopSet c r) s1)"

definition stop_term :: "nat \<Rightarrow> choice \<Rightarrow> nat option \<Rightarrow> nat option \<Rightarrow> psys \<Rightarrow> psys" where
  "stop_term t ch c r s =
     (case r of
        None \<Rightarrow> goto t (StopCancel c) s
      | Some x \<Rightarrow> goto t (StopWait c r) (if ch = Proceed then send_signal r False s else s))"

definition stop_wait :: "nat \<Rightarrow> choice \<Rightarrow> nat option \<Rightarrow> nat option \<Rightarrow> pc \<Rightarrow> psys \<Rightarrow> psys option" where
  "stop_wait t ch c r late s =
     (case r of
        None \<Rightarrow> Some (goto t (StopCancel c) s)
      | Some x \<Rightarrow>
          if ch = Closed \<and> run_flag run_done x s then Some (goto t (StopCancel c) s)
          else if ch = Timer then Some (goto t late s)
          else None)"

text \<open>The monitor of a run: it waits for the status, clears the group and records the exit.\<close>

definition monitor_exited :: "nat \<Rightarrow> nat \<Rightarrow> nat \<Rightarrow> psys \<Rightarrow> psys option" where
  "monitor_exited t r c s =
     (if run_flag run_alive r s then None
      else Some (goto t (MonLinger r c) (upd_run r (\<lambda>x. x\<lparr>run_exited := True\<rparr>) s)))"

definition killLingeringGroup :: "nat \<Rightarrow> choice \<Rightarrow> psys \<Rightarrow> psys" where
  "killLingeringGroup r ch s = (if ch = Proceed then send_signal (Some r) True s else s)"

definition monitor_record :: "nat \<Rightarrow> nat \<Rightarrow> nat \<Rightarrow> psys \<Rightarrow> psys" where
  "monitor_record t r c s =
     (let status = (case fmlookup (the_runs s) r of None \<Rightarrow> 0 | Some x \<Rightarrow> run_status x)
      in case record_exit status (clock s) (the_proc s) of
           ((stopped, code), p) \<Rightarrow> goto t (MonSwitch r c stopped code) (s\<lparr>the_proc := p\<rparr>))"

definition monitor_switch :: "nat \<Rightarrow> nat \<Rightarrow> nat \<Rightarrow> bool \<Rightarrow> int \<Rightarrow> psys \<Rightarrow> psys" where
  "monitor_switch t r c stopped code s =
     (case exit_target (p_state (the_proc s)) stopped of
        Some target \<Rightarrow> goto t (MonSet r target) s
      | None \<Rightarrow> goto t (if code = 0 then MonLatch r c code else MonExited r c code) s)"

text \<open>\<open>maybeRestart\<close>: its decision, the wait for the backoff and the last check.\<close>

definition restart_decision :: "nat \<Rightarrow> nat \<Rightarrow> nat \<Rightarrow> psys \<Rightarrow> psys" where
  "restart_decision t r c s =
     (case count_restart (maxRestarts s) (the_proc s) of
        (None, p) \<Rightarrow> goto t (MonSet r StateFatal) s
      | (Some attempt, p) \<Rightarrow> goto t (MonBackoff r c attempt) (s\<lparr>the_proc := p\<rparr>))"

definition backoff_wait :: "nat \<Rightarrow> choice \<Rightarrow> nat \<Rightarrow> nat \<Rightarrow> psys \<Rightarrow> psys option" where
  "backoff_wait t ch r c s =
     (if ch = Timer then Some (goto t (MonCheck r) s)
      else if (ch = CtxDone \<and> c \<in> canceled s) \<or> (ch = Closed \<and> run_flag run_stop r s)
      then Some (monitor_done t r s) else None)"

definition restart_check :: "nat \<Rightarrow> nat \<Rightarrow> psys \<Rightarrow> psys" where
  "restart_check t r s = (if restart_canceled (the_proc s) then monitor_done t r s else goto t (MonRestart r) s)"

text \<open>\<open>waitForStartSuccess\<close>: its \<open>select\<close> and what follows.\<close>

definition start_check_wait :: "nat \<Rightarrow> choice \<Rightarrow> nat \<Rightarrow> nat \<Rightarrow> psys \<Rightarrow> psys option" where
  "start_check_wait t ch r c s =
     (if ch = Timer then Some (goto t WaitSet s)
      else if (ch = CtxDone \<and> c \<in> canceled s) \<or> (ch = Closed \<and> run_flag run_exited r s)
      then Some (finish t s) else None)"

definition start_check_done :: "nat \<Rightarrow> psys \<Rightarrow> psys" where
  "start_check_done t s = finish t (s\<lparr>the_proc := snd (compareAndSetState StateStarting StateRunning (the_proc s))\<rparr>)"

fun thread_step :: "nat \<Rightarrow> choice \<Rightarrow> pc \<Rightarrow> psys \<Rightarrow> psys option" where
  "thread_step t ch (StartEnter k) s = Some (begin_start k t s)"
| "thread_step t ch (StartSet k c) s = Some (goto t (StartSpawn k c) (set_state StateStarting s))"
| "thread_step t ch (StartSpawn k c) s =
     (if ch = Proceed then Some (spawn_run k t c s) else Some (goto t (StartFail k c) s))"
| "thread_step t ch (StartFail k c) s = Some (goto t (StartFatal k) (cancel_ctx (Some c) s))"
| "thread_step t ch (StartFatal k) s = Some (start_failed k t (set_state StateFatal s))"
| "thread_step t ch (StartRecord k c r) s = Some (record_and_go k t c r s)"
| "thread_step t ch (RestartFatal r) s = Some (monitor_done t r (set_state StateFatal s))"
| "thread_step t ch (StopClose st c r sr) s = Some (stop_close t st c r sr s)"
| "thread_step t ch (StopIdle c) s = Some (goto t StopIdleSet (cancel_ctx c s))"
| "thread_step t ch StopIdleSet s = Some (finish t (set_state StateStopped s))"
| "thread_step t ch (StopSet c r) s = Some (goto t (StopTerm c r) (set_state StateStopping s))"
| "thread_step t ch (StopTerm c r) s = Some (stop_term t ch c r s)"
| "thread_step t ch (StopWait c r) s = stop_wait t ch c r (StopKill c r) s"
| "thread_step t ch (StopKill c r) s = Some (goto t (StopGrace c r) (send_signal r True s))"
| "thread_step t ch (StopGrace c r) s = stop_wait t ch c r (StopCancel c) s"
| "thread_step t ch (StopCancel c) s = Some (finish t (cancel_ctx c s))"
| "thread_step t ch (MonWait r c) s = monitor_exited t r c s"
| "thread_step t ch (MonLinger r c) s = Some (goto t (MonRecord r c) (killLingeringGroup r ch s))"
| "thread_step t ch (MonRecord r c) s = Some (monitor_record t r c s)"
| "thread_step t ch (MonSwitch r c stopped code) s = Some (monitor_switch t r c stopped code s)"
| "thread_step t ch (MonSet r target) s = Some (monitor_done t r (set_state target s))"
| "thread_step t ch (MonLatch r c code) s =
     Some (goto t (MonExited r c code) (s\<lparr>the_proc := latch_completed (the_proc s)\<rparr>))"
| "thread_step t ch (MonExited r c code) s =
     (if wants_restart (policy s) code then Some (goto t (MonCount r c) (set_state StateExited s))
      else Some (monitor_done t r (set_state StateExited s)))"
| "thread_step t ch (MonCount r c) s = Some (restart_decision t r c s)"
| "thread_step t ch (MonBackoff r c attempt) s = backoff_wait t ch r c s"
| "thread_step t ch (MonCheck r) s = Some (restart_check t r s)"
| "thread_step t ch (MonRestart r) s = Some (goto t (StartEnter (RestartOf r)) (set_state StateBackoff s))"
| "thread_step t ch (WaitStart r c) s = start_check_wait t ch r c s"
| "thread_step t ch WaitSet s = Some (start_check_done t s)"

lemmas step_defs [simp] = stop_close_def stop_term_def stop_wait_def monitor_exited_def killLingeringGroup_def
  monitor_record_def monitor_switch_def restart_decision_def backoff_wait_def restart_check_def
  start_check_wait_def start_check_done_def

text \<open>
  Labels: a client calls \<open>Start\<close> or \<open>Stop\<close> (the call is made when it enters its first critical section),
  a thread moves, the child of a run exits, time passes.
\<close>

datatype label = CallStart | CallStop | Go nat choice | ChildExits nat WaitStatus | Tick nat

fun exec :: "label \<Rightarrow> psys \<Rightarrow> psys option" where
  "exec CallStart s = Some (begin_start Client (next_id s) (s\<lparr>next_id := next_id s + 1\<rparr>))"
| "exec CallStop s = Some (begin_stop (next_id s) (s\<lparr>next_id := next_id s + 1\<rparr>))"
| "exec (Go t ch) s = (case fmlookup (pcs s) t of None \<Rightarrow> None | Some c \<Rightarrow> thread_step t ch c s)"
| "exec (ChildExits r status) s =
     (if run_flag run_alive r s then Some (upd_run r (\<lambda>x. x\<lparr>run_alive := False, run_status := status\<rparr>) s) else None)"
| "exec (Tick d) s = Some (s\<lparr>clock := clock s + int d\<rparr>)"

definition process_step :: "psys \<Rightarrow> label \<Rightarrow> psys \<Rightarrow> bool" where
  "process_step s l s' \<longleftrightarrow> exec l s = Some s'"

fun exec_all :: "label list \<Rightarrow> psys \<Rightarrow> psys option" where
  "exec_all [] s = Some s"
| "exec_all (l # ls) s = (case exec l s of None \<Rightarrow> None | Some s' \<Rightarrow> exec_all ls s')"

section \<open>What the building blocks change\<close>

lemma goto_simps [simp]:
  "the_proc (goto t c s) = the_proc s" "policy (goto t c s) = policy s" "maxRestarts (goto t c s) = maxRestarts s"
  "the_runs (goto t c s) = the_runs s" "canceled (goto t c s) = canceled s" "pcs (goto t c s) = fmupd t c (pcs s)"
  "next_id (goto t c s) = next_id s" "clock (goto t c s) = clock s"
  by (simp_all add: goto_def)

lemma finish_simps [simp]:
  "the_proc (finish t s) = the_proc s" "policy (finish t s) = policy s" "maxRestarts (finish t s) = maxRestarts s"
  "the_runs (finish t s) = the_runs s" "canceled (finish t s) = canceled s" "pcs (finish t s) = fmdrop t (pcs s)"
  "next_id (finish t s) = next_id s" "clock (finish t s) = clock s"
  by (simp_all add: finish_def)

lemma cancel_ctx_simps [simp]:
  "the_proc (cancel_ctx c s) = the_proc s" "policy (cancel_ctx c s) = policy s" "maxRestarts (cancel_ctx c s) = maxRestarts s"
  "the_runs (cancel_ctx c s) = the_runs s" "canceled (cancel_ctx c s) = canceled s \<union> set_option c"
  "pcs (cancel_ctx c s) = pcs s" "next_id (cancel_ctx c s) = next_id s" "clock (cancel_ctx c s) = clock s"
  by (simp_all add: cancel_ctx_def split: option.splits)

lemma upd_run_simps [simp]:
  "the_proc (upd_run r f s) = the_proc s" "policy (upd_run r f s) = policy s" "maxRestarts (upd_run r f s) = maxRestarts s"
  "canceled (upd_run r f s) = canceled s" "pcs (upd_run r f s) = pcs s" "next_id (upd_run r f s) = next_id s"
  "clock (upd_run r f s) = clock s"
  by (simp_all add: upd_run_def split: option.splits)

lemma set_state_simps [simp]:
  "the_proc (set_state st s) = (the_proc s)\<lparr>p_state := st\<rparr>" "policy (set_state st s) = policy s"
  "maxRestarts (set_state st s) = maxRestarts s" "the_runs (set_state st s) = the_runs s"
  "canceled (set_state st s) = canceled s" "pcs (set_state st s) = pcs s" "next_id (set_state st s) = next_id s"
  "clock (set_state st s) = clock s"
  by (simp_all add: set_state_def setState_def)

lemma send_signal_simps [simp]:
  "the_proc (send_signal r k s) = the_proc s" "policy (send_signal r k s) = policy s"
  "maxRestarts (send_signal r k s) = maxRestarts s" "the_runs (send_signal r k s) = the_runs s"
  "canceled (send_signal r k s) = canceled s" "pcs (send_signal r k s) = pcs s"
  "next_id (send_signal r k s) = next_id s" "clock (send_signal r k s) = clock s"
  by (simp_all add: send_signal_def split: option.splits)

lemma signals_simps [simp]:
  "signals (goto t c s) = signals s" "signals (finish t s) = signals s" "signals (cancel_ctx x s) = signals s"
  "signals (upd_run r f s) = signals s" "signals (set_state st s) = signals s"
  "signals (send_signal y k s) = signals s @ (case y of None \<Rightarrow> [] | Some x \<Rightarrow> [(x, k)])"
  by (simp_all add: goto_def finish_def cancel_ctx_def upd_run_def set_state_def send_signal_def split: option.splits)

lemma run_flag_upd:
  "run_flag f r (upd_run x g s) = (if x = r then (case fmlookup (the_runs s) r of None \<Rightarrow> False | Some y \<Rightarrow> f (g y)) else run_flag f r s)"
  by (simp add: run_flag_def upd_run_def split: option.splits)

lemma run_alive_upd [simp]:
  "(\<And>y. run_alive (g y) = run_alive y) \<Longrightarrow> run_flag run_alive r (upd_run x g s) = run_flag run_alive r s"
  by (auto simp: run_flag_def upd_run_def split: option.splits)

lemma run_flag_same [simp]:
  "run_flag f r (goto t c s) = run_flag f r s" "run_flag f r (finish t s) = run_flag f r s"
  "run_flag f r (cancel_ctx x s) = run_flag f r s" "run_flag f r (set_state st s) = run_flag f r s"
  "run_flag f r (send_signal x k s) = run_flag f r s"
  "run_flag f r (s\<lparr>the_proc := p\<rparr>) = run_flag f r s" "run_flag f r (s\<lparr>next_id := n\<rparr>) = run_flag f r s"
  "run_flag f r (s\<lparr>clock := i\<rparr>) = run_flag f r s"
  by (simp_all add: run_flag_def)

lemmas block_defs = monitor_done_def start_ok_def start_failed_def begin_start_def start_enter_def begin_stop_def
  stop_enter_def spawn_run_def record_and_go_def recordRun_def record_exit_def latch_completed_def
  count_restart_def compareAndSetState_def Let_def

fun_cases exec_GoE: "exec (Go t ch) s = Some s'"
  and exec_ChildExitsE: "exec (ChildExits r status) s = Some s'"

section \<open>Bounds that hold under every interleaving\<close>

fun pc_counted :: "int \<Rightarrow> pc \<Rightarrow> bool" where
  "pc_counted m (MonBackoff r c n) \<longleftrightarrow> 1 \<le> n \<and> n \<le> m"
| "pc_counted m (MonSet r st) \<longleftrightarrow> st \<noteq> StateUnknown"
| "pc_counted m _ \<longleftrightarrow> True"

definition counted :: "RestartPolicy \<Rightarrow> int \<Rightarrow> psys \<Rightarrow> bool" where
  "counted pol m s \<longleftrightarrow> policy s = pol \<and> maxRestarts s = m \<and>
     0 \<le> p_restartCount (the_proc s) \<and> p_restartCount (the_proc s) \<le> m \<and> p_state (the_proc s) \<noteq> StateUnknown \<and>
     (\<forall>t c. fmlookup (pcs s) t = Some c \<longrightarrow> pc_counted m c)"

lemma exit_target_known: "exit_target st stopped = Some target \<Longrightarrow> target \<noteq> StateUnknown"
  by (auto simp: exit_target_def split: if_splits)

lemma thread_step_counted:
  assumes inv: "counted pol m s" and c: "fmlookup (pcs s) t = Some c" and step: "thread_step t ch c s = Some s'"
  shows "counted pol m s'"
proof -
  have k: "pc_counted m c" "policy s = pol" "maxRestarts s = m" "0 \<le> p_restartCount (the_proc s)"
      "p_restartCount (the_proc s) \<le> m" "p_state (the_proc s) \<noteq> StateUnknown"
    using inv c by (auto simp: counted_def)
  have "policy s' = pol \<and> maxRestarts s' = m"
    using step k(2,3) by (cases c) (auto simp: block_defs split: if_splits option.splits caller.splits)
  moreover have "0 \<le> p_restartCount (the_proc s') \<and> p_restartCount (the_proc s') \<le> m"
    using step k(3-5) by (cases c) (auto simp: block_defs split: if_splits option.splits caller.splits)
  moreover have "p_state (the_proc s') \<noteq> StateUnknown"
    using step k(1,6) by (cases c) (auto simp: block_defs split: if_splits option.splits caller.splits)
  moreover have "fmlookup (pcs s) t' = Some d \<or> pc_counted m d" if "fmlookup (pcs s') t' = Some d" for t' d
    using that step k by (cases c)
      (auto simp: block_defs exit_target_known split: if_splits option.splits caller.splits)
  then have "\<forall>t' d. fmlookup (pcs s') t' = Some d \<longrightarrow> pc_counted m d"
    using inv unfolding counted_def by blast
  ultimately show ?thesis by (simp add: counted_def)
qed

lemma exec_counted: "counted pol m s \<Longrightarrow> exec l s = Some s' \<Longrightarrow> counted pol m s'"
proof (cases l)
  case (Go t ch)
  then show "counted pol m s \<Longrightarrow> exec l s = Some s' \<Longrightarrow> counted pol m s'"
    using thread_step_counted by (auto split: option.splits)
qed (auto simp: counted_def block_defs split: if_splits option.splits caller.splits)

lemma new_psys_counted: "0 \<le> m \<Longrightarrow> counted pol m (new_psys pol m)"
  by (simp add: counted_def new_psys_def NewProcess_def)

interpretation restart_bound: inductive_invariant "\<lambda>s. 0 \<le> m \<and> s = new_psys pol m" process_step "counted pol m"
  for pol m
  by unfold_locales (auto simp: process_step_def new_psys_counted exec_counted)

end
