(* ===== verification/Command.thy ===== *)
theory Command
  imports Prelude
begin

text \<open>
  The splitting of a command line into its arguments: \<open>parseCommand\<close> and its scanner in
  \<^verbatim>\<open>internal/process/process.go\<close>, used for programs and for exec health checks; and \<open>firstLine\<close> of
  \<^verbatim>\<open>internal/process/health.go\<close>, which cuts the output of a failing check for a log line.

  Shown: the three ways of quoting are read back exactly, the scanner loses a command only when it
  is blank, and \<open>firstLine\<close> is bounded and a single line.
\<close>

section \<open>The scanner\<close>

text \<open>No quote character is the zero byte.\<close>

record commandScanner =
  cs_current :: string
  cs_quoteChar :: char
  cs_inQuotes :: bool
  cs_quoted :: bool

abbreviation backslash :: char where "backslash \<equiv> CHR 0x5C"
abbreviation dquote :: char where "dquote \<equiv> CHR 0x22"
abbreviation squote :: char where "squote \<equiv> CHR 0x27"
abbreviation blank :: "char \<Rightarrow> bool" where "blank c \<equiv> c = CHR '' '' \<or> c = CHR 0x09"

definition new_scanner :: commandScanner where
  "new_scanner = \<lparr>cs_current = [], cs_quoteChar = CHR 0x00, cs_inQuotes = False, cs_quoted = False\<rparr>"

text \<open>An argument that is complete is \<open>Some\<close>.\<close>

definition scan_finish :: "commandScanner \<Rightarrow> string option \<times> commandScanner" where
  "scan_finish s =
     (if cs_current s = [] \<and> \<not> cs_quoted s then (None, s)
      else (Some (cs_current s), s\<lparr>cs_current := [], cs_quoted := False\<rparr>))"

definition scan_step :: "char \<Rightarrow> commandScanner \<Rightarrow> string option \<times> commandScanner" where
  "scan_step c s =
     (if (c = dquote \<or> c = squote) \<and> \<not> cs_inQuotes s
      then (None, s\<lparr>cs_inQuotes := True, cs_quoteChar := c, cs_quoted := True\<rparr>)
      else if cs_inQuotes s \<and> c = cs_quoteChar s
      then (None, s\<lparr>cs_inQuotes := False, cs_quoteChar := CHR 0x00\<rparr>)
      else if blank c \<and> \<not> cs_inQuotes s then scan_finish s
      else (None, s\<lparr>cs_current := cs_current s @ [c]\<rparr>))"

definition add_part :: "string option \<Rightarrow> string list \<Rightarrow> string list" where
  "add_part arg parts = (case arg of None \<Rightarrow> parts | Some a \<Rightarrow> parts @ [a])"

fun parse_loop :: "string \<Rightarrow> commandScanner \<Rightarrow> string list \<Rightarrow> string list" where
  "parse_loop [] s parts = add_part (fst (scan_finish s)) parts"
| "parse_loop (c # cmd) s parts =
     (if c = backslash \<and> cs_quoteChar s \<noteq> squote \<and> cmd \<noteq> []
      then parse_loop (tl cmd) (s\<lparr>cs_current := cs_current s @ [hd cmd]\<rparr>) parts
      else case scan_step c s of (arg, s') \<Rightarrow> parse_loop cmd s' (add_part arg parts))"

definition parseCommand :: "string \<Rightarrow> string list" where
  "parseCommand cmd = parse_loop cmd new_scanner []"

section \<open>The first line of an output\<close>

definition maxProbeOutputBytes :: nat where "maxProbeOutputBytes = 200"

definition firstLine :: "string \<Rightarrow> string" where
  "firstLine out =
     (let text = TrimSpace out
      in if text = '''' then ''''
         else let text1 = takeWhile (\<lambda>c. c \<noteq> CHR 0x0A) text
              in if length text1 > maxProbeOutputBytes then take maxProbeOutputBytes text1 @ ''...'' else text1)"

section \<open>Writing a command line\<close>

text \<open>The ways an argument may be written.\<close>

datatype style = Plain | Single | Double

definition plain_char :: "char \<Rightarrow> bool" where
  "plain_char c \<longleftrightarrow> \<not> blank c \<and> c \<noteq> dquote \<and> c \<noteq> squote \<and> c \<noteq> backslash"

definition escaped :: "char \<Rightarrow> string" where
  "escaped c = (if c = backslash \<or> c = dquote then [backslash, c] else [c])"

fun write_arg :: "style \<Rightarrow> string \<Rightarrow> string" where
  "write_arg Plain a = a"
| "write_arg Single a = squote # a @ [squote]"
| "write_arg Double a = dquote # concat (map escaped a) @ [dquote]"

fun writable :: "style \<Rightarrow> string \<Rightarrow> bool" where
  "writable Plain a = (a \<noteq> [] \<and> list_all plain_char a)"
| "writable Single a = (squote \<notin> set a)"
| "writable Double a = True"

text \<open>A command line: every argument with the blanks written before it.\<close>

fun write_line :: "(string \<times> style \<times> string) list \<Rightarrow> string" where
  "write_line [] = []"
| "write_line ((blanks, style, a) # rest) = blanks @ write_arg style a @ write_line rest"

definition blanks_ok :: "(string \<times> style \<times> string) list \<Rightarrow> bool" where
  "blanks_ok line \<longleftrightarrow> list_all (\<lambda>(blanks, style, a). list_all blank blanks \<and> writable style a) line \<and>
     list_all (\<lambda>(blanks, style, a). blanks \<noteq> []) (tl line)"

section \<open>Lemmas\<close>

lemma add_part_simps [simp]: "add_part None parts = parts" "add_part (Some a) parts = parts @ [a]"
  by (simp_all add: add_part_def)

lemma plain_run:
  "list_all plain_char a \<Longrightarrow> \<not> cs_inQuotes s \<Longrightarrow> cs_quoteChar s = CHR 0x00 \<Longrightarrow>
     parse_loop (a @ rest) s parts = parse_loop rest (s\<lparr>cs_current := cs_current s @ a\<rparr>) parts"
proof (induction a arbitrary: s)
  case Nil
  then show ?case by simp
next
  case (Cons c a)
  then show ?case by (simp add: plain_char_def scan_step_def)
qed

lemma single_run:
  "squote \<notin> set a \<Longrightarrow> cs_inQuotes s \<Longrightarrow> cs_quoteChar s = squote \<Longrightarrow>
     parse_loop (a @ rest) s parts = parse_loop rest (s\<lparr>cs_current := cs_current s @ a\<rparr>) parts"
proof (induction a arbitrary: s)
  case Nil
  then show ?case by simp
next
  case (Cons c a)
  then show ?case by (auto simp: scan_step_def)
qed

lemma double_run:
  "cs_inQuotes s \<Longrightarrow> cs_quoteChar s = dquote \<Longrightarrow>
     parse_loop (concat (map escaped a) @ rest) s parts = parse_loop rest (s\<lparr>cs_current := cs_current s @ a\<rparr>) parts"
proof (induction a arbitrary: s)
  case Nil
  then show ?case by simp
next
  case (Cons c a)
  then show ?case by (auto simp: escaped_def scan_step_def)
qed

text \<open>After an argument the scanner holds it, outside of quotes.\<close>

definition holding :: "string \<Rightarrow> bool \<Rightarrow> commandScanner" where
  "holding a q = \<lparr>cs_current = a, cs_quoteChar = CHR 0x00, cs_inQuotes = False, cs_quoted = q\<rparr>"

lemma arg_run:
  assumes "writable style a"
  shows "\<exists>q. (a \<noteq> [] \<or> q) \<and>
    parse_loop (write_arg style a @ rest) (holding [] False) parts = parse_loop rest (holding a q) parts"
proof (cases style)
  case Plain
  with assms have "parse_loop (a @ rest) (holding [] False) parts = parse_loop rest (holding a False) parts"
    using plain_run [of a "holding [] False"] by (simp add: holding_def)
  with Plain assms show ?thesis by auto
next
  case Single
  let ?in = "\<lparr>cs_current = [], cs_quoteChar = squote, cs_inQuotes = True, cs_quoted = True\<rparr>"
  have "parse_loop (write_arg Single a @ rest) (holding [] False) parts = parse_loop (a @ squote # rest) ?in parts"
    by (simp add: holding_def scan_step_def)
  also have "\<dots> = parse_loop (squote # rest) (?in\<lparr>cs_current := a\<rparr>) parts"
    using single_run [of a ?in "squote # rest"] Single assms by simp
  also have "\<dots> = parse_loop rest (holding a True) parts"
    by (simp add: holding_def scan_step_def)
  finally show ?thesis using Single by auto
next
  case Double
  let ?in = "\<lparr>cs_current = [], cs_quoteChar = dquote, cs_inQuotes = True, cs_quoted = True\<rparr>"
  have "parse_loop (write_arg Double a @ rest) (holding [] False) parts
      = parse_loop (concat (map escaped a) @ dquote # rest) ?in parts"
    by (simp add: holding_def scan_step_def)
  also have "\<dots> = parse_loop (dquote # rest) (?in\<lparr>cs_current := a\<rparr>) parts"
    using double_run [of ?in a "dquote # rest"] by simp
  also have "\<dots> = parse_loop rest (holding a True) parts"
    by (simp add: holding_def scan_step_def)
  finally show ?thesis using Double by auto
qed

lemma blanks_run:
  "list_all blank blanks \<Longrightarrow> parse_loop (blanks @ rest) (holding [] False) parts = parse_loop rest (holding [] False) parts"
  by (induction blanks) (auto simp: holding_def scan_step_def scan_finish_def)

lemma blank_after_arg:
  "blank b \<Longrightarrow> a \<noteq> [] \<or> q \<Longrightarrow>
     parse_loop (b # rest) (holding a q) parts = parse_loop rest (holding [] False) (parts @ [a])"
  by (auto simp: holding_def scan_step_def scan_finish_def)

lemma line_run:
  "list_all (\<lambda>(blanks, style, a). list_all blank blanks \<and> writable style a) line \<Longrightarrow>
   list_all (\<lambda>(blanks, style, a). blanks \<noteq> []) line \<Longrightarrow> a \<noteq> [] \<or> q \<Longrightarrow>
     parse_loop (write_line line) (holding a q) parts = parts @ a # map (\<lambda>(blanks, style, a). a) line"
proof (induction line arbitrary: a q parts)
  case Nil
  then show ?case by (auto simp: holding_def scan_finish_def)
next
  case (Cons x line)
  obtain blanks style a' where x: "x = (blanks, style, a')" by (cases x)
  with Cons.prems(1,2) obtain b bs where b: "blanks = b # bs" "blank b" "list_all blank bs" "writable style a'"
    by (cases blanks) auto
  obtain q' where q': "a' \<noteq> [] \<or> q'"
    "parse_loop (write_arg style a' @ write_line line) (holding [] False) (parts @ [a])
       = parse_loop (write_line line) (holding a' q') (parts @ [a])"
    using arg_run [OF b(4)] by blast
  have "parse_loop (write_line (x # line)) (holding a q) parts
      = parse_loop (bs @ write_arg style a' @ write_line line) (holding [] False) (parts @ [a])"
    by (simp only: x b(1) write_line.simps append_Cons append_assoc blank_after_arg [OF b(2) Cons.prems(3)])
  also have "\<dots> = parse_loop (write_line line) (holding a' q') (parts @ [a])"
    using q'(2) by (simp add: blanks_run [OF b(3)])
  finally show ?case using Cons.IH [OF _ _ q'(1)] Cons.prems by (simp add: x)
qed

section \<open>Properties\<close>

text \<open>
  C38. Arguments written plainly, between single quotes or between double quotes with backslash
  escapes, with any blanks between them, are split into exactly those arguments: spaces, quotes,
  backslashes and empty arguments included.
\<close>

theorem parseCommand_roundtrip:
  assumes "blanks_ok line"
  shows "parseCommand (write_line line) = map (\<lambda>(blanks, style, a). a) line"
proof (cases line)
  case Nil
  then show ?thesis by (simp add: parseCommand_def new_scanner_def scan_finish_def)
next
  case (Cons x rest)
  obtain blanks style a where x: "x = (blanks, style, a)" by (cases x)
  have ok: "list_all blank blanks" "writable style a"
    "list_all (\<lambda>(blanks, style, a). list_all blank blanks \<and> writable style a) rest"
    "list_all (\<lambda>(blanks, style, a). blanks \<noteq> []) rest"
    using assms Cons x by (auto simp: blanks_ok_def)
  obtain q where q: "a \<noteq> [] \<or> q" "parse_loop (write_arg style a @ write_line rest) (holding [] False) []
       = parse_loop (write_line rest) (holding a q) []"
    using arg_run [OF ok(2)] by blast
  have "parseCommand (write_line line) = parse_loop (write_line rest) (holding a q) []"
    using q(2) blanks_run [OF ok(1)] by (simp add: parseCommand_def Cons x new_scanner_def holding_def)
  then show ?thesis using line_run [OF ok(3,4) q(1)] by (simp add: Cons x)
qed

theorem parseCommand_roundtrip_witness:
  "parseCommand (write_line [('''', Plain, ''sh''), ('' '', Single, ''a b''), ('' '', Double, [dquote]), ('' '', Double, [])])
     = [''sh'', ''a b'', [dquote], []]"
  using parseCommand_roundtrip [of "[('''', Plain, ''sh''), ('' '', Single, ''a b''), ('' '', Double, [dquote]), ('' '', Double, [])]"]
  by (simp add: blanks_ok_def plain_char_def)

text \<open>The scanner holds something when it has seen a character that is not blank.\<close>

lemma parse_loop_nonempty:
  "parts \<noteq> [] \<or> cs_current s \<noteq> [] \<or> cs_quoted s \<Longrightarrow> parse_loop cmd s parts \<noteq> []"
proof (induction cmd s parts rule: parse_loop.induct)
  case (1 s parts)
  then show ?case by (auto simp: scan_finish_def)
next
  case (2 c cmd s parts)
  show ?case
  proof (cases "c = backslash \<and> cs_quoteChar s \<noteq> squote \<and> cmd \<noteq> []")
    case True
    with 2 show ?thesis by simp
  next
    case False
    obtain arg s' where st: "scan_step c s = (arg, s')" by (cases "scan_step c s")
    with "2.prems" have "add_part arg parts \<noteq> [] \<or> cs_current s' \<noteq> [] \<or> cs_quoted s'"
      by (auto simp: scan_step_def scan_finish_def split: if_splits)
    with False 2 st show ?thesis by simp
  qed
qed

lemma parse_loop_seen:
  assumes "\<not> blank c"
  shows "parse_loop (c # rest) (holding [] False) [] \<noteq> []"
proof (cases "c = backslash \<and> rest \<noteq> []")
  case True
  then have "parse_loop (c # rest) (holding [] False) [] = parse_loop (tl rest) (holding [hd rest] False) []"
    by (simp add: holding_def)
  also have "\<dots> \<noteq> []" by (rule parse_loop_nonempty) (simp add: holding_def)
  finally show ?thesis .
next
  case False
  obtain s' where s': "scan_step c (holding [] False) = (None, s')" "cs_current s' \<noteq> [] \<or> cs_quoted s'"
  proof (cases "c = dquote \<or> c = squote")
    case True
    then show ?thesis by (intro that) (auto simp: scan_step_def holding_def)
  next
    case False
    with assms show ?thesis by (intro that) (auto simp: scan_step_def holding_def)
  qed
  with False have "parse_loop (c # rest) (holding [] False) [] = parse_loop rest s' []"
    by (auto simp: holding_def)
  also have "\<dots> \<noteq> []" using s'(2) by (intro parse_loop_nonempty) simp
  finally show ?thesis .
qed

text \<open>
  The only commands without a single argument are the blank ones, so that a program is refused
  as an invalid command exactly when its command is nothing but spaces and tabs.
\<close>

theorem parseCommand_empty_iff: "parseCommand cmd = [] \<longleftrightarrow> list_all blank cmd"
proof
  show "parseCommand cmd = []" if "list_all blank cmd"
    using blanks_run [OF that, of "[]" "[]"]
    by (simp add: parseCommand_def new_scanner_def holding_def scan_finish_def)
next
  assume empty: "parseCommand cmd = []"
  show "list_all blank cmd"
  proof (rule ccontr)
    assume "\<not> list_all blank cmd"
    then have ne: "dropWhile blank cmd \<noteq> []" by (induction cmd) auto
    then obtain c rest where c1: "dropWhile blank cmd = c # rest" by (cases "dropWhile blank cmd") auto
    have "\<not> blank c" using hd_dropWhile [OF ne] unfolding c1 by simp
    note c = c1 this
    have "list_all blank (takeWhile blank cmd)" by (auto simp: list_all_iff dest: set_takeWhileD)
    moreover have "takeWhile blank cmd @ c # rest = cmd" using c(1) takeWhile_dropWhile_id [of blank cmd] by simp
    ultimately have "parseCommand cmd = parse_loop (c # rest) (holding [] False) []"
      using blanks_run [of "takeWhile blank cmd" "c # rest" "[]"]
      by (simp only: parseCommand_def new_scanner_def holding_def)
    moreover have "parse_loop (c # rest) (holding [] False) [] \<noteq> []"
      by (rule parse_loop_seen [OF c(2)])
    ultimately show False using empty by simp
  qed
qed

text \<open>
  What is logged of a probe's output is one line of at most 203 bytes.
\<close>

theorem firstLine_bounded: "length (firstLine out) \<le> 203 \<and> CHR 0x0A \<notin> set (firstLine out)"
proof -
  let ?t = "takeWhile (\<lambda>c. c \<noteq> CHR 0x0A) (TrimSpace out)"
  have "CHR 0x0A \<notin> set ?t" by (auto dest: set_takeWhileD)
  then have "CHR 0x0A \<notin> set (take 200 ?t)" by (meson in_set_takeD)
  then show ?thesis
    using \<open>CHR 0x0A \<notin> set ?t\<close> by (auto simp: firstLine_def Let_def maxProbeOutputBytes_def)
qed

end
