(* ===== verification/Health.thy ===== *)
theory Health
  imports Config Reaper Command
begin

text \<open>
  Health checks: \<^verbatim>\<open>internal/process/health.go\<close>. The record \<open>health_state\<close> holds the fields of a
  \<open>Process\<close> that belong to the checker, and the changes it has reported to its callback.

  What a probe finds is the input of the model: how its command ended, whether the connection was
  made, which status the server answered; and when each attempt was made.
\<close>

section \<open>Health\<close>

datatype Health = HealthNone | HealthStarting | HealthHealthy | HealthUnhealthy

text \<open>A field that was never set is \<open>None\<close>. Contexts are numbered.\<close>

record health_state =
  h_health :: "Health option"
  h_cancel :: "nat option"
  h_canceled :: "nat set"
  h_reported :: "(Health \<times> Health) list"

definition GetHealth :: "health_state \<Rightarrow> Health" where
  "GetHealth p = (case h_health p of None \<Rightarrow> HealthNone | Some h \<Rightarrow> h)"

definition setHealth :: "Health \<Rightarrow> health_state \<Rightarrow> health_state" where
  "setHealth h p =
     (let prev = GetHealth p; p1 = p\<lparr>h_health := Some h\<rparr>
      in if prev = h then p1 else p1\<lparr>h_reported := h_reported p1 @ [(prev, h)]\<rparr>)"

section \<open>Probes\<close>

datatype probe = ExecProbe string | TCPProbe string | HTTPProbe string

datatype probe_error =
    InvalidProbeCommand string
  | ProbeSpawnFailed string
  | ProbeTimedOut
  | ProbeExit exit_error
  | ProbeExitWithOutput exit_error string
  | ProbeNotConnected string
  | ProbeBadRequest string
  | ProbeStatus int

definition newProbe :: "HealthCheck \<Rightarrow> probe option" where
  "newProbe check =
     (if hc_Exec check \<noteq> '''' then Some (ExecProbe (hc_Exec check))
      else if hc_TCP check \<noteq> '''' then Some (TCPProbe (hc_TCP check))
      else if hc_HTTP check \<noteq> '''' then Some (HTTPProbe (hc_HTTP check))
      else None)"

text \<open>
  How a command ended: it could not be spawned, its status arrived in time, with the output that could
  be read before the bounded wait was over, or its time ran out.
\<close>

datatype exec_end = SpawnError string | Status WaitStatus "string option" | DeadlinePassed

definition probeFailure :: "WaitStatus \<Rightarrow> string option \<Rightarrow> probe_error option" where
  "probeFailure status output =
     (case exitErrorOf status of
        None \<Rightarrow> None
      | Some err \<Rightarrow>
          Some (case output of
                  None \<Rightarrow> ProbeExit err
                | Some data \<Rightarrow> if firstLine data \<noteq> '''' then ProbeExitWithOutput err (firstLine data) else ProbeExit err))"

definition execProbe :: "string \<Rightarrow> exec_end \<Rightarrow> probe_error option" where
  "execProbe command result =
     (if parseCommand command = [] then Some (InvalidProbeCommand command)
      else case result of
        SpawnError e \<Rightarrow> Some (ProbeSpawnFailed e)
      | Status status output \<Rightarrow> if exitCodeOfStatus status = 0 then None else probeFailure status output
      | DeadlinePassed \<Rightarrow> Some ProbeTimedOut)"

text \<open>A connection attempt gives an error or nothing; a request an error or the status of the answer.\<close>

definition tcpProbe :: "string + unit \<Rightarrow> probe_error option" where
  "tcpProbe result = (case result of Inl e \<Rightarrow> Some (ProbeNotConnected e) | Inr _ \<Rightarrow> None)"

definition httpProbe :: "string + int \<Rightarrow> probe_error option" where
  "httpProbe result =
     (case result of
        Inl e \<Rightarrow> Some (ProbeBadRequest e)
      | Inr code \<Rightarrow> if code \<ge> 400 then Some (ProbeStatus code) else None)"

section \<open>The checker\<close>

text \<open>
  One attempt: the clock when it was over, what the probe said, and whether the context of the run was
  found canceled after it, or while waiting for the next tick.
\<close>

record attempt =
  at_time :: int
  at_error :: "probe_error option"
  at_canceled :: bool
  at_last :: bool

record loop_state =
  failures :: int
  everHealthy :: bool
  checked :: health_state

definition attempt_step :: "HealthCheck \<Rightarrow> int \<Rightarrow> attempt \<Rightarrow> loop_state \<Rightarrow> loop_state" where
  "attempt_step check graceEnd a s =
     (case at_error a of
        None \<Rightarrow> s\<lparr>failures := 0, everHealthy := True, checked := setHealth HealthHealthy (checked s)\<rparr>
      | Some err \<Rightarrow>
          (let n = failures s + 1; s1 = s\<lparr>failures := n\<rparr>
           in if n \<ge> hc_Retries check \<and> (everHealthy s \<or> \<not> at_time a < graceEnd)
              then s1\<lparr>checked := setHealth HealthUnhealthy (checked s)\<rparr>
              else s1))"

fun probe_rounds :: "HealthCheck \<Rightarrow> int \<Rightarrow> attempt list \<Rightarrow> loop_state \<Rightarrow> loop_state" where
  "probe_rounds check graceEnd [] s = s"
| "probe_rounds check graceEnd (a # as) s =
     (if at_canceled a then s
      else let s1 = attempt_step check graceEnd a s
           in if at_last a then s1 else probe_rounds check graceEnd as s1)"

definition probeLoop :: "HealthCheck \<Rightarrow> int \<Rightarrow> attempt list \<Rightarrow> health_state \<Rightarrow> health_state" where
  "probeLoop check now attempts p =
     checked (probe_rounds check (now + hc_StartPeriod check) attempts
       \<lparr>failures = 0, everHealthy = False, checked = p\<rparr>)"

definition startHealthChecks :: "nat \<Rightarrow> HealthCheck option \<Rightarrow> health_state \<Rightarrow> health_state" where
  "startHealthChecks ctx check p =
     (case check of
        None \<Rightarrow> p
      | Some c \<Rightarrow>
          (case newProbe c of
             None \<Rightarrow> p
           | Some probe \<Rightarrow> setHealth HealthStarting (p\<lparr>h_cancel := Some ctx\<rparr>)))"

definition stopHealthChecks :: "health_state \<Rightarrow> health_state" where
  "stopHealthChecks p =
     (case h_cancel p of
        None \<Rightarrow> p
      | Some ctx \<Rightarrow> setHealth HealthNone (p\<lparr>h_cancel := None, h_canceled := insert ctx (h_canceled p)\<rparr>))"

section \<open>Lemmas\<close>

lemma setHealth_simps [simp]:
  "GetHealth (setHealth h p) = h" "h_cancel (setHealth h p) = h_cancel p" "h_canceled (setHealth h p) = h_canceled p"
  "GetHealth (p\<lparr>h_cancel := c\<rparr>) = GetHealth p" "GetHealth (p\<lparr>h_canceled := cs\<rparr>) = GetHealth p"
  by (simp_all add: setHealth_def GetHealth_def Let_def)

text \<open>The attempts the loop takes into account, and the failures at the end of a history.\<close>

fun taken :: "attempt list \<Rightarrow> attempt list" where
  "taken [] = []"
| "taken (a # as) = (if at_canceled a then [] else if at_last a then [a] else a # taken as)"

definition succeeded :: "attempt \<Rightarrow> bool" where
  "succeeded a \<longleftrightarrow> at_error a = None"

definition streak :: "attempt list \<Rightarrow> int" where
  "streak h = int (length (takeWhile (\<lambda>a. \<not> succeeded a) (rev h)))"

lemma streak_simps [simp]:
  "streak [] = 0" "succeeded a \<Longrightarrow> streak (h @ [a]) = 0" "\<not> succeeded a \<Longrightarrow> streak (h @ [a]) = streak h + 1"
  by (simp_all add: streak_def)

lemma streak_nonneg: "0 \<le> streak h"
  by (simp add: streak_def)

lemma rounds_taken: "probe_rounds check g as s = fold (attempt_step check g) (taken as) s"
  by (induction as arbitrary: s) (simp_all add: Let_def)

definition health_of :: "HealthCheck \<Rightarrow> int \<Rightarrow> attempt list \<Rightarrow> Health" where
  "health_of check g h =
     (if h = [] then HealthStarting
      else if streak h = 0 then HealthHealthy
      else if hc_Retries check \<le> streak h \<and> (list_ex succeeded h \<or> g \<le> at_time (last h)) then HealthUnhealthy
      else if list_ex succeeded h then HealthHealthy
      else HealthStarting)"

lemma streak_zero_iff: "streak h = 0 \<longleftrightarrow> h = [] \<or> succeeded (last h)"
  by (cases h rule: rev_cases) (auto simp: streak_def)

lemma attempt_fails:
  "\<not> succeeded a \<Longrightarrow> attempt_step check g a s =
     (if hc_Retries check \<le> failures s + 1 \<and> (everHealthy s \<or> g \<le> at_time a)
      then s\<lparr>failures := failures s + 1, checked := setHealth HealthUnhealthy (checked s)\<rparr>
      else s\<lparr>failures := failures s + 1\<rparr>)"
  by (cases "at_error a") (simp_all add: attempt_step_def succeeded_def Let_def not_less)

lemma attempt_succeeds:
  "succeeded a \<Longrightarrow> attempt_step check g a s =
     s\<lparr>failures := 0, everHealthy := True, checked := setHealth HealthHealthy (checked s)\<rparr>"
  by (simp add: attempt_step_def succeeded_def)

lemma list_ex_snoc [simp]: "list_ex P (h @ [a]) \<longleftrightarrow> list_ex P h \<or> P a"
  by auto

lemma health_of_unchanged:
  assumes "\<not> succeeded a" and "sorted (map at_time (h @ [a]))" and "1 \<le> hc_Retries check"
    and "\<not> (hc_Retries check \<le> streak h + 1 \<and> (list_ex succeeded h \<or> g \<le> at_time a))"
  shows "health_of check g (h @ [a]) = health_of check g h"
proof (cases "h = [] \<or> succeeded (last h)")
  case True
  then have "streak h = 0" by (simp add: streak_zero_iff)
  moreover have "list_ex succeeded h" if "h \<noteq> []"
    using True that by (auto simp: list_ex_iff)
  ultimately show ?thesis using assms by (auto simp: health_of_def)
next
  case False
  then have "h \<noteq> []" "streak h \<noteq> 0" by (simp_all add: streak_zero_iff)
  moreover have "at_time (last h) \<le> at_time a"
    using assms(2) \<open>h \<noteq> []\<close> by (simp add: sorted_append)
  ultimately show ?thesis using assms streak_nonneg [of h] by (auto simp: health_of_def)
qed

lemma fold_attempts:
  assumes "1 \<le> hc_Retries check" and "sorted (map at_time h)"
    and "failures s = 0" and "\<not> everHealthy s" and "GetHealth (checked s) = HealthStarting"
  shows "failures (fold (attempt_step check g) h s) = streak h \<and>
    everHealthy (fold (attempt_step check g) h s) = list_ex succeeded h \<and>
    GetHealth (checked (fold (attempt_step check g) h s)) = health_of check g h"
  using assms(2)
proof (induction h rule: rev_induct)
  case Nil
  then show ?case using assms by (simp add: health_of_def)
next
  case (snoc a h)
  let ?s = "fold (attempt_step check g) h s"
  have IH: "failures ?s = streak h" "everHealthy ?s = list_ex succeeded h" "GetHealth (checked ?s) = health_of check g h"
    using snoc by (simp_all add: sorted_append)
  show ?case
  proof (cases "succeeded a")
    case True
    then show ?thesis by (simp add: attempt_succeeds health_of_def)
  next
    case False
    show ?thesis
    proof (cases "hc_Retries check \<le> streak h + 1 \<and> (list_ex succeeded h \<or> g \<le> at_time a)")
      case True
      with False IH streak_nonneg [of h] show ?thesis
        by (auto simp: attempt_fails health_of_def)
    next
      case kept: False
      from health_of_unchanged [OF False snoc.prems assms(1) kept] False IH kept show ?thesis
        by (auto simp: attempt_fails)
    qed
  qed
qed

section \<open>Properties\<close>

text \<open>
  C33. What a run's checker reports is a function of the attempts alone: STARTING before the first result;
  HEALTHY after a success, whatever came before; UNHEALTHY exactly when the latest failures in a row
  are at least \<open>retries\<close> and the program had been healthy before or its \<open>start_period\<close> is over; otherwise
  a failing program keeps the verdict it had. When the checks are stopped it reports nothing.
\<close>

theorem probeLoop_health:
  assumes "newProbe check \<noteq> None" and "1 \<le> hc_Retries check" and "sorted (map at_time (taken attempts))"
  shows "GetHealth (probeLoop check now attempts (startHealthChecks ctx (Some check) p)) =
      health_of check (now + hc_StartPeriod check) (taken attempts) \<and>
    GetHealth (stopHealthChecks (probeLoop check now attempts (startHealthChecks ctx (Some check) p))) = HealthNone \<and>
    ctx \<in> h_canceled (stopHealthChecks (probeLoop check now attempts (startHealthChecks ctx (Some check) p)))"
proof -
  let ?p = "startHealthChecks ctx (Some check) p"
  have start: "GetHealth ?p = HealthStarting" "h_cancel ?p = Some ctx"
    using assms(1) by (auto simp: startHealthChecks_def)
  have keeps: "h_cancel (checked (fold (attempt_step check g) h s)) = h_cancel (checked s)" for g h s
    by (induction h arbitrary: s) (auto simp: attempt_step_def Let_def split: option.splits)
  have "GetHealth (probeLoop check now attempts ?p) = health_of check (now + hc_StartPeriod check) (taken attempts)"
    using fold_attempts [OF assms(2,3)] start(1) by (simp add: probeLoop_def rounds_taken)
  moreover have "h_cancel (probeLoop check now attempts ?p) = Some ctx"
    using start(2) by (simp add: probeLoop_def rounds_taken keeps)
  ultimately show ?thesis by (simp add: stopHealthChecks_def)
qed

definition sample_probe :: HealthCheck where
  "sample_probe = \<lparr>hc_Exec = ''pg_isready'', hc_TCP = [], hc_HTTP = [], hc_Interval = 10, hc_Timeout = 5,
     hc_StartPeriod = 30, hc_Retries = 2\<rparr>"

definition sample_attempt :: "int \<Rightarrow> probe_error option \<Rightarrow> attempt" where
  "sample_attempt t e = \<lparr>at_time = t, at_error = e, at_canceled = False, at_last = False\<rparr>"

definition sample_health :: health_state where
  "sample_health = \<lparr>h_health = Some HealthNone, h_cancel = None, h_canceled = {}, h_reported = []\<rparr>"

text \<open>Two failures inside \<open>start_period\<close>, and a third after it.\<close>

theorem probeLoop_health_witness:
  "GetHealth (probeLoop sample_probe 0 [sample_attempt 1 (Some ProbeTimedOut), sample_attempt 11 (Some ProbeTimedOut)]
     (startHealthChecks 7 (Some sample_probe) sample_health)) = HealthStarting \<and>
   GetHealth (probeLoop sample_probe 0 [sample_attempt 1 (Some ProbeTimedOut), sample_attempt 11 (Some ProbeTimedOut),
     sample_attempt 31 (Some ProbeTimedOut)] (startHealthChecks 7 (Some sample_probe) sample_health)) = HealthUnhealthy"
proof -
  have a: "newProbe sample_probe \<noteq> None" "1 \<le> hc_Retries sample_probe" "hc_Retries sample_probe = 2" "hc_StartPeriod sample_probe = 30"
    by (simp_all add: sample_probe_def newProbe_def)
  have b: "sorted (map at_time (taken [sample_attempt 1 (Some ProbeTimedOut), sample_attempt 11 (Some ProbeTimedOut)]))"
    "sorted (map at_time (taken [sample_attempt 1 (Some ProbeTimedOut), sample_attempt 11 (Some ProbeTimedOut),
       sample_attempt 31 (Some ProbeTimedOut)]))"
    by (simp_all add: sample_attempt_def)
  show ?thesis
    using probeLoop_health [OF a(1,2) b(1), of 0 7 sample_health] probeLoop_health [OF a(1,2) b(2), of 0 7 sample_health]
    by (simp add: health_of_def streak_def succeeded_def sample_attempt_def a(3,4))
qed

end
