(* ===== verification/Reconcile.thy ===== *)
theory Reconcile
  imports Validate Graph Process Health Machine "HOL-Library.Multiset"
begin

text \<open>
  The reconciler: \<^verbatim>\<open>internal/server/reconcile.go\<close>, with the maps of a \<open>Server\<close> that it drives
  (\<^verbatim>\<open>internal/server/server.go\<close>).

  What the server sees of a managed program is the record \<open>program\<close>: the fields its getters read.
  The program's own threads change them at any time, so a pass is a sequence of decisions, one per
  program, each made on the state of that moment (\<open>reconcile_one\<close>); \<open>server_step\<close> interleaves them with
  everything else that happens. Reasons keep the values their texts are made of.
\<close>

section \<open>The server\<close>

datatype DesiredState = DesiredRunning | DesiredStopped

record program =
  pg_proc :: proc
  pg_health :: Health
  pg_pid :: int

definition GetState :: "program \<Rightarrow> State" where
  "GetState p = p_state (pg_proc p)"

definition HasCompleted :: "program \<Rightarrow> bool" where
  "HasCompleted p = p_completed (pg_proc p)"

datatype reason =
    NotConfigured string
  | NotCompleted string State
  | NotRunning string State
  | NotHealthy string Health
  | GaveUp string
  | NotSetToStart string
  | WillNotRunAgain string int

record server =
  sv_config :: Config
  sv_processes :: "(string, program) fmap"
  sv_desired :: "(string, DesiredState) fmap"
  sv_inflight :: "string set"
  sv_blockedReason :: "(string, reason) fmap"
  sv_graph :: graph
  sv_logged :: "(string \<times> reason) list"    \<comment> \<open>the lines ``Not starting yet''\<close>

section \<open>What holds a program back\<close>

definition dependenciesOf :: "server \<Rightarrow> string \<Rightarrow> Dependency list" where
  "dependenciesOf s name =
     (case fmlookup (Programs (sv_config s)) name of None \<Rightarrow> [] | Some prog \<Rightarrow> elems (pc_DependsOn prog))"

text \<open>One round of the loop of \<open>dependenciesSatisfied\<close>; \<open>None\<close> goes on to the next dependency.\<close>

definition dependency_block :: "server \<Rightarrow> Dependency \<Rightarrow> reason option" where
  "dependency_block s dep =
     (case fmlookup (sv_processes s) (dep_Name dep) of
        None \<Rightarrow> Some (NotConfigured (dep_Name dep))
      | Some p \<Rightarrow>
          if dep_Condition dep = ConditionCompleted
          then (if \<not> HasCompleted p then Some (NotCompleted (dep_Name dep) (GetState p)) else None)
          else if GetState p \<noteq> StateRunning then Some (NotRunning (dep_Name dep) (GetState p))
          else if dep_Condition dep = ConditionHealthy \<and> pg_health p \<noteq> HealthHealthy
          then Some (NotHealthy (dep_Name dep) (pg_health p))
          else None)"

fun first_block :: "(Dependency \<Rightarrow> reason option) \<Rightarrow> Dependency list \<Rightarrow> reason option" where
  "first_block f [] = None"
| "first_block f (dep # deps) = (case f dep of None \<Rightarrow> first_block f deps | Some r \<Rightarrow> Some r)"

text \<open>\<open>None\<close> stands for satisfied.\<close>

definition dependenciesSatisfied :: "server \<Rightarrow> string \<Rightarrow> reason option" where
  "dependenciesSatisfied s name = first_block (dependency_block s) (dependenciesOf s name)"

definition noteBlocked :: "string \<Rightarrow> reason option \<Rightarrow> server \<Rightarrow> server" where
  "noteBlocked name r s =
     (let changed = (fmlookup (sv_blockedReason s) name \<noteq> r);
          s1 = s\<lparr>sv_blockedReason := (case r of None \<Rightarrow> fmdrop name (sv_blockedReason s)
                   | Some x \<Rightarrow> fmupd name x (sv_blockedReason s))\<rparr>
      in case r of
           None \<Rightarrow> s1
         | Some x \<Rightarrow> if changed then s1\<lparr>sv_logged := sv_logged s1 @ [(name, x)]\<rparr> else s1)"

section \<open>A pass\<close>

datatype action = StartAction | StopAction

definition runAction :: "string \<Rightarrow> server \<Rightarrow> server" where
  "runAction name s = s\<lparr>sv_inflight := insert name (sv_inflight s)\<rparr>"

text \<open>The end of an action, whether it failed or not.\<close>

definition action_done :: "string \<Rightarrow> server \<Rightarrow> server" where
  "action_done name s = s\<lparr>sv_inflight := sv_inflight s - {name}\<rparr>"

definition reconcile_one :: "string \<Rightarrow> server \<Rightarrow> action option \<times> server" where
  "reconcile_one name s =
     (let desired = fmlookup (sv_desired s) name
      in case fmlookup (sv_processes s) name of
           None \<Rightarrow> (None, s)
         | Some p \<Rightarrow>
             if name \<in> sv_inflight s then (None, s)
             else if desired = Some DesiredRunning \<and> GetState p = StateStopped
             then (case dependenciesSatisfied s name of
                     Some r \<Rightarrow> (None, noteBlocked name (Some r) s)
                   | None \<Rightarrow> (Some StartAction, runAction name (noteBlocked name None s)))
             else if desired = Some DesiredStopped \<and> GetState p \<noteq> StateStopped \<and> GetState p \<noteq> StateStopping
             then (Some StopAction, runAction name s)
             else (None, s))"

text \<open>
  The order of a pass. \<open>sort.Slice\<close> with a comparison that orders all names strictly has one result, and so
  insertion stands for it.
\<close>

definition name_less :: "server \<Rightarrow> string \<Rightarrow> string \<Rightarrow> bool" where
  "name_less s a b =
     (case (fmlookup (Programs (sv_config s)) a, fmlookup (Programs (sv_config s)) b) of
        (Some x, Some y) \<Rightarrow> if pc_Priority x \<noteq> pc_Priority y then pc_Priority x < pc_Priority y else a < b
      | _ \<Rightarrow> a < b)"

fun insert_by :: "('a \<Rightarrow> 'a \<Rightarrow> bool) \<Rightarrow> 'a \<Rightarrow> 'a list \<Rightarrow> 'a list" where
  "insert_by lt x [] = [x]"
| "insert_by lt x (y # ys) = (if lt y x then y # insert_by lt x ys else x # y # ys)"

definition sort_Slice :: "('a \<Rightarrow> 'a \<Rightarrow> bool) \<Rightarrow> 'a list \<Rightarrow> 'a list" where
  "sort_Slice lt xs = foldr (insert_by lt) xs []"

definition programNames :: "string list \<Rightarrow> server \<Rightarrow> string list" where
  "programNames ord s = sort_Slice (name_less s) ord"

fun reconcile_names :: "string list \<Rightarrow> server \<Rightarrow> (string \<times> action) list \<times> server" where
  "reconcile_names [] s = ([], s)"
| "reconcile_names (name # names) s =
     (case reconcile_one name s of (act, s1) \<Rightarrow>
        (case reconcile_names names s1 of (acts, s2) \<Rightarrow>
          ((case act of None \<Rightarrow> acts | Some a \<Rightarrow> (name, a) # acts), s2)))"

definition reconcile :: "string list \<Rightarrow> server \<Rightarrow> (string \<times> action) list \<times> server" where
  "reconcile ord s = reconcile_names (programNames ord s) s"

section \<open>What a caller changes\<close>

datatype server_error =
    ProcessNotFound string
  | AlreadyRunning string
  | CannotStart string reason
  | ShuttingDown
  | NotRunningBecause string reason
  | TimedOut string State

definition setDesired :: "string \<Rightarrow> DesiredState \<Rightarrow> server \<Rightarrow> server_error + server" where
  "setDesired name desired s =
     (if fmlookup (sv_processes s) name = None then Inl (ProcessNotFound name)
      else let s1 = s\<lparr>sv_desired := fmupd name desired (sv_desired s)\<rparr>
           in Inr (if desired = DesiredStopped then s1\<lparr>sv_blockedReason := fmdrop name (sv_blockedReason s1)\<rparr> else s1))"

definition wantsToRun :: "server \<Rightarrow> string \<Rightarrow> bool" where
  "wantsToRun s name \<longleftrightarrow> fmlookup (sv_desired s) name = Some DesiredRunning"

definition autorestartPolicy :: "server \<Rightarrow> string \<Rightarrow> RestartPolicy option" where
  "autorestartPolicy s name = map_option pc_Autorestart (fmlookup (Programs (sv_config s)) name)"

definition exitedForGood :: "server \<Rightarrow> string \<Rightarrow> State \<Rightarrow> bool" where
  "exitedForGood s name st \<longleftrightarrow> st = StateExited \<and> autorestartPolicy s name = Some RestartNever"

definition awaitTimeoutError :: "server \<Rightarrow> string \<Rightarrow> State \<Rightarrow> server_error" where
  "awaitTimeoutError s name st =
     (case dependenciesSatisfied s name of Some r \<Rightarrow> NotRunningBecause name r | None \<Rightarrow> TimedOut name st)"

section \<open>The decision of the reconciler\<close>

definition dependency_met :: "server \<Rightarrow> Dependency \<Rightarrow> bool" where
  "dependency_met s dep \<longleftrightarrow> (\<exists>p. fmlookup (sv_processes s) (dep_Name dep) = Some p \<and>
     (case dep_Condition dep of
        ConditionCompleted \<Rightarrow> HasCompleted p
      | ConditionStarted \<Rightarrow> GetState p = StateRunning
      | ConditionHealthy \<Rightarrow> GetState p = StateRunning \<and> pg_health p = HealthHealthy))"

lemma dependency_block_None: "dependency_block s dep = None \<longleftrightarrow> dependency_met s dep"
  by (auto simp: dependency_block_def dependency_met_def split: option.splits DependencyCondition.splits)

lemma first_block_None: "first_block f deps = None \<longleftrightarrow> (\<forall>dep \<in> set deps. f dep = None)"
  by (induction deps) (auto split: option.splits)

lemma dependenciesSatisfied_None:
  "dependenciesSatisfied s name = None \<longleftrightarrow> (\<forall>dep \<in> set (dependenciesOf s name). dependency_met s dep)"
  by (simp add: dependenciesSatisfied_def first_block_None dependency_block_None)

lemma noteBlocked_simps [simp]:
  "sv_config (noteBlocked name r s) = sv_config s" "sv_processes (noteBlocked name r s) = sv_processes s"
  "sv_desired (noteBlocked name r s) = sv_desired s" "sv_inflight (noteBlocked name r s) = sv_inflight s"
  "fmlookup (sv_blockedReason (noteBlocked name r s)) = (fmlookup (sv_blockedReason s))(name := r)"
  by (auto simp: noteBlocked_def Let_def split: option.splits)

lemma runAction_simps [simp]:
  "sv_config (runAction name s) = sv_config s" "sv_processes (runAction name s) = sv_processes s"
  "sv_desired (runAction name s) = sv_desired s" "sv_inflight (runAction name s) = insert name (sv_inflight s)"
  "sv_blockedReason (runAction name s) = sv_blockedReason s" "sv_logged (runAction name s) = sv_logged s"
  by (simp_all add: runAction_def)

lemma reconcile_one_frame [simp]:
  "sv_config (snd (reconcile_one name s)) = sv_config s" "sv_processes (snd (reconcile_one name s)) = sv_processes s"
  "sv_desired (snd (reconcile_one name s)) = sv_desired s"
  by (simp_all add: reconcile_one_def Let_def split: option.splits)

definition may_start :: "server \<Rightarrow> string \<Rightarrow> bool" where
  "may_start s name \<longleftrightarrow> name \<notin> sv_inflight s \<and> fmlookup (sv_desired s) name = Some DesiredRunning \<and>
     (\<exists>p. fmlookup (sv_processes s) name = Some p \<and> GetState p = StateStopped) \<and>
     (\<forall>dep \<in> set (dependenciesOf s name). dependency_met s dep)"

definition must_stop :: "server \<Rightarrow> string \<Rightarrow> bool" where
  "must_stop s name \<longleftrightarrow> name \<notin> sv_inflight s \<and> fmlookup (sv_desired s) name = Some DesiredStopped \<and>
     (\<exists>p. fmlookup (sv_processes s) name = Some p \<and> GetState p \<noteq> StateStopped \<and> GetState p \<noteq> StateStopping)"

lemma reconcile_one_action:
  "fst (reconcile_one name s) = (if may_start s name then Some StartAction
     else if must_stop s name then Some StopAction else None)"
  using dependenciesSatisfied_None [of s name]
  by (auto simp: reconcile_one_def may_start_def must_stop_def Let_def split: option.splits)

lemma reconcile_one_inflight:
  "sv_inflight (snd (reconcile_one name s)) =
     (if fst (reconcile_one name s) = None then sv_inflight s else insert name (sv_inflight s))"
  by (simp add: reconcile_one_def Let_def split: option.splits)

section \<open>The order of a pass\<close>

datatype rank = Rank (rank_priority: int) (rank_name: string)

instantiation rank :: linorder
begin

definition less_rank :: "rank \<Rightarrow> rank \<Rightarrow> bool" where
  "a < b \<longleftrightarrow> rank_priority a < rank_priority b \<or> rank_priority a = rank_priority b \<and> rank_name a < rank_name b"

definition less_eq_rank :: "rank \<Rightarrow> rank \<Rightarrow> bool" where
  "a \<le> b \<longleftrightarrow> rank_priority a < rank_priority b \<or> rank_priority a = rank_priority b \<and> rank_name a \<le> rank_name b"

instance
proof
  fix x y z :: rank
  show "(x < y) = (x \<le> y \<and> \<not> y \<le> x)" by (auto simp: less_rank_def less_eq_rank_def)
  show "x \<le> x" by (simp add: less_eq_rank_def)
  show "x \<le> y \<Longrightarrow> y \<le> z \<Longrightarrow> x \<le> z" by (auto simp: less_eq_rank_def)
  show "x \<le> y \<Longrightarrow> y \<le> x \<Longrightarrow> x = y" by (auto simp: less_eq_rank_def rank.expand)
  show "x \<le> y \<or> y \<le> x" by (auto simp: less_eq_rank_def)
qed

end

definition rank_of :: "server \<Rightarrow> string \<Rightarrow> rank" where
  "rank_of s name =
     Rank (case fmlookup (Programs (sv_config s)) name of None \<Rightarrow> 0 | Some p \<Rightarrow> pc_Priority p) name"

definition configured :: "server \<Rightarrow> bool" where
  "configured s \<longleftrightarrow> fmdom' (sv_processes s) \<subseteq> fmdom' (Programs (sv_config s))"

lemma name_less_rank:
  "a \<in> fmdom' (Programs (sv_config s)) \<Longrightarrow> b \<in> fmdom' (Programs (sv_config s)) \<Longrightarrow>
     name_less s a b \<longleftrightarrow> rank_of s a < rank_of s b"
  by (auto simp: name_less_def rank_of_def less_rank_def in_dom_iff)

lemma rank_inj: "rank_of s a = rank_of s b \<longleftrightarrow> a = b"
  by (auto simp: rank_of_def)

lemma set_insert_by [simp]: "set (insert_by lt x xs) = insert x (set xs)"
  by (induction xs) auto

lemma set_sort_Slice [simp]: "set (sort_Slice lt xs) = set xs"
  unfolding sort_Slice_def by (induction xs) auto

lemma insert_by_sorted:
  assumes "\<And>a b. a \<in> insert x (set xs) \<Longrightarrow> b \<in> insert x (set xs) \<Longrightarrow> lt a b \<longleftrightarrow> f a < (f b :: 'k::linorder)"
    and "x \<notin> set xs" and "sorted_wrt (<) (map f xs)" and "inj_on f (insert x (set xs))"
  shows "sorted_wrt (<) (map f (insert_by lt x xs))"
  using assms
proof (induction xs)
  case (Cons y ys)
  have eq: "lt y x \<longleftrightarrow> f y < f x" using Cons.prems(1) by simp
  show ?case
  proof (cases "f y < f x")
    case True
    have "sorted_wrt (<) (map f (insert_by lt x ys))"
      by (rule Cons.IH) (use Cons.prems in \<open>auto simp: inj_on_def\<close>)
    with True eq Cons.prems(3) show ?thesis by auto
  next
    case False
    have "f x \<noteq> f y" using Cons.prems(2,4) by (auto simp: inj_on_def)
    with False have "f x < f y" by simp
    with eq False Cons.prems(3) show ?thesis by auto
  qed
qed simp

lemma sort_Slice_sorted:
  assumes "\<And>a b. a \<in> set xs \<Longrightarrow> b \<in> set xs \<Longrightarrow> lt a b \<longleftrightarrow> f a < (f b :: 'k::linorder)"
    and "distinct xs" and "inj_on f (set xs)"
  shows "sorted_wrt (<) (map f (sort_Slice lt xs))"
  using assms
proof (induction xs)
  case (Cons x xs)
  have IH: "sorted_wrt (<) (map f (foldr (insert_by lt) xs []))"
    using Cons unfolding sort_Slice_def by (auto simp: inj_on_def)
  have "set (foldr (insert_by lt) xs []) = set xs"
    using set_sort_Slice [of lt xs] by (simp add: sort_Slice_def)
  then show ?case
    unfolding sort_Slice_def foldr.simps comp_def
    by (intro insert_by_sorted) (use Cons.prems IH in auto)
qed (simp add: sort_Slice_def)

lemma sorted_names_unique:
  assumes "set xs = set ys" and "sorted_wrt (<) (map f xs)" and "sorted_wrt (<) (map f ys)"
    and "inj_on (f :: 'a \<Rightarrow> 'k::linorder) (set xs)"
  shows "xs = ys"
proof -
  have "map f xs = map f ys"
    using assms(1-3) by (metis list.set_map sorted_distinct_set_unique strict_sorted_iff)
  with assms(1,4) show ?thesis by (metis inj_on_Un map_inj_on sup.idem)
qed

lemma programNames_sorted:
  assumes "ranges ord (sv_processes s)" and "configured s"
  shows "set (programNames ord s) = fmdom' (sv_processes s) \<and> sorted_wrt (<) (map (rank_of s) (programNames ord s))"
proof -
  have "sorted_wrt (<) (map (rank_of s) (sort_Slice (name_less s) ord))"
    by (rule sort_Slice_sorted)
      (use assms in \<open>auto simp: ranges_def configured_def inj_on_def rank_inj name_less_rank [OF subsetD subsetD]\<close>)
  with assms(1) show ?thesis by (simp add: programNames_def ranges_def)
qed

lemma sorted_wrt_ranks_distinct: "sorted_wrt (<) (map (rank_of s) names) \<Longrightarrow> distinct names"
  by (metis distinct_map strict_sorted_iff)

section \<open>What a pass does\<close>

lemma reconcile_one_local:
  assumes "other \<noteq> name"
  shows "reconcile_one name s = (act, s') \<Longrightarrow> other \<in> sv_inflight s' \<longleftrightarrow> other \<in> sv_inflight s"
  using assms by (auto simp: reconcile_one_def Let_def split: option.splits if_splits)

lemma may_start_cong:
  assumes "sv_config s' = sv_config s" "sv_processes s' = sv_processes s" "sv_desired s' = sv_desired s"
    and "name \<in> sv_inflight s' \<longleftrightarrow> name \<in> sv_inflight s"
  shows "may_start s' name = may_start s name" "must_stop s' name = must_stop s name"
  using assms by (simp_all add: may_start_def must_stop_def dependenciesOf_def dependency_met_def)

lemma reconcile_names_frame [simp]:
  "sv_config (snd (reconcile_names names s)) = sv_config s" "sv_processes (snd (reconcile_names names s)) = sv_processes s"
  "sv_desired (snd (reconcile_names names s)) = sv_desired s"
  by (induction names arbitrary: s) (simp_all add: split_beta)

definition due :: "server \<Rightarrow> string \<Rightarrow> action option" where
  "due s name = (if may_start s name then Some StartAction else if must_stop s name then Some StopAction else None)"

lemma reconcile_names_actions:
  "distinct names \<Longrightarrow> fst (reconcile_names names s) =
     map (\<lambda>n. (n, the (due s n))) (filter (\<lambda>n. due s n \<noteq> None) names) \<and>
   sv_inflight (snd (reconcile_names names s)) = sv_inflight s \<union> {n \<in> set names. due s n \<noteq> None}"
proof (induction names arbitrary: s)
  case (Cons name names)
  obtain act s1 where one: "reconcile_one name s = (act, s1)" by fastforce
  then have act: "act = due s name" using reconcile_one_action [of name s] by (simp add: due_def)
  have frame: "sv_config s1 = sv_config s" "sv_processes s1 = sv_processes s" "sv_desired s1 = sv_desired s"
    using reconcile_one_frame [of name s] one by simp_all
  have same: "due s1 n = due s n" if "n \<noteq> name" for n
    using may_start_cong [OF frame, of n] reconcile_one_local [OF that one] by (simp add: due_def)
  have infl: "sv_inflight s1 = (if act = None then sv_inflight s else insert name (sv_inflight s))"
    using reconcile_one_inflight [of name s] one by simp
  have IH: "fst (reconcile_names names s1) = map (\<lambda>n. (n, the (due s1 n))) (filter (\<lambda>n. due s1 n \<noteq> None) names)"
    "sv_inflight (snd (reconcile_names names s1)) = sv_inflight s1 \<union> {n \<in> set names. due s1 n \<noteq> None}"
    using Cons by simp_all
  have neq: "n \<noteq> name" if "n \<in> set names" for n using Cons.prems that by auto
  have "filter (\<lambda>n. due s1 n \<noteq> None) names = filter (\<lambda>n. due s n \<noteq> None) names"
    using same neq by (auto intro: filter_cong)
  moreover have "{n \<in> set names. due s1 n \<noteq> None} = {n \<in> set names. due s n \<noteq> None}"
    using same neq by auto
  ultimately show ?case
    using one act IH infl same neq by (auto split: prod.splits option.splits)
qed simp

lemma due_cong:
  assumes "sv_config s' = sv_config s" "sv_processes s' = sv_processes s" "sv_desired s' = sv_desired s"
    and "n \<in> sv_inflight s' \<longleftrightarrow> n \<in> sv_inflight s"
  shows "due s' n = due s n"
  using may_start_cong [OF assms] by (simp add: due_def)

lemma due_busy: "n \<in> sv_inflight s \<Longrightarrow> due s n = None"
  by (simp add: due_def may_start_def must_stop_def)

lemma due_programs: "due s n \<noteq> None \<Longrightarrow> n \<in> fmdom' (sv_processes s)"
  by (auto simp: due_def may_start_def must_stop_def in_dom_iff split: if_splits)

lemma due_action:
  "due s n = Some StartAction \<longleftrightarrow> may_start s n" "due s n = Some StopAction \<longleftrightarrow> must_stop s n"
  by (auto simp: due_def may_start_def must_stop_def)

text \<open>What has been noted is not logged again.\<close>

definition noted :: "server \<Rightarrow> string \<Rightarrow> bool" where
  "noted s n \<longleftrightarrow> (case fst (reconcile_one n s) of Some a \<Rightarrow> True
     | None \<Rightarrow> (\<forall>r. n \<notin> sv_inflight s \<and> fmlookup (sv_desired s) n = Some DesiredRunning \<and>
         (\<exists>p. fmlookup (sv_processes s) n = Some p \<and> GetState p = StateStopped) \<and>
         dependenciesSatisfied s n = Some r \<longrightarrow> fmlookup (sv_blockedReason s) n = Some r))"

lemma satisfied_cong:
  assumes "sv_config s' = sv_config s" "sv_processes s' = sv_processes s"
  shows "dependenciesSatisfied s' n = dependenciesSatisfied s n"
proof -
  have "dependency_block s' = dependency_block s" using assms by (intro ext) (simp add: dependency_block_def)
  then show ?thesis using assms by (simp add: dependenciesSatisfied_def dependenciesOf_def)
qed

lemma noted_silent: "noted s n \<Longrightarrow> sv_logged (snd (reconcile_one n s)) = sv_logged s"
  by (auto simp: noted_def reconcile_one_def noteBlocked_def Let_def split: option.splits if_splits)

lemma reconcile_one_notes: "noted (snd (reconcile_one n s)) n"
proof -
  obtain act s1 where one: "reconcile_one n s = (act, s1)" by fastforce
  have frame: "sv_config s1 = sv_config s" "sv_processes s1 = sv_processes s" "sv_desired s1 = sv_desired s"
    using reconcile_one_frame [of n s] one by simp_all
  note sat = satisfied_cong [OF frame(1,2)]
  show ?thesis
    using one unfolding noted_def
    by (auto simp: frame sat split: option.splits)
      (auto simp: reconcile_one_def Let_def split: option.splits if_splits)
qed

lemma noted_local:
  assumes "other \<noteq> n"
  shows "noted (snd (reconcile_one n s)) other \<longleftrightarrow> noted s other"
proof -
  obtain act s1 where one: "reconcile_one n s = (act, s1)" by fastforce
  have frame: "sv_config s1 = sv_config s" "sv_processes s1 = sv_processes s" "sv_desired s1 = sv_desired s"
    using reconcile_one_frame [of n s] one by simp_all
  have infl: "other \<in> sv_inflight s1 \<longleftrightarrow> other \<in> sv_inflight s" using reconcile_one_local [OF assms one] .
  have "fmlookup (sv_blockedReason s1) other = fmlookup (sv_blockedReason s) other"
    using one assms by (auto simp: reconcile_one_def Let_def split: option.splits if_splits)
  moreover have "fst (reconcile_one other s1) = fst (reconcile_one other s)"
    by (simp add: reconcile_one_action may_start_cong [OF frame infl])
  ultimately show ?thesis using frame infl
    by (cases "fst (reconcile_one other s)") (simp_all add: noted_def one satisfied_cong [OF frame(1,2)])
qed

lemma reconcile_names_keeps_noted: "other \<notin> set names \<Longrightarrow> noted (snd (reconcile_names names s)) other = noted s other"
proof (induction names arbitrary: s)
  case (Cons n names)
  have "noted (snd (reconcile_names names (snd (reconcile_one n s)))) other = noted (snd (reconcile_one n s)) other"
    using Cons by simp
  then show ?case using noted_local [of other n s] Cons.prems by (simp add: split_beta)
qed simp

lemma reconcile_names_notes: "distinct names \<Longrightarrow> n \<in> set names \<Longrightarrow> noted (snd (reconcile_names names s)) n"
proof (induction names arbitrary: s)
  case (Cons m names)
  show ?case
  proof (cases "n = m")
    case True
    with Cons.prems have "n \<notin> set names" by simp
    from reconcile_names_keeps_noted [OF this] reconcile_one_notes [of n s] True show ?thesis
      by (simp add: split_beta)
  next
    case False
    then show ?thesis using Cons by (simp add: split_beta)
  qed
qed simp

lemma reconcile_names_silent: "distinct names \<Longrightarrow> \<forall>n \<in> set names. noted s n \<Longrightarrow> sv_logged (snd (reconcile_names names s)) = sv_logged s"
proof (induction names arbitrary: s)
  case (Cons n names)
  have "noted (snd (reconcile_one n s)) m" if "m \<in> set names" for m
    using noted_local [of m n s] Cons.prems that by auto
  then have "sv_logged (snd (reconcile_names names (snd (reconcile_one n s)))) = sv_logged (snd (reconcile_one n s))"
    using Cons by simp
  then show ?case using noted_silent [of s n] Cons.prems by (simp add: split_beta)
qed simp

text \<open>
  C3. A pass starts exactly the programs that are wanted, STOPPED, without an action in flight and whose
  dependencies have all reached their conditions, and stops exactly those that are not wanted and
  neither STOPPED nor STOPPING; it acts on them by priority, names breaking ties, whatever the order of
  the map; and a second pass on an unchanged world does nothing and reports nothing again.
\<close>

theorem reconcile_pass:
  assumes "ranges ord (sv_processes s)" and "configured s"
  shows "((n, StartAction) \<in> set (fst (reconcile ord s)) \<longleftrightarrow> may_start s n) \<and>
    ((n, StopAction) \<in> set (fst (reconcile ord s)) \<longleftrightarrow> must_stop s n) \<and>
    sorted_wrt (<) (map (rank_of s) (map fst (fst (reconcile ord s)))) \<and>
    sv_inflight (snd (reconcile ord s)) = sv_inflight s \<union> fst ` set (fst (reconcile ord s)) \<and>
    fst (reconcile ord (snd (reconcile ord s))) = [] \<and>
    sv_logged (snd (reconcile ord (snd (reconcile ord s)))) = sv_logged (snd (reconcile ord s))"
proof -
  let ?names = "programNames ord s"
  let ?s1 = "snd (reconcile ord s)"
  have names: "set ?names = fmdom' (sv_processes s)" "sorted_wrt (<) (map (rank_of s) ?names)" "distinct ?names"
    using programNames_sorted [OF assms] sorted_wrt_ranks_distinct by blast+
  have acts: "fst (reconcile ord s) = map (\<lambda>n. (n, the (due s n))) (filter (\<lambda>n. due s n \<noteq> None) ?names)"
    and infl: "sv_inflight ?s1 = sv_inflight s \<union> {n \<in> set ?names. due s n \<noteq> None}"
    using reconcile_names_actions [OF names(3), of s] by (simp_all add: reconcile_def)
  have frame: "sv_config ?s1 = sv_config s" "sv_processes ?s1 = sv_processes s" "sv_desired ?s1 = sv_desired s"
    by (simp_all add: reconcile_def)
  have names1: "programNames ord ?s1 = ?names"
  proof -
    have "name_less ?s1 = name_less s" by (intro ext) (simp add: name_less_def frame)
    then show ?thesis by (simp add: programNames_def)
  qed
  have "(n, a) \<in> set (fst (reconcile ord s)) \<longleftrightarrow> due s n = Some a" for a
    using due_programs [of s n] names(1) by (auto simp: acts)
  moreover have "map fst (fst (reconcile ord s)) = filter (\<lambda>n. due s n \<noteq> None) ?names"
    by (simp add: acts comp_def)
  then have "sorted_wrt (<) (map (rank_of s) (map fst (fst (reconcile ord s))))"
    using names(2) by (simp add: sorted_wrt_map sorted_wrt_filter)
  moreover have "sv_inflight ?s1 = sv_inflight s \<union> fst ` set (fst (reconcile ord s))"
    by (auto simp: infl acts image_iff)
  moreover have quiet: "due ?s1 m = None" for m
  proof (cases "due s m = None")
    case True
    show ?thesis
    proof (cases "m \<in> sv_inflight ?s1")
      case False
      then have "m \<in> sv_inflight ?s1 \<longleftrightarrow> m \<in> sv_inflight s" using infl by auto
      from due_cong [OF frame this] True show ?thesis by simp
    qed (rule due_busy)
  next
    case False
    then have "m \<in> sv_inflight ?s1" using due_programs [of s m] infl names(1) by auto
    then show ?thesis by (rule due_busy)
  qed
  then have "fst (reconcile ord ?s1) = []"
    using reconcile_names_actions [OF names(3), of ?s1] by (simp add: reconcile_def [of ord ?s1] names1)
  moreover have "sv_logged (snd (reconcile ord ?s1)) = sv_logged ?s1"
    using reconcile_names_silent [OF names(3), of ?s1] reconcile_names_notes [OF names(3)]
    by (simp add: reconcile_def [of ord ?s1] names1) (simp add: reconcile_def)
  ultimately show ?thesis by (simp add: due_action)
qed

definition sample_program_in :: "State \<Rightarrow> program" where
  "sample_program_in st = \<lparr>pg_proc = NewProcess\<lparr>p_state := st\<rparr>, pg_health = HealthNone, pg_pid = 0\<rparr>"

text \<open>A running database and a program that depends on it, both wanted.\<close>

definition sample_server :: server where
  "sample_server = \<lparr>sv_config = sample_validate [(''db'', []), (''api'', [''db''])],
     sv_processes = fmap_of_list [(''db'', sample_program_in StateRunning), (''api'', sample_program_in StateStopped)],
     sv_desired = fmap_of_list [(''db'', DesiredRunning), (''api'', DesiredRunning)],
     sv_inflight = {}, sv_blockedReason = fmempty, sv_graph = sample_graph, sv_logged = []\<rparr>"

lemma sample_server_ok: "ranges [''db'', ''api''] (sv_processes sample_server)" "configured sample_server"
  by (auto simp: ranges_def configured_def sample_server_def sample_validate_def)

theorem reconcile_pass_witness:
  "(''api'', StartAction) \<in> set (fst (reconcile [''db'', ''api''] sample_server)) \<and>
   fst (reconcile [''db'', ''api''] (snd (reconcile [''db'', ''api''] sample_server))) = []"
proof -
  have "may_start sample_server ''api''"
    by (simp add: may_start_def sample_server_def sample_program_in_def GetState_def dependenciesOf_def
        sample_validate_def dependency_met_def NewProcess_def elems_def)
  with reconcile_pass [OF sample_server_ok, of "''api''"] show ?thesis by blast
qed

section \<open>Actions in flight\<close>

text \<open>
  The server with the actions its goroutines are carrying out. Besides the reconciler, a caller may
  change what is wanted, and the programs change on their own.
\<close>

record server_run =
  sr_server :: server
  sr_actions :: "(string \<times> action) multiset"

datatype server_label = Consider string | Complete string action | Observe string program | Ask string DesiredState

inductive server_step :: "server_run \<Rightarrow> server_label \<Rightarrow> server_run \<Rightarrow> bool" where
  consider_name: "reconcile_one name (sr_server r) = (act, s') \<Longrightarrow>
    server_step r (Consider name) \<lparr>sr_server = s', sr_actions = sr_actions r + (case act of None \<Rightarrow> {#} | Some a \<Rightarrow> {#(name, a)#})\<rparr>"
| complete: "(name, a) \<in># sr_actions r \<Longrightarrow>
    server_step r (Complete name a) \<lparr>sr_server = action_done name (sr_server r), sr_actions = sr_actions r - {#(name, a)#}\<rparr>"
| observe: "fmlookup (sv_processes (sr_server r)) name \<noteq> None \<Longrightarrow>
    server_step r (Observe name p) (r\<lparr>sr_server := (sr_server r)\<lparr>sv_processes := fmupd name p (sv_processes (sr_server r))\<rparr>\<rparr>)"
| ask: "setDesired name desired (sr_server r) = Inr s' \<Longrightarrow> server_step r (Ask name desired) (r\<lparr>sr_server := s'\<rparr>)"

inductive_cases server_stepE: "server_step r l r'"
inductive_simps complete_iff: "server_step r (Complete name a) r'"

definition actions_of :: "string \<Rightarrow> server_run \<Rightarrow> nat" where
  "actions_of name r = size (filter_mset (\<lambda>x. fst x = name) (sr_actions r))"

definition one_action :: "server_run \<Rightarrow> bool" where
  "one_action r \<longleftrightarrow> (\<forall>name. actions_of name r = (if name \<in> sv_inflight (sr_server r) then 1 else 0))"

lemma reconcile_one_busy: "name \<in> sv_inflight s \<Longrightarrow> fst (reconcile_one name s) = None"
  by (simp add: reconcile_one_action may_start_def must_stop_def)

lemma server_step_one_action: "one_action r \<Longrightarrow> server_step r l r' \<Longrightarrow> one_action r'"
proof (erule server_stepE, goal_cases)
  case (1 name act s')
  have "sv_inflight s' = (if act = None then sv_inflight (sr_server r) else insert name (sv_inflight (sr_server r)))"
    using reconcile_one_inflight [of name "sr_server r"] 1(4) by simp
  moreover have "name \<notin> sv_inflight (sr_server r)" if "act \<noteq> None"
    using reconcile_one_busy [of name "sr_server r"] that 1(4) by auto
  ultimately show ?case using 1 by (auto simp: one_action_def actions_of_def split: option.splits)
next
  case (2 name a)
  show ?case unfolding one_action_def
  proof
    fix n
    have "actions_of n r' = actions_of n r - (if n = name then 1 else 0)"
      using 2(3,4) by (auto simp: actions_of_def size_Diff_singleton_if)
    then show "actions_of n r' = (if n \<in> sv_inflight (sr_server r') then 1 else 0)"
      using 2(1,3) by (auto simp: one_action_def action_done_def)
  qed
qed (auto simp: one_action_def actions_of_def setDesired_def Let_def split: if_splits)

definition idle_server :: "server_run \<Rightarrow> bool" where
  "idle_server r \<longleftrightarrow> sr_actions r = {#} \<and> sv_inflight (sr_server r) = {}"

lemma idle_one_action: "idle_server r \<Longrightarrow> one_action r"
  by (simp add: idle_server_def one_action_def actions_of_def)

interpretation reconciler: inductive_invariant idle_server server_step one_action
  by unfold_locales (auto simp: idle_one_action server_step_one_action)



end
