(* ===== verification/Waiting.thy ===== *)
theory Waiting
  imports Reconcile
begin

text \<open>
  How a request waits for the reconciler: \<open>blockedIndefinitely\<close>, \<open>awaitState\<close> (\<^verbatim>\<open>internal/server/reconcile.go\<close>)
  and the requests built on them, \<open>StartProcess\<close>, \<open>StopProcess\<close> and \<open>RestartProcess\<close>
  (\<^verbatim>\<open>internal/server/server.go\<close>).

  A wait looks at the world again and again; what it finds each time, and what ends the pause after it,
  is a list of polls, the input of the model.
\<close>

section \<open>A dependency that will not come up\<close>

text \<open>What the loop of \<open>blockedByDependency\<close> makes of one dependency.\<close>

datatype finding = Final reason | Fine | Deeper

definition look_at :: "server \<Rightarrow> Dependency \<Rightarrow> finding" where
  "look_at s dep =
     (let name = dep_Name dep; waitsForCompletion = (dep_Condition dep = ConditionCompleted)
      in case fmlookup (sv_processes s) name of
           None \<Rightarrow> Final (NotConfigured name)
         | Some p \<Rightarrow>
             if waitsForCompletion \<and> HasCompleted p then Fine
             else if GetState p = StateFatal then Final (GaveUp name)
             else if fmlookup (sv_desired s) name = Some DesiredStopped \<and> IsStopped (GetState p) then Final (NotSetToStart name)
             else if waitsForCompletion \<and> exitedForGood s name (GetState p)
             then Final (WillNotRunAgain name (p_exitCode (pg_proc p)))
             else if GetState p = StateRunning then Fine
             else Deeper)"

function blockedByDependency :: "server \<Rightarrow> string \<Rightarrow> string set \<Rightarrow> reason option \<times> string set"
  and blocked_deps :: "server \<Rightarrow> Dependency list \<Rightarrow> string set \<Rightarrow> reason option \<times> string set" where
  "blockedByDependency s name seen =
     (if name \<in> seen then (None, seen) else blocked_deps s (dependenciesOf s name) (insert name seen))"
| "blocked_deps s [] seen = (None, seen)"
| "blocked_deps s (dep # deps) seen =
     (case look_at s dep of
        Final r \<Rightarrow> (Some r, seen)
      | Fine \<Rightarrow> blocked_deps s deps seen
      | Deeper \<Rightarrow>
          (let res = blockedByDependency s (dep_Name dep) seen
           in case fst res of Some r \<Rightarrow> (Some r, snd res) | None \<Rightarrow> blocked_deps s deps (snd res)))"
  by pat_completeness auto

text \<open>The names seen only grow, so that the programs left to look into become fewer.\<close>

lemma seen_grows:
  "blockedByDependency_blocked_deps_dom (Inl (s, name, seen)) \<Longrightarrow> seen \<subseteq> snd (blockedByDependency s name seen)"
  "blockedByDependency_blocked_deps_dom (Inr (s, deps, seen)) \<Longrightarrow> seen \<subseteq> snd (blocked_deps s deps seen)"
proof (induction s name seen and s deps seen rule: blockedByDependency_blocked_deps.pinduct)
  case (1 s name seen)
  then show ?case by (auto simp: blockedByDependency.psimps)
next
  case (2 s seen)
  then show ?case by (simp add: blocked_deps.psimps)
next
  case (3 s dep deps seen)
  show ?case
  proof (cases "look_at s dep")
    case Deeper
    with 3 show ?thesis
      by (cases "fst (blockedByDependency s (dep_Name dep) seen)") (fastforce simp: blocked_deps.psimps Let_def)+
  qed (use 3 in \<open>simp_all add: blocked_deps.psimps\<close>)
qed

definition blocked_rank :: "(server \<times> string \<times> string set) + (server \<times> Dependency list \<times> string set) \<Rightarrow> nat \<times> nat" where
  "blocked_rank x = (case x of
     Inl (s, name, seen) \<Rightarrow> (unvisited (sv_config s) seen, 1)
   | Inr (s, deps, seen) \<Rightarrow> (unvisited (sv_config s) seen, 2 * length deps))"

termination blockedByDependency
proof (relation "inv_image (less_than <*lex*> less_than) blocked_rank")
  fix s :: server and name and seen :: "string set"
  assume "name \<notin> seen"
  show "(Inr (s, dependenciesOf s name, insert name seen), Inl (s, name, seen)) \<in> inv_image (less_than <*lex*> less_than) blocked_rank"
  proof (cases "name \<in> fmdom' (Programs (sv_config s))")
    case True
    from unvisited_less [OF this \<open>name \<notin> seen\<close>] show ?thesis by (simp add: blocked_rank_def)
  next
    case False
    then have "dependenciesOf s name = []" by (auto simp: dependenciesOf_def in_dom_iff)
    moreover have "unvisited (sv_config s) (insert name seen) \<le> unvisited (sv_config s) seen"
      by (rule unvisited_mono) auto
    ultimately show ?thesis by (auto simp: blocked_rank_def)
  qed
next
  fix s :: server and dep :: Dependency and deps :: "Dependency list" and seen :: "string set" and res
  assume "res = blockedByDependency s (dep_Name dep) seen" "blockedByDependency_blocked_deps_dom (Inl (s, dep_Name dep, seen))"
  then have "unvisited (sv_config s) (snd res) \<le> unvisited (sv_config s) seen"
    using seen_grows(1) by (intro unvisited_mono) simp
  then show "(Inr (s, deps, snd res), Inr (s, dep # deps, seen)) \<in> inv_image (less_than <*lex*> less_than) blocked_rank"
    by (auto simp: blocked_rank_def)
qed (auto simp: blocked_rank_def)

definition blockedIndefinitely :: "server \<Rightarrow> string \<Rightarrow> reason option" where
  "blockedIndefinitely s name = fst (blockedByDependency s name {})"

section \<open>Requests\<close>

datatype wake = NextTick | Shutdown | Deadline

text \<open>One poll: the program waited for, the rest of the world, and what ends the pause that follows.\<close>

record poll =
  poll_program :: program
  poll_server :: server
  poll_wake :: wake

text \<open>\<open>None\<close>: still waiting at the end of the list.\<close>

fun await_polls :: "string \<Rightarrow> (program \<Rightarrow> bool) \<Rightarrow> poll list \<Rightarrow> (server_error + unit) option" where
  "await_polls name arrived [] = None"
| "await_polls name arrived (q # qs) =
     (if arrived (poll_program q) then Some (Inr ())
      else case (if wantsToRun (poll_server q) name then blockedIndefinitely (poll_server q) name else None) of
        Some r \<Rightarrow> Some (Inl (CannotStart name r))
      | None \<Rightarrow>
          (case poll_wake q of
             NextTick \<Rightarrow> await_polls name arrived qs
           | Shutdown \<Rightarrow> Some (Inl ShuttingDown)
           | Deadline \<Rightarrow> Some (Inl (awaitTimeoutError (poll_server q) name (GetState (poll_program q))))))"

definition awaitState :: "server \<Rightarrow> string \<Rightarrow> (program \<Rightarrow> bool) \<Rightarrow> poll list \<Rightarrow> (server_error + unit) option" where
  "awaitState s name arrived qs =
     (if fmlookup (sv_processes s) name = None then Some (Inl (ProcessNotFound name)) else await_polls name arrived qs)"

definition came_up :: "program \<Rightarrow> bool" where
  "came_up p \<longleftrightarrow> GetState p = StateRunning \<or> (GetState p = StateExited \<and> HasCompleted p)"

text \<open>
  \<open>StartProcess\<close> until it waits: the answer it gives at once, or whether it resets the program with a call
  of \<open>Stop\<close>, and the server after the request.
\<close>

definition begin_StartProcess :: "string \<Rightarrow> server \<Rightarrow> server_error + (bool \<times> server)" where
  "begin_StartProcess name s =
     (case fmlookup (sv_processes s) name of
        None \<Rightarrow> Inl (ProcessNotFound name)
      | Some p \<Rightarrow>
          if GetState p = StateRunning then Inl (AlreadyRunning name)
          else (case setDesired name DesiredRunning s of
                  Inl e \<Rightarrow> Inl e
                | Inr s' \<Rightarrow> Inr (IsStopped (GetState p), s')))"

definition StartProcess :: "string \<Rightarrow> server \<Rightarrow> poll list \<Rightarrow> (server_error + unit) option" where
  "StartProcess name s qs =
     (case begin_StartProcess name s of Inl e \<Rightarrow> Some (Inl e) | Inr (reset, s') \<Rightarrow> awaitState s' name came_up qs)"

definition StopProcess :: "string \<Rightarrow> server \<Rightarrow> poll list \<Rightarrow> (server_error + unit) option" where
  "StopProcess name s qs =
     (case setDesired name DesiredStopped s of
        Inl e \<Rightarrow> Some (Inl e)
      | Inr s' \<Rightarrow> awaitState s' name (\<lambda>p. GetState p = StateStopped) qs)"

definition RestartProcess :: "string \<Rightarrow> server \<Rightarrow> poll list \<Rightarrow> server \<Rightarrow> poll list \<Rightarrow> (server_error + unit) option" where
  "RestartProcess name s qs s2 qs2 =
     (case StopProcess name s qs of
        None \<Rightarrow> None
      | Some (Inl e) \<Rightarrow> Some (Inl e)
      | Some (Inr _) \<Rightarrow> StartProcess name s2 qs2)"

section \<open>What blockedIndefinitely finds\<close>

text \<open>The programs a program waits for that are themselves still waiting.\<close>

definition waits_on :: "server \<Rightarrow> (string \<times> string) set" where
  "waits_on s = {(n, dep_Name dep) | n dep. dep \<in> set (dependenciesOf s n) \<and> look_at s dep = Deeper}"

definition stuck :: "server \<Rightarrow> string \<Rightarrow> reason \<Rightarrow> bool" where
  "stuck s n r \<longleftrightarrow> (\<exists>dep \<in> set (dependenciesOf s n). look_at s dep = Final r)"

lemma blocked_sound:
  "fst (blockedByDependency s name seen) = Some r \<Longrightarrow> \<exists>m. (name, m) \<in> (waits_on s)\<^sup>* \<and> stuck s m r"
  "fst (blocked_deps s deps seen) = Some r \<Longrightarrow> set deps \<subseteq> set (dependenciesOf s name) \<Longrightarrow>
     \<exists>m. (name, m) \<in> (waits_on s)\<^sup>* \<and> stuck s m r"
proof (induction s name seen and s deps seen arbitrary: and name rule: blockedByDependency_blocked_deps.induct)
  case (1 s name seen)
  then show ?case by (auto split: if_splits)
next
  case (2 s seen)
  then show ?case by simp
next
  case (3 s dep deps seen)
  show ?case
  proof (cases "look_at s dep")
    case (Final x)
    with 3 show ?thesis by (auto simp: stuck_def intro!: exI [of _ name])
  next
    case Fine
    with 3 show ?thesis by simp
  next
    case Deeper
    show ?thesis
    proof (cases "fst (blockedByDependency s (dep_Name dep) seen)")
      case None
      with Deeper 3 show ?thesis by (simp add: Let_def)
    next
      case (Some x)
      with Deeper "3.prems"(1) have "x = r" by (simp add: Let_def)
      with Some "3.IH"(2) [OF Deeper] obtain m where "(dep_Name dep, m) \<in> (waits_on s)\<^sup>*" "stuck s m r" by auto
      moreover have "(name, dep_Name dep) \<in> waits_on s"
        using Deeper "3.prems"(2) by (auto simp: waits_on_def)
      ultimately show ?thesis by (blast intro: converse_rtrancl_into_rtrancl)
    qed
  qed
qed

definition clear_dep :: "server \<Rightarrow> string set \<Rightarrow> Dependency \<Rightarrow> bool" where
  "clear_dep s seen dep \<longleftrightarrow> (\<forall>r. look_at s dep \<noteq> Final r) \<and> (look_at s dep = Deeper \<longrightarrow> dep_Name dep \<in> seen)"

lemma clear_dep_mono: "clear_dep s seen dep \<Longrightarrow> seen \<subseteq> seen' \<Longrightarrow> clear_dep s seen' dep"
  by (auto simp: clear_dep_def)

lemma blocked_complete:
  "fst (blockedByDependency s name seen) = None \<Longrightarrow> seen' = snd (blockedByDependency s name seen) \<Longrightarrow>
     seen \<subseteq> seen' \<and> name \<in> seen' \<and> (\<forall>m \<in> seen' - seen. \<forall>dep \<in> set (dependenciesOf s m). clear_dep s seen' dep)"
  "fst (blocked_deps s deps seen) = None \<Longrightarrow> seen' = snd (blocked_deps s deps seen) \<Longrightarrow>
     seen \<subseteq> seen' \<and> (\<forall>dep \<in> set deps. clear_dep s seen' dep) \<and>
     (\<forall>m \<in> seen' - seen. \<forall>dep \<in> set (dependenciesOf s m). clear_dep s seen' dep)"
proof (induction s name seen and s deps seen arbitrary: seen' and seen' rule: blockedByDependency_blocked_deps.induct)
  case (1 s name seen)
  show ?case
  proof (cases "name \<in> seen")
    case False
    with 1 have "insert name seen \<subseteq> seen' \<and> (\<forall>dep \<in> set (dependenciesOf s name). clear_dep s seen' dep) \<and>
        (\<forall>m \<in> seen' - insert name seen. \<forall>dep \<in> set (dependenciesOf s m). clear_dep s seen' dep)" by simp
    then show ?thesis by blast
  qed (use 1 in simp)
next
  case (2 s seen)
  then show ?case by simp
next
  case (3 s dep deps seen)
  show ?case
  proof (cases "look_at s dep")
    case (Final x)
    with "3.prems"(1) show ?thesis by simp
  next
    case Fine
    with 3 show ?thesis by (auto simp: clear_dep_def)
  next
    case Deeper
    define res where "res = blockedByDependency s (dep_Name dep) seen"
    have none: "fst res = None" using Deeper "3.prems"(1) by (auto simp: Let_def res_def split: option.splits)
    have one: "seen \<subseteq> snd res" "dep_Name dep \<in> snd res"
        "\<forall>m \<in> snd res - seen. \<forall>d \<in> set (dependenciesOf s m). clear_dep s (snd res) d"
      using "3.IH"(2) [OF Deeper, of "snd res"] none by (auto simp: res_def)
    have rest: "fst (blocked_deps s deps (snd res)) = None" "seen' = snd (blocked_deps s deps (snd res))"
      using Deeper none "3.prems" by (auto simp: Let_def res_def)
    have two: "snd res \<subseteq> seen'" "\<forall>d \<in> set deps. clear_dep s seen' d"
        "\<forall>m \<in> seen' - snd res. \<forall>d \<in> set (dependenciesOf s m). clear_dep s seen' d"
      using "3.IH"(3) [OF Deeper res_def none rest] by auto
    have "clear_dep s seen' dep" using Deeper one(2) two(1) by (auto simp: clear_dep_def)
    moreover have "\<forall>m \<in> seen' - seen. \<forall>d \<in> set (dependenciesOf s m). clear_dep s seen' d"
    proof
      fix m assume m: "m \<in> seen' - seen"
      show "\<forall>d \<in> set (dependenciesOf s m). clear_dep s seen' d"
        using m one(3) two(1,3) clear_dep_mono [of s "snd res" _ seen'] by (cases "m \<in> snd res") auto
    qed
    ultimately show ?thesis using one(1) two(1,2) by auto
  qed
qed

lemma blockedIndefinitely_None:
  assumes "blockedIndefinitely s name = None" and "(name, m) \<in> (waits_on s)\<^sup>*"
  shows "\<not> stuck s m r"
proof -
  let ?seen = "snd (blockedByDependency s name {})"
  have all: "name \<in> ?seen" "\<forall>m \<in> ?seen. \<forall>dep \<in> set (dependenciesOf s m). clear_dep s ?seen dep"
    using blocked_complete(1) [of s name "{}"] assms(1) by (auto simp: blockedIndefinitely_def)
  from assms(2) have "m \<in> ?seen"
  proof (induction rule: rtrancl_induct)
    case (step y z)
    then show ?case using all(2) by (auto simp: waits_on_def clear_dep_def)
  qed (rule all(1))
  then show ?thesis using all(2) by (auto simp: stuck_def clear_dep_def)
qed

lemma look_at_unmet: "look_at s dep \<noteq> Fine \<Longrightarrow> \<not> dependency_met s dep"
  by (auto simp: look_at_def dependency_met_def Let_def IsStopped_def exitedForGood_def
      split: option.splits if_splits DependencyCondition.splits)

lemma waits_or_stuck_not_started:
  assumes "(name, m) \<in> (waits_on s)\<^sup>*" and "stuck s m r"
  shows "\<not> may_start s name"
proof -
  have "\<exists>dep \<in> set (dependenciesOf s name). look_at s dep \<noteq> Fine"
    using assms(1)
  proof (cases rule: converse_rtranclE)
    case base
    with assms(2) show ?thesis unfolding stuck_def by force
  next
    case (step y)
    then show ?thesis unfolding waits_on_def by force
  qed
  then show ?thesis using look_at_unmet by (auto simp: may_start_def)
qed

text \<open>
  C7. A request is told that a program cannot start exactly when some chain of dependencies that are all
  still waiting ends at one with no prospect (missing, FATAL, stopped and not wanted, or a one-off
  that failed and is never run again), however the dependencies are shared or even circular; the
  reason given is that of such a dependency, and the program really is not startable.
\<close>

theorem blockedIndefinitely_iff:
  "(blockedIndefinitely s name \<noteq> None \<longleftrightarrow> (\<exists>m r. (name, m) \<in> (waits_on s)\<^sup>* \<and> stuck s m r)) \<and>
   (\<forall>r. blockedIndefinitely s name = Some r \<longrightarrow>
      (\<exists>m. (name, m) \<in> (waits_on s)\<^sup>* \<and> stuck s m r) \<and> \<not> may_start s name)"
proof -
  have some: "\<exists>m. (name, m) \<in> (waits_on s)\<^sup>* \<and> stuck s m r" if "blockedIndefinitely s name = Some r" for r
    using blocked_sound(1) [of s name "{}" r] that by (simp add: blockedIndefinitely_def)
  moreover have "blockedIndefinitely s name \<noteq> None" if "(name, m) \<in> (waits_on s)\<^sup>*" "stuck s m r" for m r
    using blockedIndefinitely_None that by blast
  ultimately show ?thesis using waits_or_stuck_not_started by blast
qed

definition sample_stopped_db :: server where
  "sample_stopped_db = sample_server\<lparr>
     sv_processes := fmap_of_list [(''db'', sample_program_in StateStopped), (''api'', sample_program_in StateStopped)],
     sv_desired := fmap_of_list [(''db'', DesiredStopped), (''api'', DesiredRunning)]\<rparr>"

theorem blockedIndefinitely_iff_witness:
  "blockedIndefinitely sample_stopped_db ''api'' = Some (NotSetToStart ''db'') \<and> \<not> may_start sample_stopped_db ''api''"
proof -
  have "blockedIndefinitely sample_stopped_db ''api'' = Some (NotSetToStart ''db'')" by code_simp
  then show ?thesis using blockedIndefinitely_iff [of sample_stopped_db "''api''"] by blast
qed

section \<open>What a request answers\<close>

lemma await_success: "await_polls name arrived qs = Some (Inr u) \<Longrightarrow> \<exists>q \<in> set qs. arrived (poll_program q)"
  by (induction qs) (auto split: if_splits option.splits wake.splits)

lemma await_cannot_start:
  "await_polls name arrived qs = Some (Inl (CannotStart n r)) \<Longrightarrow>
     n = name \<and> (\<exists>q \<in> set qs. wantsToRun (poll_server q) name \<and> blockedIndefinitely (poll_server q) name = Some r)"
  by (induction qs) (auto simp: awaitTimeoutError_def split: if_splits option.splits wake.splits)

text \<open>A wait ends as soon as the deadline is reached.\<close>

lemma await_ends: "\<exists>q \<in> set qs. poll_wake q \<noteq> NextTick \<Longrightarrow> await_polls name arrived qs \<noteq> None"
  by (induction qs) (auto split: if_splits option.splits wake.splits)

lemma setDesired_cases:
  "setDesired name d s = Inr s' \<Longrightarrow> sv_processes s' = sv_processes s \<and> fmlookup (sv_processes s) name \<noteq> None \<and>
     fmlookup (sv_desired s') name = Some d \<and> (\<forall>n. n \<noteq> name \<longrightarrow> fmlookup (sv_desired s') n = fmlookup (sv_desired s) n) \<and>
     (d = DesiredStopped \<longrightarrow> fmlookup (sv_blockedReason s') name = None)"
  by (auto simp: setDesired_def Let_def split: if_splits)

lemma StartProcess_cases:
  "StartProcess name s qs = await_polls name came_up qs \<or>
   (\<exists>e. StartProcess name s qs = Some (Inl e) \<and> (e = ProcessNotFound name \<or> e = AlreadyRunning name))"
proof (cases "begin_StartProcess name s")
  case (Inl e)
  then show ?thesis
    by (auto simp: StartProcess_def begin_StartProcess_def setDesired_def Let_def split: option.splits if_splits)
next
  case (Inr x)
  then obtain reset s' where x: "x = (reset, s')" "setDesired name DesiredRunning s = Inr s'"
    by (cases x) (auto simp: begin_StartProcess_def split: option.splits if_splits sum.splits)
  with setDesired_cases [OF x(2)] Inr show ?thesis by (simp add: StartProcess_def awaitState_def)
qed

lemma StopProcess_cases:
  "StopProcess name s qs = await_polls name (\<lambda>p. GetState p = StateStopped) qs \<or>
   StopProcess name s qs = Some (Inl (ProcessNotFound name))"
proof (cases "setDesired name DesiredStopped s")
  case (Inl e)
  then show ?thesis by (auto simp: StopProcess_def setDesired_def Let_def split: if_splits)
next
  case (Inr s')
  with setDesired_cases [OF Inr] show ?thesis by (simp add: StopProcess_def awaitState_def)
qed



end
