(* ===== verification/Server.thy ===== *)
theory Server
  imports Waiting
begin

text \<open>
  The rest of \<^verbatim>\<open>internal/server/server.go\<close>: how a server is made from a configuration (\<open>New\<close>,
  \<open>buildDependencyGraph\<close>), the order in which it stops everything, and the status it reports.

  A \<open>range\<close> over a map sees its keys in the order given by the record \<open>orders\<close>, one field per loop;
  \<open>o_inner\<close> gives the order for each set of keys the graph has while it grows.
\<close>

section \<open>Building a server\<close>

record orders =
  o_validate :: "string list"
  o_dirs :: "string list"
  o_build :: "string list"
  o_inner :: "string set \<Rightarrow> string list"
  o_nodes :: "string list"
  o_degrees :: "string list"

definition orders_ok :: "orders \<Rightarrow> Config \<Rightarrow> bool" where
  "orders_ok ords c \<longleftrightarrow> ranges (o_validate ords) (Programs c) \<and> ranges (o_build ords) (Programs c) \<and>
     ranges (o_nodes ords) (Programs c) \<and> ranges (o_degrees ords) (Programs c) \<and>
     (\<forall>S \<subseteq> fmdom' (Programs c). distinct (o_inner ords S) \<and> set (o_inner ords S) = S)"

definition add_program :: "orders \<Rightarrow> Config \<Rightarrow> string \<Rightarrow> graph \<Rightarrow> graph" where
  "add_program ords c name g =
     AddNode (o_inner ords (insert name (fmdom' (nodes g)))) name (deps_of c name) g"

definition buildDependencyGraph :: "orders \<Rightarrow> Config \<Rightarrow> graph" where
  "buildDependencyGraph ords c = fold (add_program ords c) (o_build ords) NewGraph"

datatype new_error =
    InvalidConfiguration config_error
  | LogDirectories string
  | GraphValidation graph_error

definition newProcess :: program where
  "newProcess = \<lparr>pg_proc = NewProcess, pg_health = HealthNone, pg_pid = 0\<rparr>"

definition initial_desired :: "ProgramConfig \<Rightarrow> DesiredState" where
  "initial_desired prog = (if pc_Autostart prog then DesiredRunning else DesiredStopped)"

text \<open>\<open>mkdirAll\<close> is \<^verbatim>\<open>os.MkdirAll\<close>.\<close>

definition New :: "(string \<Rightarrow> 'fs \<Rightarrow> string + 'fs) \<Rightarrow> orders \<Rightarrow> Config \<Rightarrow> 'fs \<Rightarrow> new_error + server \<times> 'fs" where
  "New mkdirAll ords c fs =
     (case Validate (o_validate ords) c of
        Inl e \<Rightarrow> Inl (InvalidConfiguration e)
      | Inr _ \<Rightarrow>
     (case EnsureLogDirectories mkdirAll (o_dirs ords) fs of
        Inl e \<Rightarrow> Inl (LogDirectories e)
      | Inr fs' \<Rightarrow>
          (let graph = buildDependencyGraph ords c
           in case TopologicalSort (o_nodes ords) (o_degrees ords) graph of
                Inl e \<Rightarrow> Inl (GraphValidation e)
              | Inr _ \<Rightarrow> Inr (\<lparr>sv_config = c, sv_processes = fmmap (\<lambda>_. newProcess) (Programs c),
                  sv_desired = fmmap initial_desired (Programs c), sv_inflight = {}, sv_blockedReason = fmempty,
                  sv_graph = graph, sv_logged = []\<rparr>, fs'))))"

section \<open>Stopping everything\<close>

text \<open>The rounds of \<open>stopAllProcesses\<close>: the programs stopped in parallel, one round after the other.\<close>

definition stopAllProcesses :: "string list \<Rightarrow> string list \<Rightarrow> string list \<Rightarrow> server \<Rightarrow> string list list" where
  "stopAllProcesses ordN ordD ord s =
     map (filter (\<lambda>name. fmlookup (sv_processes s) name \<noteq> None))
       (rev (case Tiers ordN ordD (sv_graph s) of Inl _ \<Rightarrow> [programNames ord s] | Inr tiers \<Rightarrow> tiers))"

section \<open>Status\<close>

fun state_text :: "State \<Rightarrow> string" where
  "state_text StateStopped = ''STOPPED''"
| "state_text StateStarting = ''STARTING''"
| "state_text StateRunning = ''RUNNING''"
| "state_text StateBackoff = ''BACKOFF''"
| "state_text StateStopping = ''STOPPING''"
| "state_text StateExited = ''EXITED''"
| "state_text StateFatal = ''FATAL''"
| "state_text StateUnknown = ''UNKNOWN''"

fun health_text :: "Health \<Rightarrow> string" where
  "health_text HealthNone = ''NONE''"
| "health_text HealthStarting = ''STARTING''"
| "health_text HealthHealthy = ''HEALTHY''"
| "health_text HealthUnhealthy = ''UNHEALTHY''"

text \<open>Of the reasons, those of \<open>dependenciesSatisfied\<close> are recorded.\<close>

fun reason_text :: "reason \<Rightarrow> string" where
  "reason_text (NotConfigured n) = ''dependency '' @ n @ '' is not configured''"
| "reason_text (NotCompleted n st) = ''dependency '' @ n @ '' has not completed, it is '' @ state_text st"
| "reason_text (NotRunning n st) = ''dependency '' @ n @ '' is '' @ state_text st"
| "reason_text (NotHealthy n h) = ''dependency '' @ n @ '' is running but its health check is '' @ health_text h"
| "reason_text (GaveUp n) = ''dependency '' @ n @ '' gave up starting''"
| "reason_text (NotSetToStart n) = ''dependency '' @ n @ '' is stopped and is not set to start''"
| "reason_text (WillNotRunAgain n code) =
     ''dependency '' @ n @ '' exited with status '' @ itoa code @ '' and will not be run again''"

definition restartPhrase :: "int \<Rightarrow> string" where
  "restartPhrase restarts = itoa restarts @ (if restarts = 1 then '' restart'' else '' restarts'')"

definition reasonCleanExit :: string where
  "reasonCleanExit = ''exited cleanly; autorestart is unexpected''"

definition exitedReason :: "RestartPolicy option \<Rightarrow> int \<Rightarrow> string" where
  "exitedReason pol code =
     (if pol = Some RestartNever then ''exited with status '' @ itoa code @ ''; autorestart is never''
      else if pol = Some RestartUnexpected \<and> code = 0 then reasonCleanExit
      else ''exited with status '' @ itoa code)"

definition notRunningReason :: "server \<Rightarrow> string \<Rightarrow> State \<Rightarrow> int \<Rightarrow> int \<Rightarrow> string" where
  "notRunningReason s name st restartCount code =
     (case fmlookup (sv_blockedReason s) name of
        Some r \<Rightarrow> reason_text r
      | None \<Rightarrow>
          if st = StateFatal then ''gave up after '' @ restartPhrase restartCount
          else if st = StateExited then exitedReason (autorestartPolicy s name) code
          else '''')"

text \<open>The whole seconds of a duration that is not negative.\<close>

definition formatDuration :: "int \<Rightarrow> string" where
  "formatDuration d =
     (let secs = d div second
      in if d < 60 * second then itoa secs @ ''s''
         else if d < 3600 * second then itoa (secs div 60) @ ''m '' @ itoa (secs mod 60) @ ''s''
         else itoa (secs div 3600) @ ''h '' @ itoa (secs div 60 mod 60) @ ''m '' @ itoa (secs mod 60) @ ''s'')"

record ProcessStatusInfo =
  st_Name :: string
  st_State :: State
  st_Desired :: "DesiredState option"
  st_Health :: Health
  st_Uptime :: string
  st_Reason :: string
  st_PID :: int
  st_ExitCode :: int
  st_RestartCount :: int

definition program_status :: "int \<Rightarrow> server \<Rightarrow> string \<Rightarrow> program \<Rightarrow> ProcessStatusInfo" where
  "program_status now s name p =
     (let st = GetState p; code = p_exitCode (pg_proc p); restarts = p_restartCount (pg_proc p)
      in \<lparr>st_Name = name, st_State = st, st_Desired = fmlookup (sv_desired s) name, st_Health = pg_health p,
          st_Uptime = (if st = StateRunning then formatDuration (now - p_startTime (pg_proc p)) else ''N/A''),
          st_Reason = notRunningReason s name st restarts code, st_PID = pg_pid p, st_ExitCode = code,
          st_RestartCount = restarts\<rparr>)"

definition GetStatus :: "string list \<Rightarrow> int \<Rightarrow> server \<Rightarrow> ProcessStatusInfo list" where
  "GetStatus ord now s =
     sort_Slice (\<lambda>a b. st_Name a < st_Name b)
       (concat (map (\<lambda>name. case fmlookup (sv_processes s) name of None \<Rightarrow> [] | Some p \<Rightarrow> [program_status now s name p]) ord))"

section \<open>The graph of a configuration\<close>

lemma build_prefix:
  assumes "orders_ok ords c" and "set names \<subseteq> fmdom' (Programs c)" and "graph_ok g"
    and "fmdom' (nodes g) \<subseteq> fmdom' (Programs c)"
  shows "graph_ok (fold (add_program ords c) names g) \<and>
    fmdom' (nodes (fold (add_program ords c) names g)) = fmdom' (nodes g) \<union> set names \<and>
    (\<forall>n. GetDependencies (fold (add_program ords c) names g) n =
       (if n \<in> set names then deps_of c n else GetDependencies g n))"
  using assms(2-4)
proof (induction names arbitrary: g)
  case (Cons name names)
  let ?ord = "o_inner ords (insert name (fmdom' (nodes g)))"
  have "insert name (fmdom' (nodes g)) \<subseteq> fmdom' (Programs c)" using Cons.prems by simp
  then have "distinct ?ord" "set ?ord = insert name (fmdom' (nodes g))"
    using assms(1) unfolding orders_ok_def by blast+
  note add = AddNode_ok [OF Cons.prems(2) this]
  have "graph_ok (add_program ords c name g)"
    "fmdom' (nodes (add_program ords c name g)) = insert name (fmdom' (nodes g))"
    "\<And>n. GetDependencies (add_program ords c name g) n = (if n = name then deps_of c name else GetDependencies g n)"
    using add by (simp_all add: add_program_def)
  with Cons show ?case by auto
qed simp

lemma buildDependencyGraph_ok:
  assumes "orders_ok ords c"
  shows "graph_ok (buildDependencyGraph ords c)"
    and "fmdom' (nodes (buildDependencyGraph ords c)) = fmdom' (Programs c)"
    and "GetDependencies (buildDependencyGraph ords c) = deps_of c"
proof -
  have b: "set (o_build ords) = fmdom' (Programs c)" using assms by (auto simp: orders_ok_def ranges_def)
  have "graph_ok NewGraph" "fmdom' (nodes NewGraph) = {}" by (simp_all add: NewGraph_ok) (simp add: NewGraph_def)
  note p = build_prefix [OF assms, of "o_build ords" NewGraph]
  show "graph_ok (buildDependencyGraph ords c)" "fmdom' (nodes (buildDependencyGraph ords c)) = fmdom' (Programs c)"
    using p b NewGraph_ok by (simp_all add: buildDependencyGraph_def NewGraph_def)
  have "deps_of c n = []" if "n \<notin> fmdom' (Programs c)" for n
    using that by (auto simp: deps_of_def in_dom_iff split: option.splits)
  then show "GetDependencies (buildDependencyGraph ords c) = deps_of c"
    using p b NewGraph_ok by (intro ext) (auto simp: buildDependencyGraph_def NewGraph_def GetDependencies_def)
qed

lemma build_ranges:
  "orders_ok ords c \<Longrightarrow> ranges ord (Programs c) \<Longrightarrow> ranges ord (nodes (buildDependencyGraph ords c))"
  by (simp add: ranges_def buildDependencyGraph_ok)

lemma Validate_accepts:
  assumes "ranges ord (Programs c)" and "Validate ord c = Inr ()"
  shows "acyclic (leads_to c)" and "closed_deps c"
proof -
  obtain s where s: "search_loop c ord ({}, {}) = Inr s" and d: "validateDependencies c = Inr ()"
    using assms(2) by (auto simp: Validate_def split: sum.splits)
  show "closed_deps c" using dependencies_closed [OF d] .
  then show "acyclic (leads_to c)" using search_loop_iff [OF assms(1)] s by blast
qed

lemma closed_known_deps: "closed_deps c \<Longrightarrow> known_deps (fmdom' (Programs c)) (deps_of c) n = deps_of c n"
  by (auto simp: known_deps_def closed_deps_def intro!: filter_True)

lemma build_sortable:
  assumes "orders_ok ords c" and "acyclic (leads_to c)" and "closed_deps c"
  shows "sortable (buildDependencyGraph ords c) \<longleftrightarrow> (\<forall>n \<in> fmdom' (Programs c). distinct (deps_of c n))"
  using assms(2) by (simp add: sortable_def buildDependencyGraph_ok [OF assms(1)] dep_edges_closed [OF assms(3)]
      closed_known_deps [OF assms(3)])

text \<open>What holds of every server that \<open>New\<close> makes, and that the operations keep.\<close>

definition server_ok :: "server \<Rightarrow> bool" where
  "server_ok s \<longleftrightarrow> fmdom' (sv_processes s) = fmdom' (Programs (sv_config s)) \<and>
     fmdom' (sv_desired s) = fmdom' (Programs (sv_config s)) \<and>
     closed_deps (sv_config s) \<and> graph_ok (sv_graph s) \<and>
     fmdom' (nodes (sv_graph s)) = fmdom' (Programs (sv_config s)) \<and>
     GetDependencies (sv_graph s) = deps_of (sv_config s) \<and> sortable (sv_graph s)"

lemma TopologicalSort_iff_sortable:
  assumes "graph_ok g" and "ranges ordN (nodes g)" and "ranges ordD (nodes g)"
  shows "(\<exists>xs. TopologicalSort ordN ordD g = Inr xs) \<longleftrightarrow> sortable g"
proof -
  obtain ys deg where "kahn_inv (fmdom' (nodes g)) (GetDependencies g) (set ys) [] deg"
    "distinct ys" "deps_first (fmdom' (nodes g)) (GetDependencies g) ys"
    and "TopologicalSort ordN ordD g = (if set ys = fmdom' (nodes g) then Inr ys else Inl CircularDependencyDetected)"
    using TopologicalSort_cases [OF assms] by blast
  then show ?thesis using all_placed_iff_sortable [of g ys deg] by simp
qed

lemma Tiers_sortable:
  assumes "graph_ok g" and "ranges ordN (nodes g)" and "ranges ordD (nodes g)" and "sortable g"
  obtains tiers where "Tiers ordN ordD g = Inr tiers" and "distinct (concat tiers)"
    and "set (concat tiers) = fmdom' (nodes g)" and "tiered (fmdom' (nodes g)) (GetDependencies g) tiers"
proof -
  obtain ts dt where ts: "kahn_inv (fmdom' (nodes g)) (GetDependencies g) (set (concat ts)) [] dt"
    "distinct (concat ts)" "tiered (fmdom' (nodes g)) (GetDependencies g) ts"
    "Tiers ordN ordD g = (if set (concat ts) = fmdom' (nodes g) then Inr ts else Inl CircularDependencyDetected)"
    using Tiers_cases [OF assms(1-3)] by blast
  have "set (concat ts) = fmdom' (nodes g)"
    using all_placed_iff_sortable [OF ts(1,2) tiered_deps_first [OF ts(3)]] assms(4) by blast
  with ts that show thesis by simp
qed

lemma New_result:
  assumes "orders_ok ords c" and "New mkdirAll ords c fs = Inr (s, fs')"
  shows "server_ok s \<and> sv_config s = c \<and> sv_inflight s = {} \<and>
    (\<forall>n prog. fmlookup (Programs c) n = Some prog \<longrightarrow> fmlookup (sv_processes s) n = Some newProcess \<and>
       fmlookup (sv_desired s) n = Some (if pc_Autostart prog then DesiredRunning else DesiredStopped))"
proof -
  let ?g = "buildDependencyGraph ords c"
  have ord: "ranges (o_validate ords) (Programs c)" "ranges (o_nodes ords) (nodes ?g)" "ranges (o_degrees ords) (nodes ?g)"
    using assms build_ranges [OF assms(1)] by (simp_all add: orders_ok_def)
  have valid: "Validate (o_validate ords) c = Inr ()"
    and "\<exists>xs. TopologicalSort (o_nodes ords) (o_degrees ords) ?g = Inr xs"
    and s: "s = \<lparr>sv_config = c, sv_processes = fmmap (\<lambda>_. newProcess) (Programs c),
        sv_desired = fmmap initial_desired (Programs c), sv_inflight = {}, sv_blockedReason = fmempty,
        sv_graph = ?g, sv_logged = []\<rparr>"
    using assms(2) by (auto simp: New_def Let_def split: sum.splits)
  then have "sortable ?g"
    using TopologicalSort_iff_sortable [OF buildDependencyGraph_ok(1) [OF assms(1)] ord(2,3)] by blast
  with s Validate_accepts [OF ord(1) valid] show ?thesis
    by (simp add: server_ok_def buildDependencyGraph_ok [OF assms(1)] initial_desired_def)
qed


definition sample_orders :: orders where
  "sample_orders = \<lparr>o_validate = [''api'', ''db''], o_dirs = [], o_build = [''api'', ''db''],
     o_inner = (\<lambda>S. filter (\<lambda>n. n \<in> S) [''db'', ''api'']), o_nodes = [''db'', ''api''], o_degrees = [''api'', ''db'']\<rparr>"

lemma sample_orders_ok: "orders_ok sample_orders (sample_validate [(''db'', []), (''api'', [''db''])])"
  by (auto simp: orders_ok_def ranges_def sample_orders_def sample_validate_def)

definition sample_new :: "new_error + server \<times> unit" where
  "sample_new = New (\<lambda>dir fs. Inr fs) sample_orders (sample_validate [(''db'', []), (''api'', [''db''])]) ()"

lemma sample_new_made: "\<exists>s. sample_new = Inr (s, ())"
proof -
  have "isl sample_new = False" by code_simp
  then obtain x where "sample_new = Inr x" by (metis isl_def sum.exhaust)
  then show ?thesis by (cases x) auto
qed


section \<open>The order of a shutdown\<close>

lemma nth_rev_tiers:
  assumes "i < length tiers"
  shows "rev tiers ! i = tiers ! (length tiers - 1 - i)"
  using assms by (simp add: rev_nth)

text \<open>
  C11. A shutdown stops every program exactly once, and no program before all those that depend on it have
  been stopped in an earlier round, whatever the order of the maps.
\<close>

theorem stopAllProcesses_order:
  assumes "server_ok s" and "ranges ordN (Programs (sv_config s))" and "ranges ordD (Programs (sv_config s))"
  shows "distinct (concat (stopAllProcesses ordN ordD ord s)) \<and>
    set (concat (stopAllProcesses ordN ordD ord s)) = fmdom' (sv_processes s) \<and>
    (\<forall>i < length (stopAllProcesses ordN ordD ord s). \<forall>n \<in> set (stopAllProcesses ordN ordD ord s ! i).
       \<forall>d \<in> set (deps_of (sv_config s) n). \<exists>j < length (stopAllProcesses ordN ordD ord s). i < j \<and>
         d \<in> set (stopAllProcesses ordN ordD ord s ! j))"
proof -
  let ?P = "fmdom' (Programs (sv_config s))"
  have ok: "fmdom' (sv_processes s) = ?P" "closed_deps (sv_config s)" "graph_ok (sv_graph s)"
    "fmdom' (nodes (sv_graph s)) = ?P" "GetDependencies (sv_graph s) = deps_of (sv_config s)" "sortable (sv_graph s)"
    using assms(1) by (simp_all add: server_ok_def)
  have "ranges ordN (nodes (sv_graph s))" "ranges ordD (nodes (sv_graph s))"
    using assms(2,3) ok(4) by (simp_all add: ranges_def)
  from Tiers_sortable [OF ok(3) this ok(6)] obtain tiers where
    tiers: "Tiers ordN ordD (sv_graph s) = Inr tiers" "distinct (concat tiers)" "set (concat tiers) = ?P"
    and layered: "tiered ?P (deps_of (sv_config s)) tiers"
    using ok(4,5) by metis
  have "fmlookup (sv_processes s) n \<noteq> None" if "t \<in> set tiers" "n \<in> set t" for t n
  proof -
    have "n \<in> fmdom' (sv_processes s)" using tiers(3) ok(1) that by auto
    then show ?thesis by (simp add: in_dom_iff)
  qed
  then have "filter (\<lambda>n. fmlookup (sv_processes s) n \<noteq> None) t = t" if "t \<in> set tiers" for t
    using that by (simp add: filter_True)
  then have "map (filter (\<lambda>n. fmlookup (sv_processes s) n \<noteq> None)) (rev tiers) = rev tiers"
    by (intro map_idI) simp
  then have rounds: "stopAllProcesses ordN ordD ord s = rev tiers"
    by (simp only: stopAllProcesses_def tiers(1) sum.case)
  have later: "\<exists>j < length tiers. i < j \<and> d \<in> set (rev tiers ! j)"
    if i: "i < length tiers" and n: "n \<in> set (rev tiers ! i)" and d: "d \<in> set (deps_of (sv_config s) n)" for i n d
  proof -
    let ?k = "length tiers - 1 - i"
    have "n \<in> set (tiers ! ?k)" using n nth_rev_tiers [OF i] by simp
    moreover have "?k < length tiers" using i by simp
    ultimately have "set (known_deps ?P (deps_of (sv_config s)) n) \<subseteq> set (concat (take ?k tiers))"
      using layered unfolding tiered_def by blast
    then have "d \<in> set (concat (take ?k tiers))" using d by (simp add: closed_known_deps [OF ok(2)] subset_iff)
    then obtain t where t: "t \<in> set (take ?k tiers)" "d \<in> set t" by auto
    from t(1) obtain k' where "k' < length (take ?k tiers)" "take ?k tiers ! k' = t"
      unfolding in_set_conv_nth by blast
    with t(2) have k': "k' < ?k" "d \<in> set (tiers ! k')" by simp_all
    let ?j = "length tiers - 1 - k'"
    have "?j < length tiers" "i < ?j" "length tiers - 1 - ?j = k'" using k'(1) i by auto
    then show ?thesis using k'(2) nth_rev_tiers [of ?j tiers] by (intro exI [of _ ?j]) simp
  qed
  have "removeAll [] (rev tiers) = rev (removeAll [] tiers)" by (simp add: removeAll_filter_not_eq rev_filter)
  then have "distinct (concat (rev tiers))" "set (concat (rev tiers)) = fmdom' (sv_processes s)"
    using tiers(2,3) ok(1) by (simp_all add: distinct_concat_iff rev_concat)
  with later show ?thesis by (simp add: rounds)
qed

lemma sample_made: "sample_new = Inr (fst (projr sample_new), ())" "server_ok (fst (projr sample_new))"
proof -
  obtain s where s: "sample_new = Inr (s, ())" using sample_new_made by blast
  have valid: "Validate (o_validate sample_orders) (sample_validate [(''db'', []), (''api'', [''db''])]) = Inr ()"
    using sample_validate_ok by (simp add: sample_orders_def)
  have "sortable (buildDependencyGraph sample_orders (sample_validate [(''db'', []), (''api'', [''db''])]))"
    using build_sortable [OF sample_orders_ok Validate_accepts [OF _ valid]] sample_orders_ok
    by (auto simp: orders_ok_def deps_of_def sample_validate_def DependencyNames_def elems_def)
  moreover have "s = \<lparr>sv_config = sample_validate [(''db'', []), (''api'', [''db''])],
      sv_processes = fmmap (\<lambda>_. newProcess) (Programs (sample_validate [(''db'', []), (''api'', [''db''])])),
      sv_desired = fmmap initial_desired (Programs (sample_validate [(''db'', []), (''api'', [''db''])])),
      sv_inflight = {}, sv_blockedReason = fmempty,
      sv_graph = buildDependencyGraph sample_orders (sample_validate [(''db'', []), (''api'', [''db''])]), sv_logged = []\<rparr>"
    using s by (auto simp: sample_new_def New_def Let_def split: sum.splits)
  ultimately have ok: "server_ok s"
    using Validate_accepts [OF _ valid] sample_orders_ok
    by (simp add: server_ok_def buildDependencyGraph_ok [OF sample_orders_ok] orders_ok_def)
  show "server_ok (fst (projr sample_new))" using ok by (simp add: s)
  show "sample_new = Inr (fst (projr sample_new), ())" by (simp add: s)
qed

definition sample_running :: server where
  "sample_running = fst (projr sample_new)"

lemma sample_running_config: "sv_config sample_running = sample_validate [(''db'', []), (''api'', [''db''])]"
  by code_simp

theorem stopAllProcesses_order_witness:
  "distinct (concat (stopAllProcesses [''db'', ''api''] [''api'', ''db''] [] sample_running))"
proof -
  have "ranges [''db'', ''api''] (Programs (sv_config sample_running))" "ranges [''api'', ''db''] (Programs (sv_config sample_running))"
    by (auto simp: sample_running_config ranges_def sample_validate_def)
  from stopAllProcesses_order [OF _ this] sample_made(2) show ?thesis by (simp add: sample_running_def)
qed

section \<open>The status report\<close>

lemma status_list:
  "set ord \<subseteq> fmdom' (sv_processes s) \<Longrightarrow>
     map st_Name (concat (map (\<lambda>name. case fmlookup (sv_processes s) name of None \<Rightarrow> [] | Some p \<Rightarrow> [program_status now s name p]) ord)) = ord"
  by (induction ord) (auto simp: program_status_def Let_def fmlookup_dom'_iff)

lemma GetStatus_elements:
  assumes "ranges ord (sv_processes s)"
  shows "set (GetStatus ord now s) = {program_status now s n q | n q. fmlookup (sv_processes s) n = Some q}"
proof -
  have "x \<in> set (GetStatus ord now s) \<longleftrightarrow>
      (\<exists>n \<in> set ord. \<exists>q. fmlookup (sv_processes s) n = Some q \<and> x = program_status now s n q)" for x
    by (force simp: GetStatus_def split: option.splits)
  moreover have "n \<in> set ord" if "fmlookup (sv_processes s) n = Some q" for n q
    using that assms by (auto simp: ranges_def intro: fmdom'I)
  ultimately show ?thesis by blast
qed

lemma GetStatus_sorted:
  assumes "ranges ord (sv_processes s)"
  shows "sorted_wrt (<) (map st_Name (GetStatus ord now s))" and "inj_on st_Name (set (GetStatus ord now s))"
proof -
  let ?raw = "concat (map (\<lambda>name. case fmlookup (sv_processes s) name of None \<Rightarrow> [] | Some p \<Rightarrow> [program_status now s name p]) ord)"
  have "map st_Name ?raw = ord" using assms by (intro status_list) (simp add: ranges_def)
  then have "distinct (map st_Name ?raw)" using assms by (simp add: ranges_def)
  then have raw: "distinct ?raw" "inj_on st_Name (set ?raw)" by (simp_all only: distinct_map)
  then show "inj_on st_Name (set (GetStatus ord now s))" by (simp only: GetStatus_def set_sort_Slice)
  show "sorted_wrt (<) (map st_Name (GetStatus ord now s))"
    unfolding GetStatus_def by (rule sort_Slice_sorted) (use raw in auto)
qed

text \<open>The status lists every program once, sorted by name, whatever the order of the map.\<close>

lemma GetStatus_eq:
  assumes "ranges ord (sv_processes s)"
  shows "GetStatus ord now s =
    map (\<lambda>n. program_status now s n (the (fmlookup (sv_processes s) n))) (sorted_list_of_set (fmdom' (sv_processes s)))"
proof (rule sorted_names_unique [where f = st_Name])
  let ?list = "map (\<lambda>n. program_status now s n (the (fmlookup (sv_processes s) n))) (sorted_list_of_set (fmdom' (sv_processes s)))"
  have names: "map st_Name ?list = sorted_list_of_set (fmdom' (sv_processes s))"
    by (simp add: program_status_def Let_def comp_def)
  show "set (GetStatus ord now s) = set ?list"
    unfolding GetStatus_elements [OF assms] by (force simp: in_dom_iff)
  show "sorted_wrt (<) (map st_Name ?list)" unfolding names by simp
qed (use GetStatus_sorted [OF assms] in auto)

lemma program_status_reason:
  "GetState p \<in> {StateFatal, StateExited} \<Longrightarrow> st_Reason (program_status now s name p) \<noteq> ''''"
  "GetState p \<notin> {StateFatal, StateExited} \<Longrightarrow> fmlookup (sv_blockedReason s) name = None \<Longrightarrow>
     st_Reason (program_status now s name p) = ''''"
proof -
  have "reason_text r \<noteq> ''''" for r by (cases r) simp_all
  then show "st_Reason (program_status now s name p) \<noteq> ''''" if "GetState p \<in> {StateFatal, StateExited}"
    using that
    by (auto simp: program_status_def Let_def notRunningReason_def exitedReason_def reasonCleanExit_def split: option.splits)
qed (simp add: program_status_def Let_def notRunningReason_def)

text \<open>
  The state is that of the process; a program that is RUNNING and not noted as held back has no reason, a FATAL or
  EXITED one always has.
\<close>

theorem GetStatus_complete:
  assumes "ranges ord (sv_processes s)" and "fmlookup (sv_processes s) name = Some p"
  shows "sorted_wrt (<) (map st_Name (GetStatus ord now s)) \<and>
    set (GetStatus ord now s) = {program_status now s n q | n q. fmlookup (sv_processes s) n = Some q} \<and>
    (\<forall>ord'. ranges ord' (sv_processes s) \<longrightarrow> GetStatus ord' now s = GetStatus ord now s) \<and>
    st_State (program_status now s name p) = GetState p \<and>
    (GetState p \<in> {StateFatal, StateExited} \<longrightarrow> st_Reason (program_status now s name p) \<noteq> '''') \<and>
    (GetState p \<notin> {StateFatal, StateExited} \<and> fmlookup (sv_blockedReason s) name = None \<longrightarrow>
       st_Reason (program_status now s name p) = '''')"
  using GetStatus_sorted(1) [OF assms(1)] GetStatus_elements [OF assms(1)] program_status_reason [where p = p and now = now and s = s and name = name]
    GetStatus_eq [OF assms(1)]
  by (simp add: GetStatus_eq) (simp add: program_status_def Let_def)

theorem GetStatus_complete_witness:
  "sorted_wrt (<) (map st_Name (GetStatus [''db'', ''api''] 0 sample_server))"
  using GetStatus_complete [OF sample_server_ok(1), of "''db''" "sample_program_in StateRunning" 0]
  by (simp add: sample_server_def)

end
