(* ===== verification/Reload.thy ===== *)
theory Reload
  imports Server
begin

text \<open>
  Reloading the configuration: \<^verbatim>\<open>internal/server/reload.go\<close>, with \<open>ReloadResponse\<close> of
  \<^verbatim>\<open>internal/api/messages.go\<close>.

  A reload computes its plan, asks for the programs it will drop or replace to be stopped, waits, and
  swaps the new configuration in. The lock is free while it waits: what the reconciler, the programs and
  other callers do to the server meanwhile is the argument \<open>meanwhile\<close>. Reading the files is the
  argument \<open>parsed\<close>, whose result theory \<open>Convert\<close> describes. A finite map stands for a nil map and for an
  empty one, which \<^verbatim>\<open>reflect.DeepEqual\<close> tells apart in the environment of a program.
\<close>

section \<open>The plan\<close>

record ReloadResponse =
  rr_Added :: "string list"
  rr_Removed :: "string list"
  rr_Changed :: "string list"

definition Empty :: "ReloadResponse \<Rightarrow> bool" where
  "Empty r \<longleftrightarrow> length (rr_Added r) = 0 \<and> length (rr_Removed r) = 0 \<and> length (rr_Changed r) = 0"

text \<open>\<open>ordU\<close> is the order of the range over the updated programs, \<open>ordO\<close> that over the old ones.\<close>

definition diffPrograms ::
  "string list \<Rightarrow> string list \<Rightarrow> (string, ProgramConfig) fmap \<Rightarrow> (string, ProgramConfig) fmap \<Rightarrow> ReloadResponse" where
  "diffPrograms ordU ordO old updated =
     (let added = filter (\<lambda>name. fmlookup old name = None) ordU;
          changed = filter (\<lambda>name. fmlookup old name \<noteq> None \<and> fmlookup old name \<noteq> fmlookup updated name) ordU;
          removed = filter (\<lambda>name. fmlookup updated name = None) ordO
      in \<lparr>rr_Added = sort added, rr_Removed = sort removed, rr_Changed = sort changed\<rparr>)"

definition changedDaemonSetting :: "SupavisorConfig \<Rightarrow> SupavisorConfig \<Rightarrow> string" where
  "changedDaemonSetting old updated =
     (if cfg_PidFile old \<noteq> cfg_PidFile updated then ''pidfile''
      else if cfg_Socket old \<noteq> cfg_Socket updated then ''socket''
      else if cfg_SocketGroup old \<noteq> cfg_SocketGroup updated then ''socket_group''
      else if cfg_LogFile old \<noteq> cfg_LogFile updated then ''logfile''
      else if cfg_LogFormat old \<noteq> cfg_LogFormat updated then ''log_format''
      else if cfg_LogLevel old \<noteq> cfg_LogLevel updated then ''log_level''
      else '''')"

datatype reload_error =
    NoConfigurationFile
  | ReloadParse config_error
  | ReloadInvalid config_error
  | ReloadGraph graph_error
  | SettingFixed string
  | ReloadDirectories string

definition check_reload ::
  "(string \<Rightarrow> config_error + Config) \<Rightarrow> orders \<Rightarrow> (string \<Rightarrow> 'fs \<Rightarrow> string + 'fs) \<Rightarrow> 'fs \<Rightarrow> server \<Rightarrow> reload_error + Config" where
  "check_reload parsed ords mkdirAll fs s =
     (let path = SourcePath (sv_config s)
      in if path = '''' then Inl NoConfigurationFile
         else case parsed path of
           Inl e \<Rightarrow> Inl (ReloadParse e)
         | Inr newCfg \<Rightarrow>
        (case Validate (o_validate ords) newCfg of
           Inl e \<Rightarrow> Inl (ReloadInvalid e)
         | Inr _ \<Rightarrow>
        (case TopologicalSort (o_nodes ords) (o_degrees ords) (buildDependencyGraph ords newCfg) of
           Inl e \<Rightarrow> Inl (ReloadGraph e)
         | Inr _ \<Rightarrow>
        (let setting = changedDaemonSetting (Supavisor (sv_config s)) (Supavisor newCfg)
         in if setting \<noteq> '''' then Inl (SettingFixed setting)
            else case EnsureLogDirectories mkdirAll (o_dirs ords) fs of
              Inl e \<Rightarrow> Inl (ReloadDirectories e)
            | Inr _ \<Rightarrow> Inr newCfg))))"

section \<open>Carrying it out\<close>

definition ask_stop :: "string \<Rightarrow> server \<Rightarrow> server" where
  "ask_stop name s = (case setDesired name DesiredStopped s of Inl _ \<Rightarrow> s | Inr s' \<Rightarrow> s')"

text \<open>
  What \<open>stopForReload\<close> asks for. The errors of its waits, a program that has not stopped after the time a
  request waits among them, are logged and nothing else, so that they leave no trace here.
\<close>

definition stopForReload :: "string list \<Rightarrow> server \<Rightarrow> server" where
  "stopForReload names s = fold ask_stop names s"

definition forget_program :: "string \<Rightarrow> server \<Rightarrow> server" where
  "forget_program name s = s\<lparr>sv_processes := fmdrop name (sv_processes s), sv_desired := fmdrop name (sv_desired s),
     sv_inflight := sv_inflight s - {name}, sv_blockedReason := fmdrop name (sv_blockedReason s)\<rparr>"

text \<open>A missing entry of \<open>previous\<close> reads as the empty state, which no reader tells from a missing one.\<close>

definition replace_program :: "(string, DesiredState) fmap \<Rightarrow> string \<Rightarrow> server \<Rightarrow> server" where
  "replace_program previous name s = s\<lparr>sv_processes := fmupd name newProcess (sv_processes s),
     sv_desired := (case fmlookup previous name of None \<Rightarrow> fmdrop name (sv_desired s) | Some d \<Rightarrow> fmupd name d (sv_desired s)),
     sv_blockedReason := fmdrop name (sv_blockedReason s)\<rparr>"

definition take_program :: "Config \<Rightarrow> string \<Rightarrow> server \<Rightarrow> server" where
  "take_program newCfg name s =
     (case fmlookup (Programs newCfg) name of
        None \<Rightarrow> s
      | Some prog \<Rightarrow> s\<lparr>sv_processes := fmupd name newProcess (sv_processes s),
          sv_desired := fmupd name (initial_desired prog) (sv_desired s)\<rparr>)"

definition applyPrograms ::
  "orders \<Rightarrow> Config \<Rightarrow> (string, DesiredState) fmap \<Rightarrow> ReloadResponse \<Rightarrow> server \<Rightarrow> server" where
  "applyPrograms ords newCfg previous r s =
     (let s1 = fold forget_program (rr_Removed r) s;
          s2 = fold (replace_program previous) (rr_Changed r) s1;
          s3 = fold (take_program newCfg) (rr_Added r) s2
      in s3\<lparr>sv_config := newCfg, sv_graph := buildDependencyGraph ords newCfg\<rparr>)"

definition Reload ::
  "(string \<Rightarrow> config_error + Config) \<Rightarrow> orders \<Rightarrow> (string list \<times> string list) \<Rightarrow> (string \<Rightarrow> 'fs \<Rightarrow> string + 'fs) \<Rightarrow> 'fs \<Rightarrow>
   (server \<Rightarrow> server) \<Rightarrow> server \<Rightarrow> (reload_error + ReloadResponse) \<times> server" where
  "Reload parsed ords ords2 mkdirAll fs meanwhile s =
     (case check_reload parsed ords mkdirAll fs s of
        Inl e \<Rightarrow> (Inl e, s)
      | Inr newCfg \<Rightarrow>
          (let applied = diffPrograms (fst ords2) (snd ords2) (Programs (sv_config s)) (Programs newCfg)
           in if Empty applied then (Inr applied, s)
              else (let previous = sv_desired s;
                        s1 = meanwhile (stopForReload (rr_Removed applied @ rr_Changed applied) s)
                    in (Inr applied, applyPrograms ords newCfg previous applied s1))))"

section \<open>The difference of two configurations\<close>

lemma diffPrograms_sets:
  assumes "ranges ordU updated" and "ranges ordO old"
  shows "set (rr_Added (diffPrograms ordU ordO old updated)) = fmdom' updated - fmdom' old"
    and "set (rr_Removed (diffPrograms ordU ordO old updated)) = fmdom' old - fmdom' updated"
    and "set (rr_Changed (diffPrograms ordU ordO old updated)) =
      {n \<in> fmdom' old \<inter> fmdom' updated. fmlookup old n \<noteq> fmlookup updated n}"
  using assms by (auto simp: diffPrograms_def Let_def ranges_def in_dom_iff) 

lemma diffPrograms_sorted:
  assumes "ranges ordU updated" and "ranges ordO old"
  shows "sorted_wrt (<) (rr_Added (diffPrograms ordU ordO old updated))"
    "sorted_wrt (<) (rr_Removed (diffPrograms ordU ordO old updated))"
    "sorted_wrt (<) (rr_Changed (diffPrograms ordU ordO old updated))"
  using assms by (simp_all add: diffPrograms_def Let_def ranges_def strict_sorted_iff)

lemma diffPrograms_empty_iff:
  assumes "ranges ordU updated" and "ranges ordO old"
  shows "Empty (diffPrograms ordU ordO old updated) \<longleftrightarrow> old = updated"
proof -
  let ?r = "diffPrograms ordU ordO old updated"
  note sets = diffPrograms_sets [OF assms]
  have "Empty ?r \<longleftrightarrow> set (rr_Added ?r) = {} \<and> set (rr_Removed ?r) = {} \<and> set (rr_Changed ?r) = {}"
    by (simp add: Empty_def)
  also have "\<dots> \<longleftrightarrow> old = updated"
  proof
    assume e: "set (rr_Added ?r) = {} \<and> set (rr_Removed ?r) = {} \<and> set (rr_Changed ?r) = {}"
    have "fmlookup old n = fmlookup updated n" for n
    proof (cases "n \<in> fmdom' old \<or> n \<in> fmdom' updated")
      case True
      with e show ?thesis unfolding sets by blast
    qed (simp add: in_dom_iff)
    then show "old = updated" by (rule fmap_ext)
  qed (unfold sets, auto)
  finally show ?thesis .
qed

section \<open>The server after a reload\<close>

lemma fold_forget:
  "fmlookup (sv_processes (fold forget_program names s)) n = (if n \<in> set names then None else fmlookup (sv_processes s) n) \<and>
   fmlookup (sv_desired (fold forget_program names s)) n = (if n \<in> set names then None else fmlookup (sv_desired s) n) \<and>
   (n \<in> sv_inflight (fold forget_program names s) \<longleftrightarrow> n \<notin> set names \<and> n \<in> sv_inflight s)"
  by (induction names arbitrary: s) (auto simp: forget_program_def)

lemma fold_replace:
  "fmlookup (sv_processes (fold (replace_program prev) names s)) n =
     (if n \<in> set names then Some newProcess else fmlookup (sv_processes s) n) \<and>
   fmlookup (sv_desired (fold (replace_program prev) names s)) n =
     (if n \<in> set names then fmlookup prev n else fmlookup (sv_desired s) n) \<and>
   sv_inflight (fold (replace_program prev) names s) = sv_inflight s"
  by (induction names arbitrary: s) (auto simp: replace_program_def split: option.splits)

lemma fold_take:
  "set names \<subseteq> fmdom' (Programs c) \<Longrightarrow>
   fmlookup (sv_processes (fold (take_program c) names s)) n =
     (if n \<in> set names then Some newProcess else fmlookup (sv_processes s) n) \<and>
   fmlookup (sv_desired (fold (take_program c) names s)) n =
     (if n \<in> set names then map_option initial_desired (fmlookup (Programs c) n) else fmlookup (sv_desired s) n) \<and>
   sv_inflight (fold (take_program c) names s) = sv_inflight s"
  by (induction names arbitrary: s) (auto simp: take_program_def in_dom_iff)

lemma applyPrograms_lookup:
  assumes "set (rr_Added r) \<subseteq> fmdom' (Programs newCfg)"
  shows "fmlookup (sv_processes (applyPrograms ords newCfg prev r s)) n =
      (if n \<in> set (rr_Added r) \<union> set (rr_Changed r) then Some newProcess
       else if n \<in> set (rr_Removed r) then None else fmlookup (sv_processes s) n)"
    and "fmlookup (sv_desired (applyPrograms ords newCfg prev r s)) n =
      (if n \<in> set (rr_Added r) then map_option initial_desired (fmlookup (Programs newCfg) n)
       else if n \<in> set (rr_Changed r) then fmlookup prev n
       else if n \<in> set (rr_Removed r) then None else fmlookup (sv_desired s) n)"
    and "n \<in> sv_inflight (applyPrograms ords newCfg prev r s) \<longleftrightarrow> n \<in> sv_inflight s \<and> n \<notin> set (rr_Removed r)"
  using assms by (auto simp: applyPrograms_def Let_def fold_take fold_replace fold_forget)

lemma ask_stop_frame [simp]:
  "sv_config (ask_stop n s) = sv_config s" "sv_processes (ask_stop n s) = sv_processes s"
  "sv_inflight (ask_stop n s) = sv_inflight s" "sv_graph (ask_stop n s) = sv_graph s"
  by (simp_all add: ask_stop_def setDesired_def Let_def)

lemma stopForReload_frame [simp]:
  "sv_config (stopForReload names s) = sv_config s" "sv_processes (stopForReload names s) = sv_processes s"
  "sv_inflight (stopForReload names s) = sv_inflight s"
  unfolding stopForReload_def by (induction names arbitrary: s) simp_all

lemma ask_stop_desired:
  "fmlookup (sv_desired (ask_stop n s)) m = (if m = n \<and> fmlookup (sv_processes s) n \<noteq> None then Some DesiredStopped else fmlookup (sv_desired s) m)"
  by (auto simp: ask_stop_def setDesired_def Let_def)

lemma stopForReload_desired:
  "fmlookup (sv_desired (stopForReload names s)) m =
     (if m \<in> set names \<and> fmlookup (sv_processes s) m \<noteq> None then Some DesiredStopped else fmlookup (sv_desired s) m)"
  unfolding stopForReload_def
  by (induction names arbitrary: s) (auto simp: ask_stop_desired)

text \<open>What the reconciler, the programs and the callers can make of a server.\<close>

definition goes_to :: "server \<Rightarrow> server \<Rightarrow> bool" where
  "goes_to s s' \<longleftrightarrow> (\<exists>acts ls acts'. runs server_step \<lparr>sr_server = s, sr_actions = acts\<rparr> ls \<lparr>sr_server = s', sr_actions = acts'\<rparr>)"

lemma goes_to_refl [simp]: "goes_to s s"
  unfolding goes_to_def by (blast intro: runs_none)

definition same_programs :: "server \<Rightarrow> server \<Rightarrow> bool" where
  "same_programs s s' \<longleftrightarrow> sv_config s' = sv_config s \<and> fmdom' (sv_processes s') = fmdom' (sv_processes s) \<and>
     (fmdom' (sv_desired s) = fmdom' (sv_processes s) \<longrightarrow> fmdom' (sv_desired s') = fmdom' (sv_processes s'))"

lemma same_programs_trans: "same_programs s s' \<Longrightarrow> same_programs s' s'' \<Longrightarrow> same_programs s s''"
  unfolding same_programs_def by metis

lemma server_step_programs: "server_step r l r' \<Longrightarrow> same_programs (sr_server r) (sr_server r')"
proof (erule server_stepE, goal_cases)
  case (1 name act s')
  then show ?case using reconcile_one_frame [of name "sr_server r"] by (simp add: same_programs_def)
next
  case 2
  then show ?case by (simp add: same_programs_def action_done_def)
next
  case (3 name p)
  from 3(3) have "name \<in> fmdom' (sv_processes (sr_server r))" by (simp add: in_dom_iff)
  from insert_absorb [OF this] show ?case by (simp add: 3(2) same_programs_def)
next
  case (4 name desired s')
  have "name \<in> fmdom' (sv_processes (sr_server r))"
    using 4(3) by (simp add: in_dom_iff setDesired_def split: if_splits)
  from insert_absorb [OF this] have "fmdom' (sv_desired (sr_server r)) = fmdom' (sv_processes (sr_server r)) \<Longrightarrow>
      insert name (fmdom' (sv_desired (sr_server r))) = fmdom' (sv_processes (sr_server r))" by simp
  moreover have "sv_config s' = sv_config (sr_server r)" "sv_processes s' = sv_processes (sr_server r)"
    "fmdom' (sv_desired s') = insert name (fmdom' (sv_desired (sr_server r)))"
    using 4(3) by (simp_all add: setDesired_def Let_def split: if_splits) auto
  ultimately show ?case unfolding 4(2) same_programs_def by simp
qed

lemma runs_programs: "runs server_step r ls r' \<Longrightarrow> same_programs (sr_server r) (sr_server r')"
proof (induction rule: runs.induct)
  case (runs_more r ls r' l r'')
  from runs_more.IH server_step_programs [OF runs_more.hyps(2)] show ?case by (rule same_programs_trans)
qed (simp add: same_programs_def)

lemma goes_to_programs: "goes_to s s' \<Longrightarrow> same_programs s s'"
  unfolding goes_to_def by (auto dest: runs_programs)

lemma check_reload_ok:
  assumes "check_reload parsed ords mkdirAll fs s = Inr newCfg" and "orders_ok ords newCfg"
  shows "parsed (SourcePath (sv_config s)) = Inr newCfg" and "closed_deps newCfg"
    and "sortable (buildDependencyGraph ords newCfg)"
proof -
  have valid: "Validate (o_validate ords) newCfg = Inr ()"
    and top: "\<exists>xs. TopologicalSort (o_nodes ords) (o_degrees ords) (buildDependencyGraph ords newCfg) = Inr xs"
    and "parsed (SourcePath (sv_config s)) = Inr newCfg"
    using assms(1) by (auto simp: check_reload_def Let_def split: if_splits sum.splits)
  then show "parsed (SourcePath (sv_config s)) = Inr newCfg" by simp
  have ord: "ranges (o_validate ords) (Programs newCfg)" "ranges (o_nodes ords) (nodes (buildDependencyGraph ords newCfg))"
    "ranges (o_degrees ords) (nodes (buildDependencyGraph ords newCfg))"
    using assms(2) build_ranges [OF assms(2)] by (simp_all add: orders_ok_def)
  show "closed_deps newCfg" using Validate_accepts(2) [OF ord(1) valid] .
  show "sortable (buildDependencyGraph ords newCfg)"
    using TopologicalSort_iff_sortable [OF buildDependencyGraph_ok(1) [OF assms(2)] ord(2,3)] top by blast
qed

lemma ask_stop_dom:
  "fmdom' (sv_desired s) = fmdom' (sv_processes s) \<Longrightarrow> fmdom' (sv_desired (ask_stop n s)) = fmdom' (sv_processes s)"
  by (simp add: ask_stop_def setDesired_def Let_def insert_absorb in_dom_iff)

lemma stopForReload_dom:
  "fmdom' (sv_desired s) = fmdom' (sv_processes s) \<Longrightarrow> fmdom' (sv_desired (stopForReload names s)) = fmdom' (sv_processes s)"
  unfolding stopForReload_def by (induction names arbitrary: s) (simp_all add: ask_stop_dom)

lemma applyPrograms_plan:
  assumes "ranges ordU (Programs newCfg)" and "ranges ordO old"
  shows "if fmlookup (Programs newCfg) n = fmlookup old n
    then fmlookup (sv_processes (applyPrograms ords newCfg prev (diffPrograms ordU ordO old (Programs newCfg)) s)) n =
        fmlookup (sv_processes s) n \<and>
      fmlookup (sv_desired (applyPrograms ords newCfg prev (diffPrograms ordU ordO old (Programs newCfg)) s)) n =
        fmlookup (sv_desired s) n
    else fmlookup (sv_processes (applyPrograms ords newCfg prev (diffPrograms ordU ordO old (Programs newCfg)) s)) n =
        map_option (\<lambda>_. newProcess) (fmlookup (Programs newCfg) n) \<and>
      fmlookup (sv_desired (applyPrograms ords newCfg prev (diffPrograms ordU ordO old (Programs newCfg)) s)) n =
        (case (fmlookup (Programs newCfg) n, fmlookup old n) of
           (None, _) \<Rightarrow> None
         | (Some prog, None) \<Rightarrow> Some (if pc_Autostart prog then DesiredRunning else DesiredStopped)
         | (Some prog, Some _) \<Rightarrow> fmlookup prev n)"
proof -
  let ?r = "diffPrograms ordU ordO old (Programs newCfg)"
  note sets = diffPrograms_sets [OF assms]
  have "set (rr_Added ?r) \<subseteq> fmdom' (Programs newCfg)" using sets(1) by auto
  note look = applyPrograms_lookup [OF this, where ords = ords and prev = prev and s = s and n = n]
  have "n \<in> set (rr_Added ?r) \<longleftrightarrow> fmlookup (Programs newCfg) n \<noteq> None \<and> fmlookup old n = None"
    "n \<in> set (rr_Removed ?r) \<longleftrightarrow> fmlookup old n \<noteq> None \<and> fmlookup (Programs newCfg) n = None"
    "n \<in> set (rr_Changed ?r) \<longleftrightarrow> fmlookup old n \<noteq> None \<and> fmlookup (Programs newCfg) n \<noteq> None \<and>
       fmlookup old n \<noteq> fmlookup (Programs newCfg) n"
    unfolding sets by (auto simp: in_dom_iff)
  then show ?thesis unfolding look Un_iff
    by (cases "fmlookup (Programs newCfg) n"; cases "fmlookup old n") (auto simp: initial_desired_def)
qed

lemma applyPrograms_dom:
  assumes "ranges ordU (Programs newCfg)" and "ranges ordO old"
    and "fmdom' (sv_processes s) = fmdom' old" "fmdom' (sv_desired s) = fmdom' old" and "fmdom' prev = fmdom' old"
  shows "fmdom' (sv_processes (applyPrograms ords newCfg prev (diffPrograms ordU ordO old (Programs newCfg)) s)) = fmdom' (Programs newCfg)"
    and "fmdom' (sv_desired (applyPrograms ords newCfg prev (diffPrograms ordU ordO old (Programs newCfg)) s)) = fmdom' (Programs newCfg)"
proof -
  let ?s = "applyPrograms ords newCfg prev (diffPrograms ordU ordO old (Programs newCfg)) s"
  have dom: "fmlookup (sv_processes s) n = None \<longleftrightarrow> fmlookup old n = None"
    "fmlookup (sv_desired s) n = None \<longleftrightarrow> fmlookup old n = None" "fmlookup prev n = None \<longleftrightarrow> fmlookup old n = None" for n
    using assms(3-5) by (metis in_dom_iff)+
  have "(fmlookup (sv_processes ?s) n = None \<longleftrightarrow> fmlookup (Programs newCfg) n = None) \<and>
      (fmlookup (sv_desired ?s) n = None \<longleftrightarrow> fmlookup (Programs newCfg) n = None)" for n
    using applyPrograms_plan [OF assms(1,2), of n ords prev s] dom [of n]
    by (cases "fmlookup (Programs newCfg) n"; cases "fmlookup old n") (auto split: if_splits)
  then show "fmdom' (sv_processes ?s) = fmdom' (Programs newCfg)" "fmdom' (sv_desired ?s) = fmdom' (Programs newCfg)"
    by (simp_all add: set_eq_iff in_dom_iff)
qed

lemma applyPrograms_server_ok:
  assumes "orders_ok ords newCfg" and "closed_deps newCfg" and "sortable (buildDependencyGraph ords newCfg)"
    and "ranges ordU (Programs newCfg)" and "ranges ordO old"
    and "fmdom' (sv_processes s) = fmdom' old" "fmdom' (sv_desired s) = fmdom' old" and "fmdom' prev = fmdom' old"
  shows "server_ok (applyPrograms ords newCfg prev (diffPrograms ordU ordO old (Programs newCfg)) s)" (is "server_ok ?s")
proof -
  have "sv_config ?s = newCfg" "sv_graph ?s = buildDependencyGraph ords newCfg"
    by (simp_all add: applyPrograms_def Let_def)
  then show ?thesis
    using assms(2,3) applyPrograms_dom [OF assms(4-8), of ords]
    by (simp add: server_ok_def buildDependencyGraph_ok [OF assms(1)])
qed

text \<open>
  What a reload of the server \<open>s\<close> makes of the program \<open>n\<close>: \<open>asked\<close> is the server after the stops it asks for,
  \<open>during\<close> that at the end of its wait, \<open>s'\<close> the one it leaves.
\<close>

definition follows_plan :: "server \<Rightarrow> Config \<Rightarrow> server \<Rightarrow> server \<Rightarrow> server \<Rightarrow> string \<Rightarrow> bool" where
  "follows_plan s newCfg asked during s' n \<longleftrightarrow>
     (if fmlookup (Programs newCfg) n = fmlookup (Programs (sv_config s)) n
      then fmlookup (sv_desired asked) n = fmlookup (sv_desired s) n \<and>
        fmlookup (sv_processes s') n = fmlookup (sv_processes during) n \<and>
        fmlookup (sv_desired s') n = fmlookup (sv_desired during) n
      else fmlookup (sv_processes s') n = map_option (\<lambda>_. newProcess) (fmlookup (Programs newCfg) n) \<and>
        fmlookup (sv_desired s') n =
          (case (fmlookup (Programs newCfg) n, fmlookup (Programs (sv_config s)) n) of
             (None, _) \<Rightarrow> None
           | (Some prog, None) \<Rightarrow> Some (if pc_Autostart prog then DesiredRunning else DesiredStopped)
           | (Some prog, Some _) \<Rightarrow> fmlookup (sv_desired s) n))"

section \<open>Properties\<close>

text \<open>
  The plan of a reload is exact: the names only in the new configuration, those only in the old one and
  those defined differently in both, each list in strictly increasing order and the same whatever the
  order of the maps; it is empty exactly when the programs are the same.
\<close>

theorem diffPrograms_exact:
  assumes "ranges ordU updated" and "ranges ordO old"
  shows "(let r = diffPrograms ordU ordO old updated in
      set (rr_Added r) = fmdom' updated - fmdom' old \<and> set (rr_Removed r) = fmdom' old - fmdom' updated \<and>
      set (rr_Changed r) = {n \<in> fmdom' old \<inter> fmdom' updated. fmlookup old n \<noteq> fmlookup updated n} \<and>
      (\<forall>ns \<in> {rr_Added r, rr_Removed r, rr_Changed r}. sorted_wrt (<) ns) \<and>
      (\<forall>ordU' ordO'. ranges ordU' updated \<and> ranges ordO' old \<longrightarrow> diffPrograms ordU' ordO' old updated = r) \<and>
      (Empty r \<longleftrightarrow> old = updated))"
proof -
  let ?r = "diffPrograms ordU ordO old updated"
  note sets = diffPrograms_sets [OF assms] and sorted = diffPrograms_sorted [OF assms]
  have same: "diffPrograms ordU' ordO' old updated = ?r" if o: "ranges ordU' updated" "ranges ordO' old" for ordU' ordO'
  proof -
    have eq: "xs = ys" if "set xs = set ys" "sorted_wrt (<) xs" "sorted_wrt (<) ys" for xs ys :: "string list"
      using that by (metis sorted_distinct_set_unique strict_sorted_iff)
    note sets' = diffPrograms_sets [OF o] and sorted' = diffPrograms_sorted [OF o]
    have "rr_Added (diffPrograms ordU' ordO' old updated) = rr_Added ?r"
      "rr_Removed (diffPrograms ordU' ordO' old updated) = rr_Removed ?r"
      "rr_Changed (diffPrograms ordU' ordO' old updated) = rr_Changed ?r"
      by (rule eq, simp_all only: sets sets' sorted sorted')+
    then show ?thesis by simp
  qed
  show ?thesis using sets sorted same diffPrograms_empty_iff [OF assms] by (auto simp: Let_def)
qed

theorem diffPrograms_exact_witness:
  "set (rr_Removed (diffPrograms [''web''] [''db'', ''web'']
     (Programs (sample_validate [(''db'', []), (''web'', [])])) (Programs (sample_validate [(''web'', [])])))) = {''db''}"
proof -
  have "ranges [''web''] (Programs (sample_validate [(''web'', [])]))"
    "ranges [''db'', ''web''] (Programs (sample_validate [(''db'', []), (''web'', [])]))"
    by (auto simp: ranges_def sample_validate_def)
  from diffPrograms_exact [OF this] show ?thesis by (auto simp: Let_def sample_validate_def)
qed

text \<open>
  C9. A refused reload leaves the server as it was. An accepted one leaves it well-formed whatever happened
  while it waited, asks nothing of a program whose definition stays, and keeps its process and whatever
  was asked of it; a redefined program gets a fresh process and what was wanted of it when the reload
  began; an added one starts fresh, wanted if it is set to start; the others are gone.
\<close>

theorem Reload_applies_plan:
  assumes ok: "server_ok s" and old: "ranges (snd ords2) (Programs (sv_config s))"
    and new: "\<And>newCfg. parsed (SourcePath (sv_config s)) = Inr newCfg \<Longrightarrow>
        orders_ok ords newCfg \<and> ranges (fst ords2) (Programs newCfg)"
    and world: "\<And>t. goes_to t (meanwhile t)"
    and reload: "Reload parsed ords ords2 mkdirAll fs meanwhile s = (res, s')"
  shows "server_ok s' \<and>
    (case res of
       Inl e \<Rightarrow> s' = s
     | Inr r \<Rightarrow> \<exists>newCfg. parsed (SourcePath (sv_config s)) = Inr newCfg \<and> Programs (sv_config s') = Programs newCfg \<and>
         (let asked = stopForReload (rr_Removed r @ rr_Changed r) s
          in \<forall>n. follows_plan s newCfg asked (if Empty r then s else meanwhile asked) s' n))"
proof (cases "check_reload parsed ords mkdirAll fs s")
  case (Inl e)
  with reload ok show ?thesis by (auto simp: Reload_def)
next
  case (Inr newCfg)
  let ?old = "Programs (sv_config s)"
  let ?r = "diffPrograms (fst ords2) (snd ords2) ?old (Programs newCfg)"
  let ?asked = "stopForReload (rr_Removed ?r @ rr_Changed ?r) s"
  let ?t = "meanwhile ?asked"
  have parsed: "parsed (SourcePath (sv_config s)) = Inr newCfg"
    using Inr by (auto simp: check_reload_def Let_def split: if_splits sum.splits)
  from new [OF this] have ords: "orders_ok ords newCfg" and ranges: "ranges (fst ords2) (Programs newCfg)" by blast+
  note accepted = check_reload_ok [OF Inr ords]
  note sets = diffPrograms_sets [OF ranges old]
  have dom: "fmdom' (sv_processes s) = fmdom' ?old" "fmdom' (sv_desired s) = fmdom' ?old"
    using ok by (simp_all add: server_ok_def)
  have asked: "fmlookup (sv_desired ?asked) n = fmlookup (sv_desired s) n"
    if "fmlookup (Programs newCfg) n = fmlookup ?old n" for n
    using that by (auto simp: stopForReload_desired sets in_dom_iff)
  show ?thesis
  proof (cases "Empty ?r")
    case True
    then have "?old = Programs newCfg" using diffPrograms_empty_iff [OF ranges old] by blast
    moreover have "res = Inr ?r" "s' = s" using reload Inr True by (auto simp: Reload_def Let_def)
    ultimately show ?thesis using ok parsed asked True by (auto simp: Let_def follows_plan_def)
  next
    case False
    then have res: "res = Inr ?r" "s' = applyPrograms ords newCfg (sv_desired s) ?r ?t"
      using reload Inr by (auto simp: Reload_def Let_def)
    note plan = applyPrograms_plan [OF ranges old, where ords = ords and prev = "sv_desired s" and s = ?t]
    have t: "fmdom' (sv_processes ?t) = fmdom' ?old" "fmdom' (sv_desired ?t) = fmdom' ?old"
      using goes_to_programs [OF world, of ?asked] dom stopForReload_dom [of s]
      by (simp_all add: same_programs_def)
    have ok': "server_ok s'" unfolding res(2)
      by (rule applyPrograms_server_ok [OF ords accepted(2,3) ranges old t dom(2)])
    have new: "Programs (sv_config s') = Programs newCfg" by (simp add: res applyPrograms_def Let_def)
    show ?thesis unfolding res(1) sum.case Let_def if_not_P [OF False]
    proof (intro conjI exI [of _ newCfg] allI)
      show "server_ok s'" by (rule ok')
      show "parsed (SourcePath (sv_config s)) = Inr newCfg" by (rule parsed)
      show "Programs (sv_config s') = Programs newCfg" by (rule new)
      fix n
      show "follows_plan s newCfg ?asked ?t s' n"
        using plan [of n, folded res(2)] asked [of n] unfolding follows_plan_def
        by (cases "fmlookup (Programs newCfg) n = fmlookup ?old n") (simp_all only: if_True if_False simp_thms)
    qed
  qed
qed

definition sample_new_cfg :: Config where
  "sample_new_cfg = sample_validate [(''db'', [])]"

text \<open>The sample server is asked to drop its program \<^verbatim>\<open>api\<close>.\<close>

theorem Reload_applies_plan_witness:
  "server_ok (snd (Reload (\<lambda>path. Inr sample_new_cfg) (sample_orders\<lparr>o_validate := [''db''], o_build := [''db''],
     o_nodes := [''db''], o_degrees := [''db'']\<rparr>) ([''db''], [''api'', ''db'']) (\<lambda>dir fs. Inr fs) () (\<lambda>t. t) sample_running))"
proof -
  let ?ords = "sample_orders\<lparr>o_validate := [''db''], o_build := [''db''], o_nodes := [''db''], o_degrees := [''db'']\<rparr>"
  have "server_ok sample_running" using sample_made(2) by (simp add: sample_running_def)
  moreover have "ranges (snd ([''db''], [''api'', ''db''])) (Programs (sv_config sample_running))"
    by (auto simp: sample_running_config ranges_def sample_validate_def)
  moreover have "orders_ok ?ords sample_new_cfg \<and> ranges (fst ([''db''], [''api'', ''db''])) (Programs sample_new_cfg)"
    by (auto simp: orders_ok_def ranges_def sample_orders_def sample_new_cfg_def sample_validate_def)
  moreover obtain res s' where "Reload (\<lambda>path. Inr sample_new_cfg) ?ords ([''db''], [''api'', ''db''])
      (\<lambda>dir fs. Inr fs) () (\<lambda>t. t) sample_running = (res, s')"
    by (rule prod.exhaust)
  ultimately show ?thesis
    using Reload_applies_plan [of sample_running "([''db''], [''api'', ''db''])" "\<lambda>path. Inr sample_new_cfg" ?ords
        "\<lambda>t. t" "\<lambda>dir fs. Inr fs" "()" res s'] by simp
qed

section \<open>Dropping a program that has not stopped\<close>

text \<open>
  A program that takes longer to stop than a reload waits for it, with the action that stops it in flight.
\<close>

definition slow_stop :: server_run where
  "slow_stop = \<lparr>sr_server = \<lparr>sv_config = sample_validate [(''db'', []), (''web'', [])],
       sv_processes = fmap_of_list [(''db'', sample_program_in StateStopping), (''web'', sample_program_in StateRunning)],
       sv_desired = fmap_of_list [(''db'', DesiredRunning), (''web'', DesiredRunning)],
       sv_inflight = {''db''}, sv_blockedReason = fmempty,
       sv_graph = NewGraph, sv_logged = []\<rparr>,
     sr_actions = {#(''db'', StopAction)#}\<rparr>"

definition reload_to :: "(string \<times> string list) list \<Rightarrow> server \<Rightarrow> server" where
  "reload_to ps s = snd (Reload (\<lambda>path. Inr (sample_validate ps))
     \<lparr>o_validate = map fst ps, o_dirs = [], o_build = map fst ps, o_inner = (\<lambda>S. filter (\<lambda>n. n \<in> S) (map fst ps)),
       o_nodes = map fst ps, o_degrees = map fst ps\<rparr>
     (map fst ps, [''db'', ''web'']) (\<lambda>dir fs. Inr fs) () (\<lambda>t. t) s)"

lemma slow_stop_first:
  "one_action slow_stop" "fst (reconcile_one ''db'' (sr_server slow_stop)) = None"
  "fmlookup (sv_processes (reload_to [(''web'', [])] (sr_server slow_stop))) ''db'' = None"
  by (simp add: one_action_def actions_of_def slow_stop_def, code_simp, code_simp)

lemma slow_stop_second:
  "fst (reconcile_one ''db'' (reload_to [(''db'', []), (''web'', [])] (reload_to [(''web'', [])] (sr_server slow_stop)))) = Some StartAction"
  by code_simp

lemma start_beside:
  assumes "fst (reconcile_one ''db'' s) = Some StartAction"
  shows "\<exists>r'. server_step (slow_stop\<lparr>sr_server := s\<rparr>) (Consider ''db'') r' \<and> actions_of ''db'' r' = 2"
proof -
  obtain s' where "reconcile_one ''db'' (sr_server (slow_stop\<lparr>sr_server := s\<rparr>)) = (Some StartAction, s')"
    using assms by (cases "reconcile_one ''db'' s") simp
  note step = consider_name [OF this]
  show ?thesis by (rule exI, rule conjI, rule step) (simp add: actions_of_def slow_stop_def)
qed

text \<open>
  Two reloads, the first dropping a program and the second taking it back, while the stop of the program
  is still in flight: the program gets a second process, which the reconciler starts beside the first,
  because \<open>applyPrograms\<close> forgets the mark that keeps actions apart.
\<close>

theorem reload_forgets_pending_stop:
  "(let s1 = reload_to [(''web'', [])] (sr_server slow_stop);
        s2 = reload_to [(''db'', []), (''web'', [])] s1
    in one_action slow_stop \<and> fst (reconcile_one ''db'' (sr_server slow_stop)) = None \<and>
       fmlookup (sv_processes s1) ''db'' = None \<and> fst (reconcile_one ''db'' s2) = Some StartAction \<and>
       (\<exists>r'. server_step (slow_stop\<lparr>sr_server := s2\<rparr>) (Consider ''db'') r' \<and> actions_of ''db'' r' = 2))"
  using slow_stop_first slow_stop_second start_beside [OF slow_stop_second] by (simp only: Let_def simp_thms)

end
