(* ===== verification/PidLock.thy ===== *)
theory PidLock
  imports Config Machine
begin

text \<open>
  The PID file and its lock: \<^verbatim>\<open>internal/server/pidlock.go\<close>.

  Daemons start, stop and crash in parallel, so the two operations are cut at their system calls and the
  calls of all daemons interleave. A daemon is its PID. A file is an inode, numbered in the order of
  creation; \<open>lk_path\<close> is what the path of the PID file refers to, \<open>lk_holder\<close> the \<^verbatim>\<open>flock\<close> of each inode,
  \<open>lk_text\<close> its contents. Every call that the operating system may refuse carries its outcome;
  making the directory of the file counts as part of opening it, and reading the file back does not fail.
\<close>

section \<open>The file's contents\<close>

definition newline :: char where
  "newline = CHR 0x0A"

datatype write_end = TruncateFails | SeekFails | WriteFails nat | SyncFails | Written

text \<open>The contents afterwards and whether the call succeeded; \<open>WriteFails n\<close> has written \<open>n\<close> bytes.\<close>

fun writePID :: "write_end \<Rightarrow> int \<Rightarrow> string \<Rightarrow> string \<times> bool" where
  "writePID TruncateFails pid old = (old, False)"
| "writePID SeekFails pid old = ([], False)"
| "writePID (WriteFails n) pid old = (take n (itoa pid @ [newline]), False)"
| "writePID SyncFails pid old = (itoa pid @ [newline], False)"
| "writePID Written pid old = (itoa pid @ [newline], True)"

definition maxPIDFileBytes :: nat where
  "maxPIDFileBytes = 32"

definition readPID :: "string \<Rightarrow> int" where
  "readPID text =
     (if take maxPIDFileBytes text = [] then 0
      else case ParseInt (TrimSpace (take maxPIDFileBytes text)) of None \<Rightarrow> 0 | Some pid \<Rightarrow> pid)"

section \<open>The daemons\<close>

datatype lock_error = PidOpenFailed | DaemonRunning int | HeldByAnother | PidWriteFailed

text \<open>Where a daemon is in \<open>acquirePIDLock\<close> and \<open>Release\<close>, with the inode it has open.\<close>

datatype lock_pc =
    Idle
  | Opening
  | Locking nat
  | Writing nat
  | Held nat
  | Checking nat
  | Removing nat
  | Closing nat
  | Refused lock_error
  | Gone

record lock_sys =
  lk_path :: "nat option"
  lk_next :: nat
  lk_holder :: "(nat, int) fmap"
  lk_text :: "(nat, string) fmap"
  lk_pc :: "int \<Rightarrow> lock_pc"

definition lk_at :: "int \<Rightarrow> lock_pc \<Rightarrow> lock_sys \<Rightarrow> lock_sys" where
  "lk_at d pc s = s\<lparr>lk_pc := (lk_pc s)(d := pc)\<rparr>"

text \<open>The end of a process, and \<^verbatim>\<open>Close\<close> of the only descriptor of an inode, free its lock.\<close>

definition close_file :: "int \<Rightarrow> lock_sys \<Rightarrow> lock_sys" where
  "close_file d s = s\<lparr>lk_holder := fmfilter (\<lambda>i. fmlookup (lk_holder s) i \<noteq> Some d) (lk_holder s)\<rparr>"

definition text_of :: "lock_sys \<Rightarrow> nat \<Rightarrow> string" where
  "text_of s i = (case fmlookup (lk_text s) i of None \<Rightarrow> [] | Some t \<Rightarrow> t)"

definition open_pid_file :: "int \<Rightarrow> bool \<Rightarrow> lock_sys \<Rightarrow> lock_sys" where
  "open_pid_file d ok s =
     (if \<not> ok then lk_at d (Refused PidOpenFailed) s
      else case lk_path s of
             Some i \<Rightarrow> lk_at d (Locking i) s
           | None \<Rightarrow> lk_at d (Locking (lk_next s)) (s\<lparr>lk_path := Some (lk_next s), lk_next := Suc (lk_next s),
               lk_text := fmupd (lk_next s) [] (lk_text s)\<rparr>))"

definition flock_pid_file :: "int \<Rightarrow> bool \<Rightarrow> nat \<Rightarrow> lock_sys \<Rightarrow> lock_sys" where
  "flock_pid_file d ok i s =
     (if ok \<and> fmlookup (lk_holder s) i = None
      then lk_at d (Writing i) (s\<lparr>lk_holder := fmupd i d (lk_holder s)\<rparr>)
      else (let owner = readPID (text_of s i)
            in lk_at d (Refused (if owner > 0 then DaemonRunning owner else HeldByAnother)) (close_file d s)))"

definition write_pid_file :: "int \<Rightarrow> write_end \<Rightarrow> nat \<Rightarrow> lock_sys \<Rightarrow> lock_sys" where
  "write_pid_file d res i s =
     (let w = writePID res d (text_of s i); s1 = s\<lparr>lk_text := fmupd i (fst w) (lk_text s)\<rparr>
      in if snd w then lk_at d (Held i) s1 else lk_at d (Refused PidWriteFailed) (close_file d s1))"

text \<open>\<open>Release\<close>: \<^verbatim>\<open>Stat\<close> of the open file, then \<open>removeIfSame\<close> in two calls, then \<^verbatim>\<open>Close\<close>.\<close>

definition begin_release :: "int \<Rightarrow> bool \<Rightarrow> nat \<Rightarrow> lock_sys \<Rightarrow> lock_sys" where
  "begin_release d ok i s = lk_at d (if ok then Checking i else Closing i) s"

definition check_same :: "int \<Rightarrow> bool \<Rightarrow> nat \<Rightarrow> lock_sys \<Rightarrow> lock_sys" where
  "check_same d ok i s = lk_at d (if ok \<and> lk_path s = Some i then Removing i else Closing i) s"

definition remove_path :: "int \<Rightarrow> bool \<Rightarrow> nat \<Rightarrow> lock_sys \<Rightarrow> lock_sys" where
  "remove_path d ok i s = lk_at d (Closing i) (if ok then s\<lparr>lk_path := None\<rparr> else s)"

datatype lock_label =
    Acquire int
  | Opens int bool
  | Flocks int bool
  | Writes int write_end
  | Releases int bool
  | Checks int bool
  | Removes int bool
  | Closes int
  | Exits int

text \<open>\<open>None\<close>: the daemon is not at that call.\<close>

fun lock_exec :: "lock_label \<Rightarrow> lock_sys \<Rightarrow> lock_sys option" where
  "lock_exec (Acquire d) s = (if lk_pc s d = Idle then Some (lk_at d Opening s) else None)"
| "lock_exec (Opens d ok) s = (if lk_pc s d = Opening then Some (open_pid_file d ok s) else None)"
| "lock_exec (Flocks d ok) s = (case lk_pc s d of Locking i \<Rightarrow> Some (flock_pid_file d ok i s) | _ \<Rightarrow> None)"
| "lock_exec (Writes d res) s = (case lk_pc s d of Writing i \<Rightarrow> Some (write_pid_file d res i s) | _ \<Rightarrow> None)"
| "lock_exec (Releases d ok) s = (case lk_pc s d of Held i \<Rightarrow> Some (begin_release d ok i s) | _ \<Rightarrow> None)"
| "lock_exec (Checks d ok) s = (case lk_pc s d of Checking i \<Rightarrow> Some (check_same d ok i s) | _ \<Rightarrow> None)"
| "lock_exec (Removes d ok) s = (case lk_pc s d of Removing i \<Rightarrow> Some (remove_path d ok i s) | _ \<Rightarrow> None)"
| "lock_exec (Closes d) s = (case lk_pc s d of Closing i \<Rightarrow> Some (lk_at d Gone (close_file d s)) | _ \<Rightarrow> None)"
| "lock_exec (Exits d) s = Some (lk_at d Idle (close_file d s))"

fun lock_exec_all :: "lock_label list \<Rightarrow> lock_sys \<Rightarrow> lock_sys option" where
  "lock_exec_all [] s = Some s"
| "lock_exec_all (l # ls) s = (case lock_exec l s of None \<Rightarrow> None | Some s' \<Rightarrow> lock_exec_all ls s')"

inductive lock_step :: "lock_sys \<Rightarrow> lock_label \<Rightarrow> lock_sys \<Rightarrow> bool" where
  lock_step_exec: "lock_exec l s = Some s' \<Longrightarrow> lock_step s l s'"

inductive_simps lock_step_iff: "lock_step s l s'"

text \<open>No daemon is between opening the file and asking for its lock when another removes the path.\<close>

definition in_turn :: "lock_sys \<Rightarrow> lock_label \<Rightarrow> bool" where
  "in_turn s l \<longleftrightarrow> (case l of Removes d ok \<Rightarrow> ok \<longrightarrow> (\<forall>e i. lk_pc s e \<noteq> Locking i) | _ \<Rightarrow> True)"

inductive orderly_step :: "lock_sys \<Rightarrow> lock_label \<Rightarrow> lock_sys \<Rightarrow> bool" where
  orderly: "lock_step s l s' \<Longrightarrow> in_turn s l \<Longrightarrow> orderly_step s l s'"

inductive_simps orderly_step_iff: "orderly_step s l s'"

text \<open>Nothing runs, and the path may refer to the file of a daemon that died.\<close>

definition no_daemon :: "lock_sys \<Rightarrow> bool" where
  "no_daemon s \<longleftrightarrow> (\<forall>d. lk_pc s d = Idle) \<and> lk_holder s = fmempty \<and> (\<forall>i. lk_path s = Some i \<longrightarrow> i < lk_next s)"

section \<open>Reading the PID back\<close>

lemma length_nat_digits: "n < 10 ^ k \<Longrightarrow> 0 < k \<Longrightarrow> length (nat_digits n) \<le> k"
proof (induction n arbitrary: k rule: nat_digits.induct)
  case (1 n)
  show ?case
  proof (cases "n < 10")
    case True
    with 1(3) show ?thesis by (subst nat_digits.simps) simp
  next
    case False
    from 1(2) False obtain k' where k: "k = Suc k'" "0 < k'" by (cases k; cases "k - 1") auto
    with 1(2) have "n div 10 < 10 ^ k'" by (simp add: less_mult_imp_div_less mult.commute)
    from "1.IH" [OF False this k(2)] False k(1) show ?thesis by (subst nat_digits.simps) simp
  qed
qed

lemma newline_space: "is_space newline"
  by (simp add: is_space_def newline_def)

lemma readPID_writePID: "0 \<le> pid \<Longrightarrow> pid < 2 ^ 63 \<Longrightarrow> readPID (itoa pid @ [newline]) = pid"
proof -
  assume pid: "0 \<le> pid" "pid < 2 ^ 63"
  let ?t = "nat_digits (nat pid)"
  have "nat pid < 10 ^ 19" using pid(2) by simp
  then have "length ?t \<le> 19" by (rule length_nat_digits) simp
  then have "take maxPIDFileBytes (itoa pid @ [newline]) = ?t @ [newline]"
    using pid(1) by (simp add: maxPIDFileBytes_def itoa_def)
  moreover have "TrimSpace (?t @ [newline]) = ?t"
  proof -
    have no: "list_all (\<lambda>c. \<not> is_space c) ?t"
      using nat_digits_digits [of "nat pid"] by (auto simp: list_all_iff digit_not_space)
    then have "dropWhile is_space (?t @ [newline]) = ?t @ [newline]" "dropWhile is_space (rev ?t) = rev ?t"
      using nat_digits_nonempty [of "nat pid"]
      by (auto simp: list_all_iff dropWhile_append1 neq_Nil_conv dropWhile_eq_self_iff hd_rev)
    then show ?thesis by (simp add: TrimSpace_def newline_space)
  qed
  moreover have "ParseInt ?t = Some pid" using ParseInt_nat_digits [of "nat pid"] pid by simp
  ultimately show ?thesis by (simp add: readPID_def)
qed

section \<open>The invariant\<close>

fun locked_inode :: "lock_pc \<Rightarrow> nat option" where
  "locked_inode (Writing i) = Some i"
| "locked_inode (Held i) = Some i"
| "locked_inode (Checking i) = Some i"
| "locked_inode (Removing i) = Some i"
| "locked_inode (Closing i) = Some i"
| "locked_inode _ = None"

fun open_inode :: "lock_pc \<Rightarrow> nat option" where
  "open_inode (Locking i) = Some i"
| "open_inode pc = locked_inode pc"

text \<open>The inode that a daemon takes for the PID file, until it has removed or given it up.\<close>

fun claimed :: "lock_pc \<Rightarrow> nat option" where
  "claimed (Closing i) = None"
| "claimed pc = open_inode pc"

definition lock_inv :: "lock_sys \<Rightarrow> bool" where
  "lock_inv s \<longleftrightarrow>
     (\<forall>i d. fmlookup (lk_holder s) i = Some d \<longleftrightarrow> locked_inode (lk_pc s d) = Some i) \<and>
     (\<forall>d i. open_inode (lk_pc s d) = Some i \<longrightarrow> i < lk_next s) \<and>
     (\<forall>i. lk_path s = Some i \<longrightarrow> i < lk_next s) \<and>
     (\<forall>d i. lk_pc s d = Held i \<longrightarrow> text_of s i = itoa d @ [newline]) \<and>
     (\<forall>d i. lk_pc s d = Removing i \<longrightarrow> lk_path s = Some i)"

definition orderly_inv :: "lock_sys \<Rightarrow> bool" where
  "orderly_inv s \<longleftrightarrow> lock_inv s \<and> (\<forall>d i. claimed (lk_pc s d) = Some i \<longrightarrow> lk_path s = Some i)"

lemma lk_at_simps [simp]:
  "lk_pc (lk_at d pc s) e = (if e = d then pc else lk_pc s e)" "lk_path (lk_at d pc s) = lk_path s"
  "lk_holder (lk_at d pc s) = lk_holder s" "lk_next (lk_at d pc s) = lk_next s" "lk_text (lk_at d pc s) = lk_text s"
  "text_of (lk_at d pc s) = text_of s"
  by (simp_all add: lk_at_def text_of_def fun_eq_iff)

lemma close_file_simps [simp]:
  "lk_pc (close_file d s) = lk_pc s" "lk_path (close_file d s) = lk_path s" "lk_next (close_file d s) = lk_next s"
  "lk_text (close_file d s) = lk_text s" "text_of (close_file d s) = text_of s"
  "fmlookup (lk_holder (close_file d s)) i = (if fmlookup (lk_holder s) i = Some d then None else fmlookup (lk_holder s) i)"
  by (simp_all add: close_file_def text_of_def fun_eq_iff)

lemma locked_open: "locked_inode pc = Some i \<Longrightarrow> open_inode pc = Some i"
  by (cases pc) simp_all

text \<open>Every call but \<open>flock\<close> and \<open>write\<close> moves one daemon and gives it no lock it had not.\<close>

lemma lock_inv_move:
  assumes "lock_inv s" and "locked_inode pc = locked_inode (lk_pc s d)" and "open_inode pc \<in> {None, open_inode (lk_pc s d)}"
    and "\<And>i. pc = Held i \<Longrightarrow> lk_pc s d = Held i" and "\<And>i. pc = Removing i \<Longrightarrow> lk_path s = Some i"
  shows "lock_inv (lk_at d pc s)"
  using assms unfolding lock_inv_def by (auto split: if_splits)

lemma lock_inv_close:
  assumes "lock_inv s" and "open_inode pc = None"
  shows "lock_inv (lk_at d pc (close_file d s))"
proof -
  have "locked_inode pc = None" using assms(2) by (cases pc) simp_all
  moreover have "pc \<noteq> Held i" "pc \<noteq> Removing i" for i using assms(2) by auto
  moreover have "da = d" if "locked_inode (lk_pc s d) = Some i" "locked_inode (lk_pc s da) = Some i" for i da
    using assms(1) that unfolding lock_inv_def by (metis option.inject)
  ultimately show ?thesis using assms unfolding lock_inv_def by auto
qed

lemma lock_inv_facts:
  assumes "lock_inv s"
  shows "locked_inode (lk_pc s d) = Some i \<Longrightarrow> fmlookup (lk_holder s) i = Some d"
    and "open_inode (lk_pc s d) = Some i \<Longrightarrow> i < lk_next s"
    and "lk_pc s d = Held i \<Longrightarrow> text_of s i = itoa d @ [newline]"
    and "lk_pc s d = Removing i \<Longrightarrow> lk_path s = Some i"
  using assms by (simp_all add: lock_inv_def)

lemma lock_inv_open:
  assumes inv: "lock_inv s" and pc: "lk_pc s d = Opening"
  shows "lock_inv (open_pid_file d ok s)"
proof -
  have new: "locked_inode (lk_pc s e) \<noteq> Some (lk_next s)" "lk_pc s e \<noteq> Held (lk_next s)" for e
    using lock_inv_facts(2) [OF inv, of e "lk_next s"] locked_open by fastforce+
  have "lock_inv (lk_at d (Locking (lk_next s)) (s\<lparr>lk_path := Some (lk_next s), lk_next := Suc (lk_next s),
      lk_text := fmupd (lk_next s) [] (lk_text s)\<rparr>))" if none: "lk_path s = None"
  proof -
    have "lk_pc s e \<noteq> Removing j" for e j using lock_inv_facts(4) [OF inv, of e j] none by auto
    then show ?thesis using inv pc new by (auto simp: lock_inv_def text_of_def intro: less_SucI)
  qed
  moreover have "lock_inv (lk_at d (Locking i) s)" if "lk_path s = Some i" for i
    using inv pc that by (auto simp: lock_inv_def)
  moreover have "lock_inv (lk_at d (Refused PidOpenFailed) s)" using inv pc by (auto simp: lock_inv_def)
  ultimately show ?thesis by (simp add: open_pid_file_def split: option.split)
qed

lemma lock_inv_flock:
  assumes inv: "lock_inv s" and pc: "lk_pc s d = Locking i"
  shows "lock_inv (flock_pid_file d ok i s)"
proof (cases "ok \<and> fmlookup (lk_holder s) i = None")
  case True
  then have free: "locked_inode (lk_pc s e) \<noteq> Some i" for e using lock_inv_facts(1) [OF inv, of e i] by auto
  have "i < lk_next s" using lock_inv_facts(2) [OF inv, of d i] pc by simp
  then have "lock_inv (lk_at d (Writing i) (s\<lparr>lk_holder := fmupd i d (lk_holder s)\<rparr>))"
    using inv pc free by (auto simp: lock_inv_def text_of_def)
  with True show ?thesis by (simp add: flock_pid_file_def)
next
  case False
  then show ?thesis by (simp only: flock_pid_file_def Let_def if_False) (rule lock_inv_close [OF inv], simp)
qed

lemma lock_inv_write:
  assumes inv: "lock_inv s" and pc: "lk_pc s d = Writing i"
  shows "lock_inv (write_pid_file d res i s)"
proof -
  let ?s = "s\<lparr>lk_text := fmupd i (fst (writePID res d (text_of s i))) (lk_text s)\<rparr>"
  have "lk_pc s e \<noteq> Held i" for e
    using lock_inv_facts(1) [OF inv, of d i] lock_inv_facts(1) [OF inv, of e i] pc by auto
  then have inv': "lock_inv ?s" using inv by (auto simp: lock_inv_def text_of_def)
  show ?thesis
  proof (cases "snd (writePID res d (text_of s i))")
    case True
    then have wrote: "text_of ?s i = itoa d @ [newline]" by (cases res) (simp_all add: text_of_def)
    have "lk_pc ?s d = Writing i" "i < lk_next ?s" using pc lock_inv_facts(2) [OF inv, of d i] by simp_all
    with inv' wrote have "lock_inv (lk_at d (Held i) ?s)"
      unfolding lock_inv_def by (auto simp del: lock_sys.simps)
    with True show ?thesis by (simp add: write_pid_file_def Let_def)
  next
    case False
    then show ?thesis
      by (simp only: write_pid_file_def Let_def if_False) (rule lock_inv_close [OF inv'], simp)
  qed
qed

lemma locked_unique: "lock_inv s \<Longrightarrow> locked_inode (lk_pc s d) = Some i \<Longrightarrow> locked_inode (lk_pc s e) = Some i \<Longrightarrow> d = e"
  unfolding lock_inv_def by (metis option.inject)

lemma lock_inv_remove:
  assumes inv: "lock_inv s" and pc: "lk_pc s d = Removing i"
  shows "lock_inv (remove_path d ok i s)"
proof -
  have only: "e = d" if "lk_pc s e = Removing j" for e j
    using lock_inv_facts(4) [OF inv that] lock_inv_facts(4) [OF inv pc] locked_unique [OF inv, of e i d] that pc by simp
  have closing: "lock_inv (lk_at d (Closing i) s)" by (rule lock_inv_move [OF inv]) (simp_all add: pc)
  have "lk_pc (lk_at d (Closing i) s) e \<noteq> Removing j" for e j using only [of e j] by auto
  then have "lock_inv ((lk_at d (Closing i) s)\<lparr>lk_path := None\<rparr>)"
    using closing by (simp add: lock_inv_def text_of_def)
  moreover have "lk_at d (Closing i) (s\<lparr>lk_path := None\<rparr>) = (lk_at d (Closing i) s)\<lparr>lk_path := None\<rparr>"
    by (cases s) (simp add: lk_at_def)
  ultimately show ?thesis using closing by (simp add: remove_path_def)
qed

lemma lock_inv_step: "lock_inv s \<Longrightarrow> lock_step s l s' \<Longrightarrow> lock_inv s'"
  unfolding lock_step_iff
proof (cases l, goal_cases)
  case (1 d) then show ?case by (auto intro!: lock_inv_move split: if_splits)
next
  case (2 d ok) then show ?case by (auto intro!: lock_inv_open split: if_splits)
next
  case (3 d ok) then show ?case by (auto intro!: lock_inv_flock split: lock_pc.splits)
next
  case (4 d res) then show ?case by (auto intro!: lock_inv_write split: lock_pc.splits)
next
  case (5 d ok) then show ?case by (auto simp: begin_release_def intro!: lock_inv_move split: lock_pc.splits if_splits)
next
  case (6 d ok) then show ?case by (auto simp: check_same_def intro!: lock_inv_move split: lock_pc.splits if_splits)
next
  case (7 d ok)
  then obtain i where i: "lk_pc s d = Removing i" and s': "s' = remove_path d ok i s"
    by (auto split: lock_pc.splits)
  show ?case unfolding s' by (rule lock_inv_remove [OF 7(1) i])
next
  case (8 d) then show ?case by (auto intro!: lock_inv_close split: lock_pc.splits)
next
  case (9 d) then show ?case by (auto intro!: lock_inv_close)
qed

lemma claimed_open: "claimed pc = Some i \<Longrightarrow> open_inode pc = Some i"
  by (cases pc) simp_all

lemma orderly_step_inv:
  assumes inv: "orderly_inv s" and step: "orderly_step s l s'"
  shows "orderly_inv s'"
proof -
  have base: "lock_inv s" and claims: "\<And>d i. claimed (lk_pc s d) = Some i \<Longrightarrow> lk_path s = Some i"
    using inv unfolding orderly_inv_def by blast+
  have exec: "lock_exec l s = Some s'" and turn: "in_turn s l"
    using step by (auto simp: orderly_step_iff lock_step_iff)
  have "claimed (lk_pc s' e) = Some i \<Longrightarrow> lk_path s' = Some i" for e i
    using exec
  proof (cases l)
    case (Opens d ok)
    then show "claimed (lk_pc s' e) = Some i \<Longrightarrow> ?thesis"
      using exec claims [of e i] by (auto simp: open_pid_file_def split: if_splits option.splits)
  next
    case (Removes d ok)
    then obtain j where j: "lk_pc s d = Removing j" and s': "s' = remove_path d ok j s"
      using exec by (auto split: lock_pc.splits)
    assume c: "claimed (lk_pc s' e) = Some i"
    then have e: "e \<noteq> d" "claimed (lk_pc s e) = Some i"
      by (auto simp: s' remove_path_def split: if_splits)
    have "lk_path s = Some i" "lk_path s = Some j" using claims [OF e(2)] claims [of d j] j by simp_all
    moreover have "\<not> ok"
    proof
      assume ok
      then have "locked_inode (lk_pc s e) = Some i"
        using turn e(2) unfolding in_turn_def Removes by (cases "lk_pc s e") simp_all
      moreover have "locked_inode (lk_pc s d) = Some j" using j by simp
      ultimately show False
        using e(1) locked_unique [OF base] \<open>lk_path s = Some i\<close> \<open>lk_path s = Some j\<close> by fastforce
    qed
    ultimately show ?thesis by (simp add: s' remove_path_def)
  qed (use exec claims [of e i] in \<open>auto simp: flock_pid_file_def write_pid_file_def begin_release_def check_same_def Let_def
      split: if_splits lock_pc.splits option.splits\<close>)
  moreover have "lock_inv s'" using lock_inv_step [OF base] step unfolding orderly_step_iff by blast
  ultimately show ?thesis by (simp add: orderly_inv_def)
qed

lemma no_daemon_inv: "no_daemon s \<Longrightarrow> orderly_inv s"
  by (simp add: no_daemon_def orderly_inv_def lock_inv_def)

interpretation pid_file: inductive_invariant no_daemon lock_step lock_inv
  by unfold_locales (use no_daemon_inv in \<open>auto simp: orderly_inv_def lock_inv_step\<close>)

interpretation orderly_pid_file: inductive_invariant no_daemon orderly_step orderly_inv
  by unfold_locales (simp_all add: no_daemon_inv orderly_step_inv)

section \<open>Properties\<close>

text \<open>A daemon that has its lock and has not begun to give it up.\<close>

definition serving :: "lock_sys \<Rightarrow> int \<Rightarrow> bool" where
  "serving s d \<longleftrightarrow> (\<exists>i. lk_pc s d = Held i)"

lemma serving_alone:
  assumes "reachable no_daemon orderly_step s" and "serving s d" and "0 < d" and "d < 2 ^ 63"
  shows "(\<forall>e. serving s e \<longrightarrow> e = d) \<and> (\<exists>i. lk_path s = Some i \<and> fmlookup (lk_holder s) i = Some d) \<and>
    (\<forall>e ok s'. lock_step s (Flocks e ok) s' \<longrightarrow> lk_pc s' e = Refused (DaemonRunning d))"
proof -
  have inv: "orderly_inv s" using orderly_pid_file.inv_reachable [OF assms(1)] .
  then have base: "lock_inv s" and claims: "\<And>d i. claimed (lk_pc s d) = Some i \<Longrightarrow> lk_path s = Some i"
    by (simp_all add: orderly_inv_def)
  obtain i where i: "lk_pc s d = Held i" using assms(2) by (auto simp: serving_def)
  have path: "lk_path s = Some i" using claims [of d i] i by simp
  have lock: "fmlookup (lk_holder s) i = Some d" using base i by (simp add: lock_inv_def)
  have wrote: "readPID (text_of s i) = d"
    using base i assms(3,4) readPID_writePID [of d] by (simp add: lock_inv_def)
  have "e = d" if up: "serving s e" for e
  proof -
    obtain j where j: "lk_pc s e = Held j" using up by (auto simp: serving_def)
    then have "j = i" using claims [of e j] path by simp
    with i j locked_unique [OF base, of e i d] show ?thesis by simp
  qed
  moreover have "lk_pc s' e = Refused (DaemonRunning d)" if step: "lock_step s (Flocks e ok) s'" for e ok s'
  proof -
    obtain j where j: "lk_pc s e = Locking j" "s' = flock_pid_file e ok j s"
      using step by (auto simp: lock_step_iff split: lock_pc.splits)
    then have "j = i" using claims [of e j] path by simp
    with j lock wrote assms(3) show ?thesis by (simp add: flock_pid_file_def Let_def)
  qed
  ultimately show ?thesis using path lock by blast
qed

text \<open>
  C21. Whatever calls fail, whoever crashes and however the daemons interleave, a daemon about to remove the
  PID file holds the lock of the very file it will remove. As long as no daemon opens the file just before
  another removes it and locks it just after, at most one daemon holds the lock, its file is the one at
  the path, and a daemon that is refused meanwhile is told the PID of the holder.
\<close>

theorem pid_lock_excludes:
  assumes "reachable no_daemon lock_step s"
  shows "(\<forall>e i. lk_pc s e = Removing i \<longrightarrow> lk_path s = Some i \<and> fmlookup (lk_holder s) i = Some e) \<and>
    (reachable no_daemon orderly_step s \<longrightarrow> (\<forall>d. serving s d \<and> 0 < d \<and> d < 2 ^ 63 \<longrightarrow>
      (\<forall>e. serving s e \<longrightarrow> e = d) \<and> (\<exists>i. lk_path s = Some i \<and> fmlookup (lk_holder s) i = Some d) \<and>
      (\<forall>e ok s'. lock_step s (Flocks e ok) s' \<longrightarrow> lk_pc s' e = Refused (DaemonRunning d))))"
proof -
  have inv: "lock_inv s" using pid_file.inv_reachable [OF assms] .
  have "lk_path s = Some i \<and> fmlookup (lk_holder s) i = Some e" if "lk_pc s e = Removing i" for e i
    using lock_inv_facts(1,4) [OF inv, of e i] that by simp
  then show ?thesis using serving_alone by blast
qed

text \<open>A daemon that has started, and a second one that waits behind it.\<close>

definition no_daemons :: lock_sys where
  "no_daemons = \<lparr>lk_path = None, lk_next = 0, lk_holder = fmempty, lk_text = fmempty, lk_pc = (\<lambda>_. Idle)\<rparr>"

definition start_up :: "int \<Rightarrow> lock_label list" where
  "start_up d = [Acquire d, Opens d True, Flocks d True, Writes d Written]"

lemmas lock_ops = start_up_def no_daemons_def open_pid_file_def flock_pid_file_def write_pid_file_def begin_release_def
  check_same_def remove_path_def Let_def text_of_def lk_at_def close_file_def

lemma lock_exec_reachable:
  "lock_exec_all ls s = Some s' \<Longrightarrow> reachable no_daemon lock_step s \<Longrightarrow> reachable no_daemon lock_step s'"
  by (induction ls arbitrary: s) (auto split: option.splits intro: reachable_step lock_step_exec)

fun all_in_turn :: "lock_label list \<Rightarrow> lock_sys \<Rightarrow> bool" where
  "all_in_turn [] s = True"
| "all_in_turn (l # ls) s = ((case l of Removes d ok \<Rightarrow> False | _ \<Rightarrow> True) \<and>
     (case lock_exec l s of None \<Rightarrow> True | Some s' \<Rightarrow> all_in_turn ls s'))"

lemma lock_exec_orderly:
  "lock_exec_all ls s = Some s' \<Longrightarrow> all_in_turn ls s \<Longrightarrow> reachable no_daemon orderly_step s \<Longrightarrow>
     reachable no_daemon orderly_step s'"
proof (induction ls arbitrary: s)
  case (Cons l ls)
  then obtain s1 where s1: "lock_exec l s = Some s1" "lock_exec_all ls s1 = Some s'" by (auto split: option.splits)
  have "in_turn s l" using Cons.prems(2) by (cases l) (simp_all add: in_turn_def)
  with s1(1) have "orderly_step s l s1" by (simp add: orderly_step_iff lock_step_iff)
  with Cons s1 show ?case by (auto intro: reachable_step)
qed simp

lemma no_daemons_reachable: "reachable no_daemon step no_daemons"
  by (rule reachable_initial) (simp add: no_daemon_def no_daemons_def)

theorem pid_lock_excludes_witness:
  "\<exists>s. lock_exec_all (start_up 10 @ [Acquire 20, Opens 20 True]) no_daemons = Some s \<and> (\<forall>e. serving s e \<longrightarrow> e = 10)"
proof -
  let ?ls = "start_up 10 @ [Acquire 20, Opens 20 True]"
  have pc: "map_option (\<lambda>s. lk_pc s 10) (lock_exec_all ?ls no_daemons) = Some (Held 0)"
    by (simp add: lock_ops del: lk_at_simps close_file_simps)
  have calm: "all_in_turn ?ls no_daemons" by (simp add: lock_ops del: lk_at_simps close_file_simps)
  obtain s where s: "lock_exec_all ?ls no_daemons = Some s" "lk_pc s 10 = Held 0" using pc by blast
  have "reachable no_daemon orderly_step s" "reachable no_daemon lock_step s"
    using lock_exec_orderly [OF s(1) calm] lock_exec_reachable [OF s(1)] no_daemons_reachable by blast+
  moreover have "serving s 10" using s(2) by (auto simp: serving_def)
  moreover have "(0::int) < 10" "(10::int) < 2 ^ 63" by simp_all
  ultimately have "\<forall>e. serving s e \<longrightarrow> e = 10" using pid_lock_excludes [of s] by blast
  with s(1) show ?thesis by blast
qed

text \<open>
  The lock does not keep two daemons apart when one is shutting down: a daemon that opened the PID file
  before it was removed locks a file that no path refers to, and the next daemon finds no file, makes
  one and locks that.
\<close>

theorem lock_on_removed_file:
  "\<exists>s. reachable no_daemon lock_step s \<and> serving s 20 \<and> serving s 30"
proof -
  let ?ls = "start_up 10 @ [Acquire 20, Opens 20 True, Releases 10 True, Checks 10 True, Removes 10 True, Closes 10,
    Flocks 20 True, Writes 20 Written] @ start_up 30"
  have "map_option (\<lambda>s. (lk_pc s 20, lk_pc s 30)) (lock_exec_all ?ls no_daemons) = Some (Held 0, Held 1)"
    by (simp add: lock_ops del: lk_at_simps close_file_simps)
  then obtain s where s: "lock_exec_all ?ls no_daemons = Some s" "lk_pc s 20 = Held 0" "lk_pc s 30 = Held 1" by blast
  from lock_exec_reachable [OF s(1) no_daemons_reachable] s(2,3) show ?thesis
    by (auto simp: serving_def)
qed

end
