(* ===== verification/StateFile.thy ===== *)
theory StateFile
  imports Reconcile
begin

text \<open>
  What a daemon records of the processes it owns, and what the next one does with the record after a crash:
  \<^verbatim>\<open>internal/server/state.go\<close>, and the identity of a process on Linux, \<^verbatim>\<open>internal/server/identity_linux.go\<close>.

  The JSON encoder and decoder are arguments. A directory maps paths to contents; every call that the
  operating system may refuse carries its outcome. What runs on the machine at one moment is the token of
  the process that leads each process group; it changes from one look to the next.
\<close>

section \<open>The identity of a process\<close>

text \<open>\<^verbatim>\<open>strings.LastIndex\<close> for one byte: the part after its last occurrence.\<close>

definition after_last :: "char \<Rightarrow> string \<Rightarrow> string option" where
  "after_last c s = (if c \<in> set s then Some (rev (takeWhile (\<lambda>x. x \<noteq> c) (rev s))) else None)"

text \<open>\<^verbatim>\<open>strings.Fields\<close>; \<open>cur\<close> is the field being read.\<close>

fun Fields_from :: "string \<Rightarrow> string \<Rightarrow> string list" where
  "Fields_from cur [] = (if cur = [] then [] else [cur])"
| "Fields_from cur (c # cs) =
     (if is_space c then (if cur = [] then [] else [cur]) @ Fields_from [] cs
      else Fields_from (cur @ [c]) cs)"

definition Fields :: "string \<Rightarrow> string list" where
  "Fields s = Fields_from [] s"

datatype identity_error = NoProcessInfo string | UnrecognizedStat int | NoBootID string | EmptyBootID | NotAvailable string

definition startTimeField :: nat where
  "startTimeField = 19"

text \<open>\<open>readFile\<close> reads the \<^verbatim>\<open>stat\<close> file of a process.\<close>

definition processStartToken :: "(int \<Rightarrow> string + string) \<Rightarrow> int \<Rightarrow> identity_error + string" where
  "processStartToken readFile pid =
     (case readFile pid of
        Inl e \<Rightarrow> Inl (NoProcessInfo e)
      | Inr stat \<Rightarrow>
     (case after_last (CHR 0x29) stat of
        None \<Rightarrow> Inl (UnrecognizedStat pid)
      | Some rest \<Rightarrow>
          (let fields = Fields rest
           in if length fields \<le> startTimeField then Inl (UnrecognizedStat pid)
              else Inr (fields ! startTimeField))))"

definition bootID :: "string + string \<Rightarrow> identity_error + string" where
  "bootID file =
     (case file of
        Inl e \<Rightarrow> Inl (NoBootID e)
      | Inr data \<Rightarrow> if TrimSpace data = '''' then Inl EmptyBootID else Inr (TrimSpace data))"

section \<open>The state file\<close>

record childRecord =
  cr_Name :: string
  cr_StartToken :: string
  cr_PID :: int

record processState =
  ps_BootID :: string
  ps_Children :: "childRecord list"

definition stateFilePath :: "string \<Rightarrow> string" where
  "stateFilePath pidFile =
     (if pidFile = '''' then '''' else TrimSuffix pidFile (path_Ext pidFile) @ ''.state'')"

datatype state_error = EncodeFailed string | StateWriteFailed | ReplaceFailed | StateReadFailed | DecodeFailed string

text \<open>How \<^verbatim>\<open>os.WriteFile\<close> ends: it may fail before it touches the file, or after some bytes.\<close>

datatype file_write = WriteDone | WriteDenied | WriteCut nat

fun write_whole :: "file_write \<Rightarrow> string \<Rightarrow> string \<Rightarrow> (string, string) fmap \<Rightarrow> (string, string) fmap" where
  "write_whole WriteDone path data dir = fmupd path data dir"
| "write_whole WriteDenied path data dir = dir"
| "write_whole (WriteCut n) path data dir = fmupd path (take n data) dir"

text \<open>
  The result and the directory after each call, the last one at the end: a crash leaves one of those in
  between, or a cut in the middle of the write.
\<close>

definition writeStateFile ::
  "(processState \<Rightarrow> string + string) \<Rightarrow> file_write \<Rightarrow> bool \<Rightarrow> bool \<Rightarrow> string \<Rightarrow> string \<Rightarrow> childRecord list \<Rightarrow>
   (string, string) fmap \<Rightarrow> (state_error + unit) \<times> (string, string) fmap list" where
  "writeStateFile marshal written renamed removed path boot records dir =
     (case marshal \<lparr>ps_BootID = boot, ps_Children = records\<rparr> of
        Inl e \<Rightarrow> (Inl (EncodeFailed e), [dir])
      | Inr data \<Rightarrow>
          (let tmp = path @ ''.tmp''; dir1 = write_whole written tmp data dir
           in if written \<noteq> WriteDone then (Inl StateWriteFailed, [dir, dir1])
              else if renamed then (Inr (), [dir, dir1, fmupd path data (fmdrop tmp dir1)])
              else (Inl ReplaceFailed, [dir, dir1, if removed then fmdrop tmp dir1 else dir1])))"

text \<open>\<open>Inr None\<close>: there is no file.\<close>

definition readStateFile ::
  "(string \<Rightarrow> string + processState) \<Rightarrow> bool \<Rightarrow> string \<Rightarrow> (string, string) fmap \<Rightarrow> state_error + processState option" where
  "readStateFile unmarshal readable path dir =
     (case fmlookup dir path of
        None \<Rightarrow> Inr None
      | Some data \<Rightarrow>
          if \<not> readable then Inl StateReadFailed
          else case unmarshal data of Inl e \<Rightarrow> Inl (DecodeFailed e) | Inr st \<Rightarrow> Inr (Some st))"

text \<open>What the loop of \<open>saveState\<close> appends for one program.\<close>

definition child_record :: "(int \<Rightarrow> identity_error + string) \<Rightarrow> string \<Rightarrow> program \<Rightarrow> childRecord list" where
  "child_record token name p =
     (if pg_pid p \<le> 0 \<or> IsStopped (GetState p) then []
      else (case token (pg_pid p) of
              Inl e \<Rightarrow> []
            | Inr t \<Rightarrow> [\<lparr>cr_Name = name, cr_StartToken = t, cr_PID = pg_pid p\<rparr>]))"

text \<open>The records of \<open>saveState\<close>; \<open>ord\<close> is the order of the range over the processes.\<close>

definition live_records :: "(int \<Rightarrow> identity_error + string) \<Rightarrow> string list \<Rightarrow> server \<Rightarrow> childRecord list" where
  "live_records token ord s =
     concat (map (\<lambda>name. case fmlookup (sv_processes s) name of None \<Rightarrow> [] | Some p \<Rightarrow> child_record token name p) ord)"

section \<open>Orphans\<close>

text \<open>At one moment: the token of the leader of each process group, if the group has a member.\<close>

type_synonym groups = "int \<Rightarrow> string option"

definition same_process :: "(int \<Rightarrow> identity_error + string) \<Rightarrow> childRecord \<Rightarrow> bool" where
  "same_process token r = (case token (cr_PID r) of Inl e \<Rightarrow> False | Inr t \<Rightarrow> t = cr_StartToken r)"

definition identifyOrphans :: "(int \<Rightarrow> identity_error + string) \<Rightarrow> childRecord list \<Rightarrow> childRecord list" where
  "identifyOrphans token records = filter (same_process token) records"

fun anyGroupAlive :: "groups \<Rightarrow> childRecord list \<Rightarrow> bool" where
  "anyGroupAlive now [] = False"
| "anyGroupAlive now (rec # records) = (if now (cr_PID rec) \<noteq> None then True else anyGroupAlive now records)"

text \<open>The polls until the deadline; \<open>True\<close> when it has passed.\<close>

fun poll_orphans :: "groups list \<Rightarrow> childRecord list \<Rightarrow> bool" where
  "poll_orphans [] orphans = True"
| "poll_orphans (now # later) orphans = (if \<not> anyGroupAlive now orphans then False else poll_orphans later orphans)"

definition waitForOrphans :: "groups list \<Rightarrow> groups \<Rightarrow> childRecord list \<Rightarrow> (int \<times> Signal) list" where
  "waitForOrphans polls final orphans =
     (if poll_orphans polls orphans
      then map (\<lambda>r. (cr_PID r, SIGKILL)) (filter (\<lambda>r. final (cr_PID r) \<noteq> None) orphans)
      else [])"

text \<open>The signals sent, in order, and whether the state file is removed.\<close>

definition reapOrphans ::
  "(int \<Rightarrow> identity_error + string) \<Rightarrow> groups list \<Rightarrow> groups \<Rightarrow> string \<Rightarrow> string \<Rightarrow> state_error + processState option \<Rightarrow>
   (int \<times> Signal) list \<times> bool" where
  "reapOrphans token polls final stateFile boot recorded =
     (if stateFile = '''' then ([], False)
      else case recorded of
        Inl e \<Rightarrow> ([], False)
      | Inr None \<Rightarrow> ([], False)
      | Inr (Some st) \<Rightarrow>
          if length (ps_Children st) = 0 then ([], False)
          else if boot = '''' \<or> ps_BootID st \<noteq> boot then ([], True)
          else (let orphans = identifyOrphans token (ps_Children st)
                in if length orphans = 0 then ([], True)
                   else (map (\<lambda>r. (cr_PID r, SIGTERM)) orphans @ waitForOrphans polls final orphans, True)))"

section \<open>Reading a start time\<close>

lemma after_last_append: "c \<notin> set t \<Longrightarrow> after_last c (s @ c # t) = Some t"
proof -
  assume "c \<notin> set t"
  then have "takeWhile (\<lambda>x. x \<noteq> c) (rev t @ c # rev s) = rev t"
    using takeWhile_append2 [of "rev t" "\<lambda>x. x \<noteq> c" "c # rev s"] by fastforce
  then show ?thesis by (simp add: after_last_def)
qed

lemma Fields_word: "\<forall>c \<in> set w. \<not> is_space c \<Longrightarrow> Fields_from cur (w @ s) = Fields_from (cur @ w) s"
  by (induction w arbitrary: cur) simp_all

lemma Fields_words:
  assumes "\<forall>f \<in> set ws. f \<noteq> [] \<and> (\<forall>c \<in> set f. \<not> is_space c)" and "is_space sep" and "is_space stop"
  shows "Fields_from cur (concat (map (\<lambda>f. sep # f) ws) @ [stop]) = (if cur = [] then [] else [cur]) @ ws"
  using assms(1)
proof (induction ws arbitrary: cur)
  case Nil
  then show ?case using assms(3) by simp
next
  case (Cons f ws)
  then have f: "f \<noteq> []" "\<forall>c \<in> set f. \<not> is_space c" and rest: "\<forall>f \<in> set ws. f \<noteq> [] \<and> (\<forall>c \<in> set f. \<not> is_space c)"
    by simp_all
  have "Fields_from cur (concat (map (\<lambda>f. sep # f) (f # ws)) @ [stop]) =
      (if cur = [] then [] else [cur]) @ Fields_from [] (f @ concat (map (\<lambda>f. sep # f) ws) @ [stop])"
    using assms(2) by simp
  also have "Fields_from [] (f @ concat (map (\<lambda>f. sep # f) ws) @ [stop]) = f # ws"
    using Fields_word [OF f(2), of "[]"] Cons.IH [OF rest, of f] f(1) by simp
  finally show ?case .
qed

definition blank_char :: char where
  "blank_char = CHR 0x20"

text \<open>
  The start time of a process is field 22 of its \<^verbatim>\<open>stat\<close> file, whatever the name of its command contains:
  a line made of any text, a closing parenthesis and at least twenty fields gives the twentieth of them,
  and a line with fewer is refused.
\<close>

theorem processStartToken_reads:
  assumes "\<forall>f \<in> set ws. f \<noteq> [] \<and> (\<forall>c \<in> set f. \<not> is_space c \<and> c \<noteq> CHR 0x29)"
    and "readFile pid = Inr (before @ CHR 0x29 # concat (map (\<lambda>f. blank_char # f) ws) @ [CHR 0x0A])"
  shows "processStartToken readFile pid =
    (if 20 \<le> length ws then Inr (ws ! 19) else Inl (UnrecognizedStat pid))"
proof -
  let ?rest = "concat (map (\<lambda>f. blank_char # f) ws) @ [CHR 0x0A]"
  have spaces: "is_space blank_char" "is_space (CHR 0x0A)" by (simp_all add: is_space_def blank_char_def)
  have "CHR 0x29 \<notin> set ?rest" using assms(1) by (auto simp: blank_char_def)
  then have "after_last (CHR 0x29) (before @ CHR 0x29 # ?rest) = Some ?rest" by (rule after_last_append)
  moreover have "Fields ?rest = ws"
    using Fields_words [OF _ spaces, of ws "[]"] assms(1) by (simp add: Fields_def)
  ultimately show ?thesis using assms(2) by (auto simp: processStartToken_def startTimeField_def Let_def)
qed

text \<open>A process whose command is named \<^verbatim>\<open>a) R 1\<close>.\<close>

theorem processStartToken_reads_witness:
  "processStartToken (\<lambda>pid. Inr (''7 (a) R 1'' @ CHR 0x29 #
     concat (map (\<lambda>f. blank_char # f) (replicate 19 ''0'' @ [''4711'', ''5''])) @ [CHR 0x0A])) 7 = Inr ''4711''"
proof -
  have "\<forall>f \<in> set (replicate 19 ''0'' @ [''4711'', ''5'']). f \<noteq> [] \<and> (\<forall>c \<in> set f. \<not> is_space c \<and> c \<noteq> CHR 0x29)"
    by (simp add: is_space_def)
  from processStartToken_reads [OF this, of "\<lambda>pid. Inr (''7 (a) R 1'' @ CHR 0x29 #
     concat (map (\<lambda>f. blank_char # f) (replicate 19 ''0'' @ [''4711'', ''5''])) @ [CHR 0x0A])" 7 "''7 (a) R 1''"]
  show ?thesis by (simp add: nth_append)
qed

section \<open>The file survives a crash\<close>

lemma write_whole_other: "p \<noteq> q \<Longrightarrow> fmlookup (write_whole w p data dir) q = fmlookup dir q"
  by (cases w) simp_all

definition decodes :: "(processState \<Rightarrow> string + string) \<Rightarrow> (string \<Rightarrow> string + processState) \<Rightarrow> bool" where
  "decodes marshal unmarshal \<longleftrightarrow> (\<forall>st data. marshal st = Inr data \<longrightarrow> unmarshal data = Inr st)"

lemma writeStateFile_read:
  assumes "decodes marshal unmarshal"
    and "writeStateFile marshal written renamed removed path boot records dir = (Inr (), dirs)"
  shows "readStateFile unmarshal True path (last dirs) = Inr (Some \<lparr>ps_BootID = boot, ps_Children = records\<rparr>)"
  using assms
  by (auto simp: writeStateFile_def Let_def readStateFile_def decodes_def split: sum.splits if_splits)

text \<open>
  C40. The state file is replaced whole: after every call of \<open>writeStateFile\<close>, whichever of them fails, it has
  its old contents or all of the new ones; it reads back as the new record exactly when the write
  succeeded, and no other file but the temporary one is touched.
\<close>

theorem writeStateFile_atomic:
  assumes "decodes marshal unmarshal"
    and "writeStateFile marshal written renamed removed path boot records dir = (res, dirs)"
  shows "(\<forall>d \<in> set dirs. fmlookup d path = fmlookup dir path \<or>
        (\<exists>data. marshal \<lparr>ps_BootID = boot, ps_Children = records\<rparr> = Inr data \<and> fmlookup d path = Some data)) \<and>
    (\<forall>d \<in> set dirs. \<forall>q. q \<notin> {path, path @ ''.tmp''} \<longrightarrow> fmlookup d q = fmlookup dir q) \<and>
    (res = Inr () \<longrightarrow> readStateFile unmarshal True path (last dirs) =
        Inr (Some \<lparr>ps_BootID = boot, ps_Children = records\<rparr>)) \<and>
    (res \<noteq> Inr () \<longrightarrow> readStateFile unmarshal readable path (last dirs) = readStateFile unmarshal readable path dir)"
proof (cases "marshal \<lparr>ps_BootID = boot, ps_Children = records\<rparr>")
  case (Inl e)
  with assms(2) show ?thesis by (auto simp: writeStateFile_def)
next
  case (Inr data)
  have decoded: "unmarshal data = Inr \<lparr>ps_BootID = boot, ps_Children = records\<rparr>"
    using assms(1) Inr by (simp add: decodes_def)
  note same = write_whole_other [where p = "path @ ''.tmp''" and data = data and dir = dir and w = written]
  consider "written \<noteq> WriteDone" | "written = WriteDone" "renamed" | "written = WriteDone" "\<not> renamed" by blast
  then show ?thesis
    using assms(2) Inr decoded same
    by cases (auto simp: writeStateFile_def Let_def readStateFile_def split: option.splits if_splits)
qed

text \<open>
  A PID file that ends in \<^verbatim>\<open>.state\<close> is its own state file, and the first record written replaces it.
\<close>

lemma stateFilePath_collides: "stateFilePath ''/run/supavisor.state'' = ''/run/supavisor.state''"
  by code_simp

lemma stateFilePath_sibling: "stateFilePath ''/run/supavisor.pid'' = ''/run/supavisor.state''"
  by code_simp

section \<open>Who is signalled\<close>

lemma anyGroupAlive_iff: "anyGroupAlive now records \<longleftrightarrow> (\<exists>r \<in> set records. now (cr_PID r) \<noteq> None)"
  by (induction records) auto

lemma poll_orphans_iff: "poll_orphans polls orphans \<longleftrightarrow> (\<forall>now \<in> set polls. anyGroupAlive now orphans)"
  by (induction polls) auto

lemma same_process_iff: "same_process token r \<longleftrightarrow> token (cr_PID r) = Inr (cr_StartToken r)"
  by (auto simp: same_process_def split: sum.splits)

lemma identifyOrphans_set:
  "set (identifyOrphans token records) = {r \<in> set records. token (cr_PID r) = Inr (cr_StartToken r)}"
  by (auto simp: identifyOrphans_def same_process_iff)

lemma reapOrphans_cases:
  assumes "stateFile \<noteq> ''''" and "boot \<noteq> ''''" and "ps_BootID st = boot"
  shows "fst (reapOrphans token polls final stateFile boot (Inr (Some st))) =
    map (\<lambda>r. (cr_PID r, SIGTERM)) (identifyOrphans token (ps_Children st)) @
    (if identifyOrphans token (ps_Children st) = [] then []
     else waitForOrphans polls final (identifyOrphans token (ps_Children st)))"
  using assms by (auto simp: reapOrphans_def Let_def identifyOrphans_def)

lemma reapOrphans_silent:
  "stateFile = '''' \<or> boot = '''' \<or> \<not> (\<exists>st. recorded = Inr (Some st) \<and> ps_BootID st = boot) \<Longrightarrow>
     fst (reapOrphans token polls final stateFile boot recorded) = []"
  by (auto simp: reapOrphans_def split: sum.splits option.splits)


lemma child_record_iff:
  "r \<in> set (child_record token name p) \<longleftrightarrow> cr_Name r = name \<and> cr_PID r = pg_pid p \<and> 0 < pg_pid p \<and>
     \<not> IsStopped (GetState p) \<and> token (pg_pid p) = Inr (cr_StartToken r)"
proof (cases "token (pg_pid p)")
  case (Inr t)
  have "r = \<lparr>cr_Name = name, cr_StartToken = t, cr_PID = pg_pid p\<rparr> \<longleftrightarrow>
      cr_Name r = name \<and> cr_PID r = pg_pid p \<and> t = cr_StartToken r" by (cases r) auto
  with Inr show ?thesis by (auto simp: child_record_def not_le)
qed (simp add: child_record_def)

lemma live_records_set:
  assumes "ranges ord (sv_processes s)"
  shows "r \<in> set (live_records token ord s) \<longleftrightarrow>
     (\<exists>p. fmlookup (sv_processes s) (cr_Name r) = Some p \<and> r \<in> set (child_record token (cr_Name r) p))"
proof -
  have "r \<in> set (case fmlookup (sv_processes s) name of None \<Rightarrow> [] | Some p \<Rightarrow> child_record token name p) \<longleftrightarrow>
      (\<exists>p. fmlookup (sv_processes s) name = Some p \<and> r \<in> set (child_record token name p))" for name
    by (cases "fmlookup (sv_processes s) name") simp_all
  then have "r \<in> set (live_records token ord s) \<longleftrightarrow>
      (\<exists>name \<in> set ord. \<exists>p. fmlookup (sv_processes s) name = Some p \<and> r \<in> set (child_record token name p))"
    by (simp add: live_records_def)
  moreover have "name \<in> set ord" if "fmlookup (sv_processes s) name = Some p" for name p
    using that assms by (auto simp: ranges_def intro: fmdom'I)
  ultimately show ?thesis by (metis child_record_iff)
qed

text \<open>
  C22. After a crash the next daemon, in the same boot, stops exactly the programs that the last one had
  running when it wrote its record and whose process is still the one recorded, whatever order the map
  was ranged in.
\<close>

theorem crash_recovery:
  assumes "decodes marshal unmarshal" and "ranges ord (sv_processes s)" and "boot \<noteq> ''''" and "path \<noteq> ''''"
    and "writeStateFile marshal written renamed removed path boot (live_records token ord s) dir = (Inr (), dirs)"
  shows "(pid, SIGTERM) \<in> set (fst (reapOrphans token' polls final path boot (readStateFile unmarshal True path (last dirs)))) \<longleftrightarrow>
    (\<exists>name p t. fmlookup (sv_processes s) name = Some p \<and> pg_pid p = pid \<and> 0 < pid \<and> \<not> IsStopped (GetState p) \<and>
       token pid = Inr t \<and> token' pid = Inr t)"
proof -
  let ?records = "live_records token ord s"
  have read: "readStateFile unmarshal True path (last dirs) = Inr (Some \<lparr>ps_BootID = boot, ps_Children = ?records\<rparr>)"
    using writeStateFile_read [OF assms(1,5)] .
  have "(pid, SIGTERM) \<notin> set (waitForOrphans polls final orphans)" for orphans
    by (auto simp: waitForOrphans_def)
  then have "(pid, SIGTERM) \<in> set (fst (reapOrphans token' polls final path boot (readStateFile unmarshal True path (last dirs)))) \<longleftrightarrow>
      (\<exists>r \<in> set (identifyOrphans token' ?records). cr_PID r = pid)"
    unfolding read using reapOrphans_cases [OF assms(4,3), of "\<lparr>ps_BootID = boot, ps_Children = ?records\<rparr>" token' polls final]
    by auto
  also have "\<dots> \<longleftrightarrow> (\<exists>r :: childRecord. cr_PID r = pid \<and> token' pid = Inr (cr_StartToken r) \<and>
      (\<exists>p. fmlookup (sv_processes s) (cr_Name r) = Some p \<and> pid = pg_pid p \<and> 0 < pg_pid p \<and>
        \<not> IsStopped (GetState p) \<and> token (pg_pid p) = Inr (cr_StartToken r)))"
    by (simp only: identifyOrphans_set live_records_set [OF assms(2)] child_record_iff mem_Collect_eq Bex_def simp_thms) (rule iff_exI, auto)
  also have "\<dots> \<longleftrightarrow> (\<exists>name p t. fmlookup (sv_processes s) name = Some p \<and> pg_pid p = pid \<and> 0 < pid \<and>
      \<not> IsStopped (GetState p) \<and> token pid = Inr t \<and> token' pid = Inr t)"
  proof
    assume "\<exists>name p t. fmlookup (sv_processes s) name = Some p \<and> pg_pid p = pid \<and> 0 < pid \<and>
      \<not> IsStopped (GetState p) \<and> token pid = Inr t \<and> token' pid = Inr t"
    then obtain name p t where "fmlookup (sv_processes s) name = Some p" "pg_pid p = pid" "0 < pid"
      "\<not> IsStopped (GetState p)" "token pid = Inr t" "token' pid = Inr t" by blast
    then show "\<exists>r :: childRecord. cr_PID r = pid \<and> token' pid = Inr (cr_StartToken r) \<and>
      (\<exists>p. fmlookup (sv_processes s) (cr_Name r) = Some p \<and> pid = pg_pid p \<and> 0 < pg_pid p \<and>
        \<not> IsStopped (GetState p) \<and> token (pg_pid p) = Inr (cr_StartToken r))"
      by (intro exI [of _ "\<lparr>cr_Name = name, cr_StartToken = t, cr_PID = pid\<rparr>"]) auto
  qed (elim exE conjE, intro exI conjI, simp_all)
  finally show ?thesis .
qed

section \<open>Witnesses\<close>

text \<open>A database that runs as process 42, and an encoder that knows the record of it.\<close>

definition recorded_server :: server where
  "recorded_server = sample_server\<lparr>sv_processes := fmap_of_list [(''db'', (sample_program_in StateRunning)\<lparr>pg_pid := 42\<rparr>)]\<rparr>"

definition sample_token :: "int \<Rightarrow> identity_error + string" where
  "sample_token pid = (if pid = 42 then Inr ''4711'' else Inl (UnrecognizedStat pid))"

definition sample_state :: processState where
  "sample_state = \<lparr>ps_BootID = ''b1'', ps_Children = [\<lparr>cr_Name = ''db'', cr_StartToken = ''4711'', cr_PID = 42\<rparr>]\<rparr>"

definition sample_marshal :: "processState \<Rightarrow> string + string" where
  "sample_marshal st = (if st = sample_state then Inr ''{}'' else Inl ''unknown'')"

definition sample_unmarshal :: "string \<Rightarrow> string + processState" where
  "sample_unmarshal data = (if data = ''{}'' then Inr sample_state else Inl ''unknown'')"

definition sample_written :: "(state_error + unit) \<times> (string, string) fmap list" where
  "sample_written = writeStateFile sample_marshal WriteDone True True ''s'' ''b1'' (live_records sample_token [''db''] recorded_server) fmempty"

lemma sample_decodes: "decodes sample_marshal sample_unmarshal"
  by (simp add: decodes_def sample_marshal_def sample_unmarshal_def)

lemma sample_records: "\<lparr>ps_BootID = ''b1'', ps_Children = live_records sample_token [''db''] recorded_server\<rparr> = sample_state"
  by (simp add: live_records_def recorded_server_def child_record_def sample_state_def sample_token_def
      sample_program_in_def GetState_def IsStopped_def)

lemma sample_written_ok: "sample_written = (Inr (), snd sample_written)"
  by (simp add: sample_written_def writeStateFile_def sample_records sample_marshal_def Let_def)

theorem writeStateFile_atomic_witness:
  "readStateFile sample_unmarshal True ''s'' (last (snd sample_written)) = Inr (Some sample_state)"
  using writeStateFile_atomic [OF sample_decodes sample_written_ok [unfolded sample_written_def]] sample_records
  by (simp add: sample_written_def)


theorem crash_recovery_witness:
  "(42, SIGTERM) \<in> set (fst (reapOrphans sample_token [] (\<lambda>pid. None) ''s'' ''b1''
     (readStateFile sample_unmarshal True ''s'' (last (snd sample_written)))))"
proof -
  have "ranges [''db''] (sv_processes recorded_server)" by (simp add: ranges_def recorded_server_def)
  from crash_recovery [OF sample_decodes this _ _ sample_written_ok [unfolded sample_written_def]]
  have "(42, SIGTERM) \<in> set (fst (reapOrphans sample_token [] (\<lambda>pid. None) ''s'' ''b1''
      (readStateFile sample_unmarshal True ''s'' (last (snd sample_written))))) \<longleftrightarrow>
    (\<exists>name p t. fmlookup (sv_processes recorded_server) name = Some p \<and> pg_pid p = 42 \<and> (0::int) < 42 \<and>
      \<not> IsStopped (GetState p) \<and> sample_token 42 = Inr t \<and> sample_token 42 = Inr t)"
    unfolding sample_written_def by simp
  moreover have "fmlookup (sv_processes recorded_server) ''db'' = Some ((sample_program_in StateRunning)\<lparr>pg_pid := 42\<rparr>)"
    "\<not> IsStopped (GetState ((sample_program_in StateRunning)\<lparr>pg_pid := 42\<rparr>))" "sample_token 42 = Inr ''4711''"
    by (simp_all add: recorded_server_def sample_program_in_def sample_token_def GetState_def IsStopped_def)
  ultimately show ?thesis by fastforce
qed

end
