(* ===== verification/LogWriter.thy ===== *)
theory LogWriter
  imports Prelude
begin

text \<open>
  The rotating log writer of \<^verbatim>\<open>internal/logrotate/writer.go\<close>.

  The writer works in one directory, the one its path is in, and a file is named here by its last
  path element: \<open>w_path\<close> is \<^verbatim>\<open>filepath.Base\<close> of the path. The operating system is a record: the entries
  of the directory, the clock, and the calls that it refuses (\<open>faults\<close>), so that every error branch of
  the source is a branch of the model. The mutex makes each operation one step. Nobody but the writer
  renames or removes the files of its chain, so its descriptor is that of the file at its path.
\<close>

section \<open>The operating system\<close>

datatype os_op = OpMkdir | OpOpen | OpFstat | OpStat | OpRename | OpRemove | OpReadDir | OpInfo | OpClose | OpWrite

datatype os_error = NotExist | Refused

record dirent =
  de_dir :: bool
  de_data :: string
  de_mtime :: int

record fs =
  entries :: "(string, dirent) fmap"
  faults :: "os_op \<Rightarrow> string \<Rightarrow> bool"
  short_write :: nat    \<comment> \<open>how many bytes a refused write still wrote\<close>
  now :: int
  AddDate :: "int \<Rightarrow> int"    \<comment> \<open>\<^verbatim>\<open>time.Now().AddDate(0, 0, n)\<close>\<close>

definition os_Rename :: "string \<Rightarrow> string \<Rightarrow> fs \<Rightarrow> os_error + fs" where
  "os_Rename old new s =
     (case fmlookup (entries s) old of
        None \<Rightarrow> Inl NotExist
      | Some e \<Rightarrow>
          if faults s OpRename old then Inl Refused
          else (case fmlookup (entries s) new of
                  None \<Rightarrow> Inr (s\<lparr>entries := fmupd new e (fmdrop old (entries s))\<rparr>)
                | Some t \<Rightarrow>
                    if de_dir t \<or> de_dir e then Inl Refused
                    else Inr (s\<lparr>entries := fmupd new e (fmdrop old (entries s))\<rparr>)))"

definition os_Remove :: "string \<Rightarrow> fs \<Rightarrow> os_error + fs" where
  "os_Remove name s =
     (case fmlookup (entries s) name of
        None \<Rightarrow> Inl NotExist
      | Some e \<Rightarrow>
          if faults s OpRemove name then Inl Refused
          else Inr (s\<lparr>entries := fmdrop name (entries s)\<rparr>))"

definition os_Stat :: "string \<Rightarrow> fs \<Rightarrow> bool" where
  "os_Stat name s \<longleftrightarrow> fmlookup (entries s) name \<noteq> None \<and> \<not> faults s OpStat name"

definition file_size :: "string \<Rightarrow> fs \<Rightarrow> int" where
  "file_size name s = (case fmlookup (entries s) name of None \<Rightarrow> 0 | Some e \<Rightarrow> int (length (de_data e)))"

definition append_data :: "string \<Rightarrow> string \<Rightarrow> fs \<Rightarrow> fs" where
  "append_data name p s =
     (case fmlookup (entries s) name of
        None \<Rightarrow> s
      | Some e \<Rightarrow> s\<lparr>entries := fmupd name (e\<lparr>de_data := de_data e @ p, de_mtime := now s\<rparr>) (entries s)\<rparr>)"

section \<open>The writer\<close>

text \<open>
  The field \<^verbatim>\<open>file\<close>: nil, an open file, or a file that \<open>Close\<close> was called on. A call of \<open>Close\<close> that
  reports an error has released the descriptor all the same.
\<close>

datatype handle = NilFile | OpenFile | ClosedFile

record Writer =
  w_file :: handle
  w_path :: string
  w_maxBytes :: int
  w_size :: int
  w_backups :: int
  w_maxAge :: int

datatype log_error =
    ErrClosed
  | MkdirFailed string
  | OpenFailed string
  | StatFailed string
  | CloseFailed
  | DiscardFailed
  | RotateBackupFailed int
  | RotateCurrentFailed
  | WriteFailed

definition openAppend :: "string \<Rightarrow> fs \<Rightarrow> log_error + fs" where
  "openAppend path s =
     (if faults s OpOpen path then Inl (OpenFailed path)
      else case fmlookup (entries s) path of
             None \<Rightarrow> Inr (s\<lparr>entries := fmupd path \<lparr>de_dir = False, de_data = [], de_mtime = now s\<rparr> (entries s)\<rparr>)
           | Some e \<Rightarrow> if de_dir e then Inl (OpenFailed path) else Inr s)"

definition backupPath :: "string \<Rightarrow> int \<Rightarrow> string" where
  "backupPath path num = path @ ''.'' @ itoa num"

text \<open>The number of a backup, computed on \<^verbatim>\<open>int\<close>.\<close>

fun number_loop :: "string \<Rightarrow> int \<Rightarrow> int option" where
  "number_loop [] num = Some num"
| "number_loop (r # rs) num =
     (if \<not> is_digit r then None else number_loop rs (wrap64 (num * 10 + digit_val r)))"

definition backupNumber :: "string \<Rightarrow> int option" where
  "backupNumber s =
     (if s = '''' then None
      else case number_loop s 0 of
             None \<Rightarrow> None
           | Some num \<Rightarrow> if num = 0 then None else Some num)"

text \<open>Whether \<open>prune\<close> removes an entry.\<close>

definition doomed :: "Writer \<Rightarrow> fs \<Rightarrow> string \<Rightarrow> bool" where
  "doomed w s name =
     (case fmlookup (entries s) name of
        None \<Rightarrow> False
      | Some e \<Rightarrow>
          if de_dir e \<or> \<not> HasPrefix name (w_path w @ ''.'') then False
          else (case backupNumber (TrimPrefix name (w_path w @ ''.'')) of
                  None \<Rightarrow> False
                | Some num \<Rightarrow>
                    num > w_backups w \<or>
                    (w_maxAge w > 0 \<and> \<not> faults s OpInfo name \<and> de_mtime e < AddDate s (- w_maxAge w))))"

definition remove_ignoring :: "string \<Rightarrow> fs \<Rightarrow> fs" where
  "remove_ignoring name s = (case os_Remove name s of Inl _ \<Rightarrow> s | Inr s' \<Rightarrow> s')"

definition prune :: "Writer \<Rightarrow> fs \<Rightarrow> fs" where
  "prune w s =
     (if faults s OpReadDir (w_path w) then s
      else fold remove_ignoring (filter (doomed w s) (sorted_list_of_set (fmdom' (entries s)))) s)"

text \<open>\<open>dir\<close> is \<^verbatim>\<open>filepath.Dir\<close> of the path.\<close>

definition NewWriter :: "string \<Rightarrow> string \<Rightarrow> int \<Rightarrow> int \<Rightarrow> int \<Rightarrow> fs \<Rightarrow> log_error + Writer \<times> fs" where
  "NewWriter dir path maxBytes backups maxAge s =
     (if dir \<noteq> '''' \<and> dir \<noteq> ''.'' \<and> faults s OpMkdir dir then Inl (MkdirFailed dir)
      else case openAppend path s of
             Inl e \<Rightarrow> Inl e
           | Inr s1 \<Rightarrow>
               if faults s1 OpFstat path then Inl (StatFailed path)
               else let w = \<lparr>w_file = OpenFile, w_path = path, w_maxBytes = maxBytes,
                             w_size = file_size path s1, w_backups = backups, w_maxAge = maxAge\<rparr>
                    in Inr (w, prune w s1))"

text \<open>The loop of \<open>shiftBackups\<close>, counting down to 1.\<close>

fun shift_loop :: "string \<Rightarrow> nat \<Rightarrow> fs \<Rightarrow> log_error option \<times> fs" where
  "shift_loop path 0 s = (None, s)"
| "shift_loop path (Suc k) s =
     (let i = int (Suc k);
          oldPath = backupPath path i
      in if \<not> os_Stat oldPath s then shift_loop path k s
         else case os_Rename oldPath (backupPath path (i + 1)) s of
                Inl _ \<Rightarrow> (Some (RotateBackupFailed i), s)
              | Inr s' \<Rightarrow> shift_loop path k s')"

definition shiftBackups :: "Writer \<Rightarrow> fs \<Rightarrow> log_error option \<times> fs" where
  "shiftBackups w s =
     (if w_backups w \<le> 0 then
        (case os_Remove (w_path w) s of
           Inl NotExist \<Rightarrow> (None, s)
         | Inl Refused \<Rightarrow> (Some DiscardFailed, s)
         | Inr s' \<Rightarrow> (None, s'))
      else
        (case shift_loop (w_path w) (nat (w_backups w - 1)) s of
           (Some e, s') \<Rightarrow> (Some e, s')
         | (None, s') \<Rightarrow>
             (case os_Rename (w_path w) (backupPath (w_path w) 1) s' of
                Inl NotExist \<Rightarrow> (None, s')
              | Inl Refused \<Rightarrow> (Some RotateCurrentFailed, s')
              | Inr s'' \<Rightarrow> (None, s''))))"

definition rotate :: "Writer \<Rightarrow> fs \<Rightarrow> log_error option \<times> Writer \<times> fs" where
  "rotate w s =
     (if w_file w = ClosedFile \<or> faults s OpClose (w_path w)
      then (Some CloseFailed, w\<lparr>w_file := ClosedFile\<rparr>, s)
      else
        let w1 = w\<lparr>w_file := NilFile\<rparr>;
            (shiftErr, s1) = shiftBackups w1 s
        in case openAppend (w_path w) s1 of
             Inl e \<Rightarrow> (Some e, w1, s1)
           | Inr s2 \<Rightarrow>
               let w2 = w1\<lparr>w_file := OpenFile,
                     w_size := (if faults s2 OpFstat (w_path w) then 0 else file_size (w_path w) s2)\<rparr>
               in (shiftErr, w2, prune w2 s2))"

text \<open>The last step of \<open>Write\<close>: what \<open>os.File.Write\<close> wrote, and its error.\<close>

definition write_file :: "string \<Rightarrow> Writer \<Rightarrow> fs \<Rightarrow> (nat \<times> log_error option) \<times> Writer \<times> fs" where
  "write_file p w s =
     (if w_file w = ClosedFile then ((0, Some ErrClosed), w, s)
      else let n = (if faults s OpWrite (w_path w) then min (short_write s) (length p) else length p);
               err = (if faults s OpWrite (w_path w) then Some WriteFailed else None)
           in ((n, err), w\<lparr>w_size := wrap64 (w_size w + int n)\<rparr>, append_data (w_path w) (take n p) s))"

definition Write :: "string \<Rightarrow> Writer \<Rightarrow> fs \<Rightarrow> (nat \<times> log_error option) \<times> Writer \<times> fs" where
  "Write p w s =
     (if w_file w = NilFile then ((0, Some ErrClosed), w, s)
      else if w_maxBytes w > 0 \<and> w_size w > 0 \<and> wrap64 (w_size w + int (length p)) > w_maxBytes w then
        (case rotate w s of
           (err, w', s') \<Rightarrow>
             if err \<noteq> None \<and> w_file w' = NilFile then ((0, err), w', s')
             else write_file p w' s')
      else write_file p w s)"

definition Close :: "Writer \<Rightarrow> fs \<Rightarrow> log_error option \<times> Writer" where
  "Close w s =
     (if w_file w = NilFile then (None, w)
      else ((if w_file w = ClosedFile \<or> faults s OpClose (w_path w) then Some CloseFailed else None),
            w\<lparr>w_file := NilFile\<rparr>))"

section \<open>Names of backups\<close>

lemma digits_val_foldl: "list_all is_digit s \<Longrightarrow> 0 \<le> a \<Longrightarrow> a \<le> foldl (\<lambda>a c. 10 * a + digit_val c) a s"
proof (induction s arbitrary: a)
  case (Cons c s)
  then have d: "0 \<le> digit_val c" by (simp add: digit_val_nonneg)
  then have "10 * a + digit_val c \<le> foldl (\<lambda>a c. 10 * a + digit_val c) (10 * a + digit_val c) s"
    using Cons by simp
  with d Cons.prems show ?case by simp
qed simp

lemma number_loop_digits:
  "list_all is_digit s \<Longrightarrow> 0 \<le> a \<Longrightarrow> foldl (\<lambda>a c. 10 * a + digit_val c) a s < 2 ^ 63 \<Longrightarrow>
     number_loop s a = Some (foldl (\<lambda>a c. 10 * a + digit_val c) a s)"
proof (induction s arbitrary: a)
  case (Cons c s)
  then have d: "0 \<le> digit_val c" by (simp add: digit_val_nonneg)
  have "10 * a + digit_val c \<le> foldl (\<lambda>a c. 10 * a + digit_val c) (10 * a + digit_val c) s"
    using Cons.prems d by (intro digits_val_foldl) simp_all
  with Cons.prems(3) have small: "10 * a + digit_val c < 2 ^ 63" by simp
  have "wrap64 (a * 10 + digit_val c) = 10 * a + digit_val c"
    using wrap64_id [of "10 * a + digit_val c"] Cons.prems(2) d small by (simp add: mult.commute)
  with Cons d show ?case by simp
qed simp

lemma itoa_pos: "0 \<le> n \<Longrightarrow> itoa n = nat_digits (nat n)"
  by (simp add: itoa_def)

lemma backupNumber_itoa: "0 < n \<Longrightarrow> n < 2 ^ 63 \<Longrightarrow> backupNumber (itoa n) = Some n"
  using number_loop_digits [of "nat_digits (nat n)" 0] nat_digits_digits [of "nat n"]
    digits_val_nat_digits [of "nat n"]
  by (simp add: backupNumber_def itoa_pos digits_val_def)

lemma itoa_inj: "0 \<le> i \<Longrightarrow> 0 \<le> j \<Longrightarrow> itoa i = itoa j \<longleftrightarrow> i = j"
  by (metis digits_val_nat_digits itoa_pos nat_0_le)

lemma backupPath_inj [simp]: "0 \<le> i \<Longrightarrow> 0 \<le> j \<Longrightarrow> backupPath path i = backupPath path j \<longleftrightarrow> i = j"
  by (simp add: backupPath_def itoa_inj)

lemma backupPath_neq [simp]: "backupPath path i \<noteq> path" "path \<noteq> backupPath path i"
  by (simp_all add: backupPath_def)

lemma path_not_backup [simp]: "path \<notin> backupPath path ` S"
  by (simp add: image_iff)

lemma backupPath_number:
  "0 < n \<Longrightarrow> n < 2 ^ 63 \<Longrightarrow> HasPrefix (backupPath path n) (path @ ''.'') \<and>
     backupNumber (TrimPrefix (backupPath path n) (path @ ''.'')) = Some n"
  using backupNumber_itoa [of n] by (simp add: backupPath_def HasPrefix_def TrimPrefix_def)

lemma path_not_prefixed [simp]: "\<not> HasPrefix path (path @ ''.'')"
  by (simp add: HasPrefix_def)

section \<open>Lemmas about the operations\<close>

definition no_faults :: "fs \<Rightarrow> bool" where
  "no_faults s \<longleftrightarrow> (\<forall>op name. \<not> faults s op name)"

definition no_dirs :: "fs \<Rightarrow> bool" where
  "no_dirs s \<longleftrightarrow> (\<forall>name e. fmlookup (entries s) name = Some e \<longrightarrow> \<not> de_dir e)"

text \<open>The current log and the numbered backups.\<close>

abbreviation log_file :: "Writer \<Rightarrow> fs \<Rightarrow> dirent option" where
  "log_file w s \<equiv> fmlookup (entries s) (w_path w)"

abbreviation backup :: "Writer \<Rightarrow> fs \<Rightarrow> int \<Rightarrow> dirent option" where
  "backup w s i \<equiv> fmlookup (entries s) (backupPath (w_path w) i)"

lemma remove_ignoring_faults [simp]: "faults (remove_ignoring n s) = faults s"
  by (simp add: remove_ignoring_def os_Remove_def split: option.splits)

lemma remove_ignoring_lookup [simp]:
  "fmlookup (entries (remove_ignoring n s)) m =
     (if m = n \<and> \<not> faults s OpRemove n then None else fmlookup (entries s) m)"
  by (simp add: remove_ignoring_def os_Remove_def split: option.splits)

lemma fold_remove_lookup:
  "fmlookup (entries (fold remove_ignoring ns s)) m =
     (if m \<in> set ns \<and> \<not> faults s OpRemove m then None else fmlookup (entries s) m)"
  "faults (fold remove_ignoring ns s) = faults s"
  by (induction ns arbitrary: s) auto

lemma prune_lookup [simp]:
  "fmlookup (entries (prune w s)) m =
     (if doomed w s m \<and> \<not> faults s OpReadDir (w_path w) \<and> \<not> faults s OpRemove m then None
      else fmlookup (entries s) m)"
proof -
  have "m \<in> fmdom' (entries s)" if "doomed w s m"
    using that by (auto simp: doomed_def fmlookup_dom'_iff split: option.splits)
  then show ?thesis by (auto simp: prune_def fold_remove_lookup)
qed

lemma fold_remove_short [simp]: "short_write (fold remove_ignoring ns s) = short_write s"
  by (induction ns arbitrary: s) (simp_all add: remove_ignoring_def os_Remove_def split: option.splits)

lemma prune_short [simp]: "short_write (prune w s) = short_write s"
  by (simp add: prune_def)

lemma prune_faults [simp]: "faults (prune w s) = faults s"
  by (simp add: prune_def fold_remove_lookup)

lemma not_doomed_path [simp]: "\<not> doomed w s (w_path w)"
  by (simp add: doomed_def split: option.splits)

lemma doomed_backup:
  "0 < i \<Longrightarrow> i < 2 ^ 63 \<Longrightarrow> w_maxAge w \<le> 0 \<Longrightarrow> backup w s i = Some e \<Longrightarrow>
     doomed w s (backupPath (w_path w) i) \<longleftrightarrow> \<not> de_dir e \<and> i > w_backups w"
  using backupPath_number [of i "w_path w"] by (simp add: doomed_def)

subsection \<open>The backup chain\<close>

text \<open>One step of the loop with nothing refused: the backup \<open>i\<close>, if there is one, becomes \<open>i + 1\<close>.\<close>

definition shift_one :: "string \<Rightarrow> int \<Rightarrow> fs \<Rightarrow> fs" where
  "shift_one path i s =
     (case fmlookup (entries s) (backupPath path i) of
        None \<Rightarrow> s
      | Some e \<Rightarrow> s\<lparr>entries := fmupd (backupPath path (i + 1)) e (fmdrop (backupPath path i) (entries s))\<rparr>)"

lemma shift_one_ok [simp]: "no_faults (shift_one path i s) = no_faults s"
  by (simp add: shift_one_def no_faults_def split: option.splits)

lemma rename_no_dirs:
  "no_dirs s \<Longrightarrow> fmlookup (entries s) old = Some e \<Longrightarrow>
     no_dirs (s\<lparr>entries := fmupd new e (fmdrop old (entries s))\<rparr>)"
  by (simp add: no_dirs_def)

lemma shift_one_dirs: "no_dirs s \<Longrightarrow> no_dirs (shift_one path i s)"
  by (auto simp: shift_one_def rename_no_dirs split: option.splits)

lemma os_Rename_ok:
  "no_faults s \<Longrightarrow> no_dirs s \<Longrightarrow> fmlookup (entries s) old = Some e \<Longrightarrow>
     os_Rename old new s = Inr (s\<lparr>entries := fmupd new e (fmdrop old (entries s))\<rparr>)"
  by (auto simp: os_Rename_def no_faults_def no_dirs_def split: option.splits)

lemma shift_loop_step:
  "no_faults s \<Longrightarrow> no_dirs s \<Longrightarrow>
     shift_loop path (Suc k) s = shift_loop path k (shift_one path (int (Suc k)) s)"
  by (cases "fmlookup (entries s) (backupPath path (int (Suc k)))")
    (simp_all add: Let_def os_Stat_def os_Rename_ok shift_one_def no_faults_def)

lemma shift_one_lookup:
  "0 < i \<Longrightarrow> fmlookup (entries (shift_one path i s)) name =
     (if name = backupPath path i then None
      else if name = backupPath path (i + 1) \<and> fmlookup (entries s) (backupPath path i) \<noteq> None
      then fmlookup (entries s) (backupPath path i)
      else fmlookup (entries s) name)"
  by (auto simp: shift_one_def split: option.splits)

text \<open>The whole loop: every backup has moved up by one, and the first place is free.\<close>

lemma shift_loop_chain:
  assumes "no_faults s" and "no_dirs s"
  shows "\<exists>s'. shift_loop path k s = (None, s') \<and> faults s' = faults s \<and> now s' = now s \<and> AddDate s' = AddDate s \<and>
      no_dirs s' \<and>
      (\<forall>j \<in> {1..int k}. fmlookup (entries s') (backupPath path j) =
          (if j = 1 then None else fmlookup (entries s) (backupPath path (j - 1)))) \<and>
      fmlookup (entries s') (backupPath path (int k + 1)) =
        (if 0 < k \<and> fmlookup (entries s) (backupPath path (int k)) \<noteq> None
         then fmlookup (entries s) (backupPath path (int k))
         else fmlookup (entries s) (backupPath path (int k + 1))) \<and>
      (\<forall>name. name \<notin> backupPath path ` {1..int k + 1} \<longrightarrow> fmlookup (entries s') name = fmlookup (entries s) name)"
  using assms
proof (induction k arbitrary: s)
  case 0
  then show ?case by simp
next
  case (Suc k)
  let ?i = "int (Suc k)"
  let ?s1 = "shift_one path ?i s"
  have look: "fmlookup (entries ?s1) name =
     (if name = backupPath path ?i then None
      else if name = backupPath path (?i + 1) \<and> fmlookup (entries s) (backupPath path ?i) \<noteq> None
      then fmlookup (entries s) (backupPath path ?i)
      else fmlookup (entries s) name)" for name
    by (rule shift_one_lookup) simp
  have frame: "faults ?s1 = faults s \<and> now ?s1 = now s \<and> AddDate ?s1 = AddDate s"
    by (simp add: shift_one_def split: option.splits)
  from Suc.IH [of ?s1] Suc.prems obtain s' where run: "shift_loop path k ?s1 = (None, s')"
    and fr: "faults s' = faults s" "now s' = now s" "AddDate s' = AddDate s" "no_dirs s'"
    and low: "\<And>j. j \<in> {1..int k} \<Longrightarrow> fmlookup (entries s') (backupPath path j) =
        (if j = 1 then None else fmlookup (entries ?s1) (backupPath path (j - 1)))"
    and top: "fmlookup (entries s') (backupPath path (int k + 1)) =
        (if 0 < k \<and> fmlookup (entries ?s1) (backupPath path (int k)) \<noteq> None
         then fmlookup (entries ?s1) (backupPath path (int k))
         else fmlookup (entries ?s1) (backupPath path (int k + 1)))"
    and rest: "\<And>name. name \<notin> backupPath path ` {1..int k + 1} \<Longrightarrow>
        fmlookup (entries s') name = fmlookup (entries ?s1) name"
    using frame shift_one_dirs [of s path ?i] by auto
  have "fmlookup (entries s') (backupPath path j) =
          (if j = 1 then None else fmlookup (entries s) (backupPath path (j - 1)))"
    if j: "j \<in> {1..?i}" for j
  proof (cases "j = ?i")
    case True
    then show ?thesis using top look by (auto simp: add.commute)
  next
    case False
    then have "j \<in> {1..int k}" using j by simp
    then show ?thesis using low look by auto
  qed
  moreover have "backupPath path (?i + 1) \<notin> backupPath path ` {1..int k + 1}"
    by auto
  then have "fmlookup (entries s') (backupPath path (?i + 1)) = fmlookup (entries ?s1) (backupPath path (?i + 1))"
    by (rule rest)
  then have "fmlookup (entries s') (backupPath path (?i + 1)) =
      (if fmlookup (entries s) (backupPath path ?i) \<noteq> None
       then fmlookup (entries s) (backupPath path ?i) else fmlookup (entries s) (backupPath path (?i + 1)))"
    unfolding look by simp
  moreover have "fmlookup (entries s') name = fmlookup (entries s) name"
    if "name \<notin> backupPath path ` {1..?i + 1}" for name
  proof -
    have "name \<notin> backupPath path ` {1..int k + 1}" "name \<noteq> backupPath path ?i" "name \<noteq> backupPath path (?i + 1)"
      using that by auto
    then show ?thesis using rest look by simp
  qed
  ultimately show ?case
    using run fr shift_loop_step [OF Suc.prems, of path k] by auto
qed

subsection \<open>Shifting the chain\<close>

lemma shiftBackups_chain:
  assumes ok: "no_faults s" "no_dirs s" and cur: "log_file w s = Some cur" and n: "0 < w_backups w"
  shows "\<exists>s'. shiftBackups w s = (None, s') \<and> no_faults s' \<and> no_dirs s' \<and> now s' = now s \<and>
      log_file w s' = None \<and> backup w s' 1 = Some cur \<and>
      (\<forall>i. 1 \<le> i \<and> i < w_backups w \<longrightarrow> backup w s' (i + 1) =
         (if backup w s i \<noteq> None \<or> i + 1 < w_backups w then backup w s i else backup w s (i + 1))) \<and>
      (\<forall>name. name \<noteq> w_path w \<and> name \<notin> backupPath (w_path w) ` {1..w_backups w} \<longrightarrow>
         fmlookup (entries s') name = fmlookup (entries s) name)"
proof -
  define k where "k = nat (w_backups w - 1)"
  have k: "int k + 1 = w_backups w" using n by (simp add: k_def)
  obtain s1 where run: "shift_loop (w_path w) k s = (None, s1)" and fr: "faults s1 = faults s" "now s1 = now s" "no_dirs s1"
    and low: "\<And>j. j \<in> {1..int k} \<Longrightarrow> backup w s1 j = (if j = 1 then None else backup w s (j - 1))"
    and top: "backup w s1 (int k + 1) = (if 0 < k \<and> backup w s (int k) \<noteq> None
         then backup w s (int k) else backup w s (int k + 1))"
    and rest: "\<And>name. name \<notin> backupPath (w_path w) ` {1..int k + 1} \<Longrightarrow>
        fmlookup (entries s1) name = fmlookup (entries s) name"
    using shift_loop_chain [OF ok, of "w_path w" k] by auto
  have cur1: "log_file w s1 = Some cur" using rest [of "w_path w"] cur by simp
  have nf: "no_faults s1" using ok(1) fr(1) by (simp add: no_faults_def)
  define s2 where "s2 = s1\<lparr>entries := fmupd (backupPath (w_path w) 1) cur (fmdrop (w_path w) (entries s1))\<rparr>"
  have ren: "os_Rename (w_path w) (backupPath (w_path w) 1) s1 = Inr s2"
    using os_Rename_ok [OF nf fr(3) cur1] by (simp add: s2_def)
  have res: "shiftBackups w s = (None, s2)"
    using run ren n by (simp add: shiftBackups_def k_def)
  have look: "fmlookup (entries s2) name = (if name = backupPath (w_path w) 1 then Some cur
      else if name = w_path w then None else fmlookup (entries s1) name)" for name
    by (simp add: s2_def)
  have chain: "backup w s2 (i + 1) =
      (if backup w s i \<noteq> None \<or> i + 1 < w_backups w then backup w s i else backup w s (i + 1))"
    if i: "1 \<le> i" "i < w_backups w" for i
  proof -
    have "backup w s2 (i + 1) = backup w s1 (i + 1)" using i by (simp add: look)
    also have "\<dots> = (if backup w s i \<noteq> None \<or> i + 1 < w_backups w then backup w s i else backup w s (i + 1))"
    proof (cases "i + 1 = w_backups w")
      case True
      then have "i = int k" "0 < k" using k i by simp_all
      then show ?thesis using top True by simp
    next
      case False
      then have "i + 1 \<in> {1..int k}" "i + 1 < w_backups w" using k i by simp_all
      then show ?thesis using low [of "i + 1"] i by simp
    qed
    finally show ?thesis .
  qed
  have other: "fmlookup (entries s2) name = fmlookup (entries s) name"
    if "name \<noteq> w_path w" "name \<notin> backupPath (w_path w) ` {1..w_backups w}" for name
  proof -
    have "name \<noteq> backupPath (w_path w) 1" using that n by auto
    then show ?thesis using that look [of name] rest [of name] k by simp
  qed
  have "no_faults s2" "now s2 = now s" using nf fr by (simp_all add: s2_def no_faults_def)
  moreover have "no_dirs s2" unfolding s2_def using rename_no_dirs [OF fr(3) cur1] .
  moreover have "log_file w s2 = None" "backup w s2 1 = Some cur" by (simp_all add: look)
  ultimately show ?thesis using res chain other by blast
qed

lemma shiftBackups_frees:
  assumes "no_faults s" and "no_dirs s" and "log_file w s = Some cur"
  shows "\<exists>s'. shiftBackups w s = (None, s') \<and> no_faults s' \<and> no_dirs s' \<and> log_file w s' = None"
proof (cases "0 < w_backups w")
  case True
  then show ?thesis using shiftBackups_chain [OF assms] by blast
next
  case False
  with assms show ?thesis
    by (auto simp: shiftBackups_def os_Remove_def no_faults_def no_dirs_def)
qed

text \<open>A rotation with nothing refused, in one equation.\<close>

definition fresh_log :: "Writer \<Rightarrow> fs \<Rightarrow> fs" where
  "fresh_log w s = s\<lparr>entries := fmupd (w_path w) \<lparr>de_dir = False, de_data = [], de_mtime = now s\<rparr> (entries s)\<rparr>"

lemma fresh_log_lookup:
  "fmlookup (entries (fresh_log w s)) name =
     (if name = w_path w then Some \<lparr>de_dir = False, de_data = [], de_mtime = now s\<rparr> else fmlookup (entries s) name)"
  by (simp add: fresh_log_def)

lemma fresh_log_ok [simp]: "no_faults (fresh_log w s) = no_faults s"
  by (simp add: fresh_log_def no_faults_def)

lemma fresh_log_dirs: "no_dirs s \<Longrightarrow> no_dirs (fresh_log w s)"
  by (auto simp: fresh_log_def no_dirs_def)

lemma prune_lookup_ok:
  "no_faults s \<Longrightarrow> fmlookup (entries (prune w s)) name = (if doomed w s name then None else fmlookup (entries s) name)"
  by (simp add: no_faults_def)

lemma prune_log: "w_path w' = w_path w \<Longrightarrow> log_file w (prune w' s) = log_file w s"
  using not_doomed_path [of w' s] by simp

lemma rotate_ok:
  assumes "w_file w = OpenFile" and "no_faults s"
    and "shiftBackups (w\<lparr>w_file := NilFile\<rparr>) s = (None, s1)" and "no_faults s1" and "log_file w s1 = None"
  shows "rotate w s = (None, w\<lparr>w_size := 0\<rparr>, prune (w\<lparr>w_size := 0\<rparr>) (fresh_log w s1))"
proof -
  have opened: "openAppend (w_path w) s1 = Inr (fresh_log w s1)"
    using assms(4,5) by (simp add: openAppend_def fresh_log_def no_faults_def)
  have same: "w\<lparr>w_file := OpenFile, w_size := 0\<rparr> = w\<lparr>w_size := 0\<rparr>"
    using assms(1) by (metis Writer.surjective Writer.update_convs(1,4))
  have "\<not> faults (fresh_log w s1) op name" for op name
    using assms(4) fresh_log_ok [of w s1] by (simp add: no_faults_def)
  then show ?thesis
    using assms opened by (simp add: rotate_def no_faults_def file_size_def fresh_log_lookup Let_def same)
qed

text \<open>Whatever is refused, the current log is either untouched or gone from its path.\<close>

lemma os_Rename_Inr: "os_Rename old new s = Inr s' \<Longrightarrow> faults s' = faults s \<and> now s' = now s \<and> short_write s' = short_write s \<and>
    (\<exists>e. fmlookup (entries s) old = Some e \<and> entries s' = fmupd new e (fmdrop old (entries s)))"
  by (auto simp: os_Rename_def split: option.splits if_splits)

lemma shift_loop_log:
  "shift_loop path k s = (err, s') \<Longrightarrow>
     fmlookup (entries s') path = fmlookup (entries s) path \<and> faults s' = faults s \<and> short_write s' = short_write s"
proof (induction k arbitrary: s)
  case 0
  then show ?case by simp
next
  case (Suc k)
  let ?old = "backupPath path (int (Suc k))"
  let ?new = "backupPath path (int (Suc k) + 1)"
  consider (absent) "\<not> os_Stat ?old s" | (refused) e where "os_Stat ?old s" "os_Rename ?old ?new s = Inl e"
    | (moved) s1 where "os_Stat ?old s" "os_Rename ?old ?new s = Inr s1"
    by (cases "os_Rename ?old ?new s") auto
  then show ?case
  proof cases
    case absent
    with Suc show ?thesis by (simp add: Let_def)
  next
    case (refused e)
    with Suc.prems show ?thesis by (simp add: Let_def)
  next
    case (moved s1)
    with Suc.prems have "shift_loop path k s1 = (err, s')" by (simp add: Let_def)
    from Suc.IH [OF this] os_Rename_Inr [OF moved(2)] show ?thesis by auto
  qed
qed

lemma os_Remove_Inr: "os_Remove name s = Inr s' \<Longrightarrow> faults s' = faults s \<and> now s' = now s \<and> short_write s' = short_write s \<and>
    entries s' = fmdrop name (entries s)"
  by (auto simp: os_Remove_def split: option.splits if_splits)

lemma shiftBackups_log:
  assumes "shiftBackups w s = (err, s')"
  shows "(log_file w s' = log_file w s \<or> log_file w s' = None) \<and> faults s' = faults s \<and> short_write s' = short_write s"
proof (cases "w_backups w \<le> 0")
  case True
  with assms show ?thesis
    by (auto simp: shiftBackups_def dest!: os_Remove_Inr split: sum.splits os_error.splits)
next
  case False
  obtain err1 s1 where loop: "shift_loop (w_path w) (nat (w_backups w - 1)) s = (err1, s1)"
    by (cases "shift_loop (w_path w) (nat (w_backups w - 1)) s")
  with assms False show ?thesis using shift_loop_log [OF loop]
    by (auto simp: shiftBackups_def dest!: os_Rename_Inr split: sum.splits os_error.splits option.splits)
qed

lemma openAppend_Inr:
  "openAppend path s = Inr s' \<Longrightarrow> \<exists>e. fmlookup (entries s') path = Some e \<and> \<not> de_dir e \<and> faults s' = faults s \<and>
     short_write s' = short_write s \<and>
     (fmlookup (entries s) path = Some e \<or> (fmlookup (entries s) path = None \<and> de_data e = []))"
  by (auto simp: openAppend_def split: option.splits if_splits)

section \<open>Properties\<close>

text \<open>The size the writer keeps is that of the file it has open.\<close>

definition writer_ok :: "Writer \<Rightarrow> fs \<Rightarrow> bool" where
  "writer_ok w s \<longleftrightarrow> (w_file w = OpenFile \<longrightarrow>
     (\<exists>e. log_file w s = Some e \<and> \<not> de_dir e \<and> w_size w = int (length (de_data e))))"

lemma append_data_log:
  "log_file w s = Some e \<Longrightarrow> log_file w (append_data (w_path w) p s) = Some (e\<lparr>de_data := de_data e @ p, de_mtime := now s\<rparr>)"
  by (simp add: append_data_def)

lemma write_file_ok:
  assumes "writer_ok w s" and "w_size w + int (length p) < 2 ^ 63"
  shows "\<exists>n err w' s'. write_file p w s = ((n, err), w', s') \<and> (w_file w \<noteq> NilFile \<longrightarrow> writer_ok w' s') \<and> n \<le> length p"
proof (cases "w_file w = OpenFile")
  case True
  define n where "n = (if faults s OpWrite (w_path w) then min (short_write s) (length p) else length p)"
  define err where "err = (if faults s OpWrite (w_path w) then Some WriteFailed else None)"
  from True assms(1) obtain e where e: "log_file w s = Some e" "\<not> de_dir e" "w_size w = int (length (de_data e))"
    by (auto simp: writer_ok_def)
  have n: "n \<le> length p" by (simp add: n_def)
  have "wrap64 (w_size w + int n) = w_size w + int n"
    using e(3) n assms(2) by (intro wrap64_id) simp_all
  then have "write_file p w s = ((n, err), w\<lparr>w_size := w_size w + int n\<rparr>, append_data (w_path w) (take n p) s)"
    using True by (simp add: write_file_def n_def err_def Let_def)
  moreover have "writer_ok (w\<lparr>w_size := w_size w + int n\<rparr>) (append_data (w_path w) (take n p) s)"
    using e n append_data_log [OF e(1)] by (simp add: writer_ok_def)
  ultimately show ?thesis using n by blast
next
  case False
  then show ?thesis by (cases "w_file w") (auto simp: write_file_def writer_ok_def Let_def)
qed

lemma rotate_cases:
  assumes "rotate w s = (err, w', s')"
  obtains (close) "w' = w\<lparr>w_file := ClosedFile\<rparr>" "s' = s" "err = Some CloseFailed"
      "w_file w = ClosedFile \<or> faults s OpClose (w_path w)"
    | (lost) s1 e where "w' = w\<lparr>w_file := NilFile\<rparr>" "err = Some e" "w_file w \<noteq> ClosedFile"
        "openAppend (w_path w) s1 = Inl e" "log_file w s1 = log_file w s \<or> log_file w s1 = None"
        "faults s1 = faults s"
    | (reopened) e where "w' = w\<lparr>w_file := OpenFile, w_size := (if faults s OpFstat (w_path w) then 0 else int (length (de_data e)))\<rparr>"
        "log_file w s' = Some e" "\<not> de_dir e" "faults s' = faults s" "short_write s' = short_write s"
        "log_file w s = Some e \<or> de_data e = []" "w_file w \<noteq> ClosedFile"
proof (cases "w_file w = ClosedFile \<or> faults s OpClose (w_path w)")
  case True
  with assms show ?thesis by (intro close) (auto simp: rotate_def)
next
  case False
  let ?w1 = "w\<lparr>w_file := NilFile\<rparr>"
  obtain shiftErr s1 where shift: "shiftBackups ?w1 s = (shiftErr, s1)" by (cases "shiftBackups ?w1 s")
  have log: "log_file w s1 = log_file w s \<or> log_file w s1 = None"
    and fr: "faults s1 = faults s" "short_write s1 = short_write s"
    using shiftBackups_log [OF shift] by simp_all
  show ?thesis
  proof (cases "openAppend (w_path w) s1")
    case (Inl e)
    with assms False shift log fr show ?thesis by (intro lost [of e s1]) (auto simp: rotate_def Let_def)
  next
    case (Inr s2)
    from openAppend_Inr [OF this] obtain e where e: "log_file w s2 = Some e" "\<not> de_dir e" "faults s2 = faults s1"
      "short_write s2 = short_write s1" "log_file w s1 = Some e \<or> (log_file w s1 = None \<and> de_data e = [])"
      by blast
    define w2 where "w2 = w\<lparr>w_file := OpenFile, w_size := (if faults s OpFstat (w_path w) then 0 else int (length (de_data e)))\<rparr>"
    have "rotate w s = (shiftErr, w2, prune w2 s2)"
      using False shift Inr e(1,3) fr(1) by (simp add: rotate_def Let_def file_size_def w2_def)
    with assms have res: "err = shiftErr" "w' = w2" "s' = prune w2 s2" by auto
    have "w_path w2 = w_path w" by (simp add: w2_def)
    then have "log_file w s' = Some e" "faults s' = faults s" "short_write s' = short_write s"
      using e fr not_doomed_path [of w2 s2] res by simp_all
    then show ?thesis using e log False res(2) by (intro reopened [of e]) (auto simp: w2_def)
  qed
qed

text \<open>
  \<open>Write\<close> keeps the recorded size equal to the size of the file, whatever the operating system
  refuses on the way (renames, removals, the write itself, part of it), as long as the size of an
  open file can be read and stays below 63 bits.
\<close>

theorem Write_keeps_size:
  assumes "writer_ok w s" and "\<And>name. \<not> faults s OpFstat name"
    and "w_size w + int (length p) < 2 ^ 63"
  shows "\<exists>n err w' s'. Write p w s = ((n, err), w', s') \<and> writer_ok w' s' \<and> n \<le> length p"
proof (cases "w_file w = NilFile")
  case True
  then show ?thesis using assms(1) by (simp add: Write_def)
next
  case nonnil: False
  show ?thesis
  proof (cases "w_maxBytes w > 0 \<and> w_size w > 0 \<and> wrap64 (w_size w + int (length p)) > w_maxBytes w")
    case False
    with nonnil have "Write p w s = write_file p w s" by (auto simp: Write_def)
    then show ?thesis using write_file_ok [OF assms(1,3)] nonnil by auto
  next
    case True
    obtain err w1 s1 where rot: "rotate w s = (err, w1, s1)" by (cases "rotate w s")
    with nonnil True have W: "Write p w s =
        (if err \<noteq> None \<and> w_file w1 = NilFile then ((0, err), w1, s1) else write_file p w1 s1)"
      by (simp add: Write_def)
    from rot show ?thesis
    proof (cases rule: rotate_cases)
      case close
      then have "writer_ok w1 s1" "w_size w1 + int (length p) < 2 ^ 63" "w_file w1 \<noteq> NilFile"
        using assms(3) by (auto simp: writer_ok_def)
      then show ?thesis using W write_file_ok [of w1 s1 p] by auto
    next
      case (lost s2 e)
      then show ?thesis using W by (auto simp: writer_ok_def)
    next
      case (reopened e)
      have "w_file w = OpenFile" using nonnil reopened by (cases "w_file w") auto
      then have "int (length (de_data e)) \<le> w_size w"
        using reopened(6) assms(1) True by (auto simp: writer_ok_def)
      then have "writer_ok w1 s1" "w_size w1 + int (length p) < 2 ^ 63" "w_file w1 \<noteq> NilFile"
        using assms(2,3) reopened by (auto simp: writer_ok_def)
      then show ?thesis using W write_file_ok [of w1 s1 p] by auto
    qed
  qed
qed

text \<open>Inputs for the witnesses: a log of five bytes with one backup, of at most six bytes.\<close>

definition sample_file :: "string \<Rightarrow> dirent" where
  "sample_file d = \<lparr>de_dir = False, de_data = d, de_mtime = 1\<rparr>"

definition sample_fs :: fs where
  "sample_fs = \<lparr>entries = fmap_of_list [(''log'', sample_file ''hello''), (''log.1'', sample_file ''old''),
     (''log.7'', sample_file ''x''), (''other'', sample_file ''y'')],
     faults = (\<lambda>_ _. False), short_write = 0, now = 9, AddDate = (\<lambda>n. 9 + 86400 * n)\<rparr>"

definition sample_writer :: Writer where
  "sample_writer = \<lparr>w_file = OpenFile, w_path = ''log'', w_maxBytes = 6, w_size = 5, w_backups = 3, w_maxAge = 0\<rparr>"

lemma sample_writer_ok: "writer_ok sample_writer sample_fs"
  by (simp add: writer_ok_def sample_writer_def sample_fs_def sample_file_def)

lemma sample_fs_ok: "no_faults sample_fs" "no_dirs sample_fs"
  by (auto simp: no_faults_def no_dirs_def sample_fs_def sample_file_def split: if_splits)

theorem Write_keeps_size_witness:
  "\<exists>n err w' s'. Write ''bye'' sample_writer sample_fs = ((n, err), w', s') \<and> writer_ok w' s' \<and> n \<le> length ''bye''"
  by (rule Write_keeps_size [OF sample_writer_ok]) (simp_all add: sample_fs_def sample_writer_def)

text \<open>
  A write is never lost to a rotation that goes wrong: as long as the log can be closed, reopened
  and written to, \<open>Write\<close> reports success and the log ends with the bytes written, after either
  nothing or all that the log held before.
\<close>

theorem Write_survives_rotation_errors:
  assumes "w_file w = OpenFile" and "log_file w s = Some e" and "\<not> de_dir e"
    and "\<And>name. \<not> faults s OpClose name \<and> \<not> faults s OpOpen name \<and> \<not> faults s OpWrite name"
  shows "\<exists>w' s' e'. Write p w s = ((length p, None), w', s') \<and> w_file w' = OpenFile \<and>
    log_file w s' = Some e' \<and> \<not> de_dir e' \<and> de_data e' \<in> {p, de_data e @ p}"
proof -
  have written: "\<exists>w' s' e'. write_file p w1 s1 = ((length p, None), w', s') \<and> w_file w' = OpenFile \<and>
      log_file w s' = Some e' \<and> \<not> de_dir e' \<and> de_data e' \<in> {p, de_data e @ p}"
    if "w_file w1 = OpenFile" "w_path w1 = w_path w" "faults s1 = faults s"
      "log_file w s1 = Some e1" "\<not> de_dir e1" "de_data e1 \<in> {[], de_data e}" for w1 s1 e1
    using that assms(4) by (auto simp: write_file_def Let_def append_data_def)
  show ?thesis
  proof (cases "w_maxBytes w > 0 \<and> w_size w > 0 \<and> wrap64 (w_size w + int (length p)) > w_maxBytes w")
    case False
    with assms have "Write p w s = write_file p w s" by (auto simp: Write_def)
    then show ?thesis using written [of w s e] assms by simp
  next
    case True
    obtain err w1 s1 where rot: "rotate w s = (err, w1, s1)" by (cases "rotate w s")
    with assms(1) True have W: "Write p w s =
        (if err \<noteq> None \<and> w_file w1 = NilFile then ((0, err), w1, s1) else write_file p w1 s1)"
      by (simp add: Write_def)
    from rot show ?thesis
    proof (cases rule: rotate_cases)
      case close
      then show ?thesis using assms by auto
    next
      case (lost s2 x)
      from lost(4-6) assms(2-4) show ?thesis by (auto simp: openAppend_def split: option.splits)
    next
      case (reopened e1)
      then have "de_data e1 \<in> {[], de_data e}" using assms(2) by auto
      then have "\<exists>w' s' e'. write_file p w1 s1 = ((length p, None), w', s') \<and> w_file w' = OpenFile \<and>
          log_file w s' = Some e' \<and> \<not> de_dir e' \<and> de_data e' \<in> {p, de_data e @ p}"
        using reopened by (intro written) simp_all
      then show ?thesis using W reopened(1) by simp
    qed
  qed
qed

theorem Write_survives_rotation_errors_witness:
  "\<exists>w' s' e'. Write ''bye'' sample_writer sample_fs = ((length ''bye'', None), w', s') \<and> w_file w' = OpenFile \<and>
    fmlookup (entries s') ''log'' = Some e' \<and> \<not> de_dir e' \<and> de_data e' \<in> {''bye'', ''hellobye''}"
  using Write_survives_rotation_errors [of sample_writer sample_fs "sample_file ''hello''" "''bye''"]
  unfolding sample_file_def by (simp add: sample_fs_def sample_writer_def sample_file_def)

text \<open>
  With nothing refused, a log with a limit holds after each write at most the limit, or the bytes
  of that one write when they alone are more: the write goes to the end of the log when it fits
  and to a new log otherwise.
\<close>

theorem Write_bounds_log:
  assumes "writer_ok w s" and "w_file w = OpenFile" and "no_faults s" and "no_dirs s"
    and "log_file w s = Some e" and "0 < w_maxBytes w" and "w_size w + int (length p) < 2 ^ 63"
  shows "\<exists>w' s' e'. Write p w s = ((length p, None), w', s') \<and> log_file w s' = Some e' \<and>
    int (length (de_data e')) \<le> max (w_maxBytes w) (int (length p)) \<and>
    de_data e' = (if de_data e \<noteq> [] \<and> int (length (de_data e @ p)) > w_maxBytes w then p else de_data e @ p)"
proof -
  have size: "w_size w = int (length (de_data e))" using assms(1,2,5) by (simp add: writer_ok_def)
  then have wrap: "wrap64 (w_size w + int (length p)) = w_size w + int (length p)"
    using assms(7) by (intro wrap64_id) simp_all
  show ?thesis
  proof (cases "w_size w > 0 \<and> w_size w + int (length p) > w_maxBytes w")
    case False
    then have "Write p w s = write_file p w s"
      using assms(2) wrap by (auto simp: Write_def)
    then show ?thesis
      using False assms(2,3,5) size by (auto simp: write_file_def Let_def no_faults_def append_data_def)
  next
    case True
    let ?w1 = "w\<lparr>w_file := NilFile\<rparr>"
    obtain s1 where shift: "shiftBackups ?w1 s = (None, s1)" "no_faults s1" "log_file w s1 = None"
      using shiftBackups_frees [OF assms(3,4), of ?w1 e] assms(5) by auto
    let ?w2 = "w\<lparr>w_size := 0\<rparr>" and ?s2 = "fresh_log w s1"
    have "Write p w s = write_file p ?w2 (prune ?w2 ?s2)"
      using True assms(2,6) wrap rotate_ok [OF assms(2,3) shift] by (simp add: Write_def)
    moreover have "\<not> faults (prune ?w2 ?s2) op name" for op name
      using shift(2) fresh_log_ok [of w s1] by (simp add: no_faults_def)
    ultimately show ?thesis
      using True assms(2) size
      by (simp add: write_file_def Let_def append_data_def prune_log fresh_log_lookup del: prune_lookup prune_faults)
  qed
qed

theorem Write_bounds_log_witness:
  "\<exists>w' s' e'. Write ''bye'' sample_writer sample_fs = ((length ''bye'', None), w', s') \<and>
    fmlookup (entries s') ''log'' = Some e' \<and> de_data e' = ''bye''"
proof -
  have "log_file sample_writer sample_fs = Some (sample_file ''hello'')"
    by (simp add: sample_writer_def sample_fs_def)
  from Write_bounds_log [OF sample_writer_ok _ sample_fs_ok this, of "''bye''"]
  show ?thesis by (simp add: sample_writer_def sample_file_def) blast
qed



text \<open>
  When closing the log for a rotation reports an error, the process has lost its log for good:
  this write and every later one fail, because the file is not reopened and the closed one is kept.
\<close>

theorem close_error_ends_logging:
  assumes "w_file w = OpenFile" and "faults s OpClose (w_path w)"
    and "0 < w_maxBytes w" and "0 < w_size w" and "w_maxBytes w < wrap64 (w_size w + int (length p))"
  shows "\<exists>w'. Write p w s = ((0, Some ErrClosed), w', s) \<and> (\<forall>q s''. fst (Write q w' s'') = (0, Some ErrClosed))"
  using assms by (auto simp: Write_def rotate_def write_file_def)

theorem close_error_ends_logging_witness:
  "\<exists>w'. Write ''bye'' sample_writer (sample_fs\<lparr>faults := \<lambda>op _. op = OpClose\<rparr>) =
      ((0, Some ErrClosed), w', sample_fs\<lparr>faults := \<lambda>op _. op = OpClose\<rparr>) \<and>
    (\<forall>q s''. fst (Write q w' s'') = (0, Some ErrClosed))"
  by (rule close_error_ends_logging) (simp_all add: sample_writer_def sample_fs_def wrap64_def)

text \<open>
  The number of a backup is read back from the name it was given, so that the names of a chain
  are told apart, and no other decimal suffix is taken for a backup.
\<close>

theorem backupNumber_roundtrip:
  assumes "0 < n" and "n < 2 ^ 63"
  shows "backupNumber (TrimPrefix (backupPath path n) (path @ ''.'')) = Some n \<and>
    HasPrefix (backupPath path n) (path @ ''.'') \<and>
    (\<forall>m. 0 < m \<longrightarrow> backupPath path m = backupPath path n \<longrightarrow> m = n) \<and>
    (\<forall>s. \<not> list_all is_digit s \<longrightarrow> backupNumber s = None)"
proof -
  have "number_loop s a = None" if "\<not> list_all is_digit s" for s a
    using that by (induction s arbitrary: a) auto
  then show ?thesis using assms backupPath_number [of n path] by (auto simp: backupNumber_def)
qed

theorem backupNumber_roundtrip_witness:
  "backupNumber (TrimPrefix (backupPath ''app.log'' 10) (''app.log'' @ ''.'')) = Some 10"
  using backupNumber_roundtrip [of 10 "''app.log''"] by simp

end
