(* ===== verification/OneChild.thy ===== *)
theory OneChild
  imports Process
begin

text \<open>
  Why a program has at most one child: the calls that the rest of the program makes, and the invariant
  they keep.
\<close>

section \<open>One call at a time\<close>

text \<open>
  The promise that a program never has two children at once needs an assumption on the callers: a
  call begins when the previous calls and the handling of an exit have settled, \<open>Start\<close> is called
  for a stopped program only (what the reconciler does), and a backoff runs out only while nothing
  else is going on and its context has not been canceled. Section ``The window of a restart'' shows that the
  assumption cannot be dropped.
\<close>

datatype role = Starter | IdleStop | BusyStop | Unfinished | PostExit | Quiet

fun role_of :: "pc \<Rightarrow> role" where
  "role_of (StopClose st c r sr) = (if IsStopped st \<or> st = StateBackoff then IdleStop else BusyStop)"
| "role_of (StopIdle c) = IdleStop"
| "role_of StopIdleSet = IdleStop"
| "role_of (StopSet c r) = BusyStop"
| "role_of (StopTerm c r) = BusyStop"
| "role_of (StopWait c r) = BusyStop"
| "role_of (StopKill c r) = BusyStop"
| "role_of (StopGrace c r) = BusyStop"
| "role_of (StopCancel c) = BusyStop"
| "role_of (MonWait r c) = Unfinished"
| "role_of (MonLinger r c) = PostExit"
| "role_of (MonRecord r c) = PostExit"
| "role_of (MonSwitch r c stopped code) = PostExit"
| "role_of (MonSet r st) = PostExit"
| "role_of (MonLatch r c code) = PostExit"
| "role_of (MonExited r c code) = PostExit"
| "role_of (MonCount r c) = PostExit"
| "role_of (MonBackoff r c n) = Quiet"
| "role_of (WaitStart r c) = Quiet"
| "role_of WaitSet = Quiet"
| "role_of _ = Starter"

definition settled :: "psys \<Rightarrow> bool" where
  "settled s \<longleftrightarrow> (\<forall>c \<in> fmran' (pcs s). role_of c = Unfinished \<or> role_of c = Quiet)"

fun calm :: "psys \<Rightarrow> label \<Rightarrow> bool" where
  "calm s CallStart = (settled s \<and> p_state (the_proc s) = StateStopped)"
| "calm s CallStop = settled s"
| "calm s (Go t ch) = (case fmlookup (pcs s) t of
      Some (MonBackoff r c n) \<Rightarrow> ch = Timer \<longrightarrow> settled s \<and> c \<notin> canceled s
    | _ \<Rightarrow> True)"
| "calm s _ = True"

definition calm_step :: "psys \<Rightarrow> label \<Rightarrow> psys \<Rightarrow> bool" where
  "calm_step s l s' \<longleftrightarrow> calm s l \<and> process_step s l s'"

subsection \<open>The invariant\<close>

text \<open>Roles that two different threads never have at the same time.\<close>

definition clash :: "role \<Rightarrow> role \<Rightarrow> bool" where
  "clash a b \<longleftrightarrow>
     (a \<in> {Starter, IdleStop, BusyStop} \<and> b \<in> {Starter, IdleStop, BusyStop}) \<or>
     (a \<in> {Starter, IdleStop} \<and> b \<in> {Unfinished, PostExit}) \<or>
     (b \<in> {Starter, IdleStop} \<and> a \<in> {Unfinished, PostExit}) \<or>
     (a \<in> {Unfinished, PostExit} \<and> b \<in> {Unfinished, PostExit})"

definition active :: "State \<Rightarrow> bool" where
  "active st \<longleftrightarrow> st = StateStarting \<or> st = StateRunning \<or> st = StateStopping"

text \<open>The context a thread runs under, and the threads that have put an end to earlier backoffs.\<close>

fun context_of :: "pc \<Rightarrow> nat option" where
  "context_of (StartSet k c) = Some c"
| "context_of (StartSpawn k c) = Some c"
| "context_of (StartRecord k c r) = Some c"
| "context_of (MonWait r c) = Some c"
| "context_of (MonLinger r c) = Some c"
| "context_of (MonRecord r c) = Some c"
| "context_of (MonSwitch r c stopped code) = Some c"
| "context_of (MonLatch r c code) = Some c"
| "context_of (MonExited r c code) = Some c"
| "context_of (MonCount r c) = Some c"
| "context_of (MonBackoff r c n) = Some c"
| "context_of _ = None"

fun needs_active :: "pc \<Rightarrow> bool" where
  "needs_active (StartSpawn k c) = True"
| "needs_active (StartRecord k c r) = True"
| "needs_active (MonWait r c) = True"
| "needs_active _ = False"

definition supersedes :: "pc \<Rightarrow> bool" where
  "supersedes c \<longleftrightarrow> role_of c = Unfinished \<or> role_of c = PostExit \<or>
     (\<exists>k x. c = StartSet k x) \<or> (\<exists>k x. c = StartSpawn k x) \<or> (\<exists>k x r. c = StartRecord k x r)"

fun runs_child :: "nat \<Rightarrow> pc \<Rightarrow> bool" where
  "runs_child r (StartRecord k c r') = (r = r')"
| "runs_child r (MonWait r' c) = (r = r')"
| "runs_child r _ = False"

definition thread_ok :: "psys \<Rightarrow> pc \<Rightarrow> bool" where
  "thread_ok s c \<longleftrightarrow> (needs_active c \<longrightarrow> active (p_state (the_proc s))) \<and>
     (\<forall>x \<in> set_option (context_of c). x \<in> canceled s \<or> p_cancel (the_proc s) = Some x)"

definition pair_ok :: "psys \<Rightarrow> pc \<Rightarrow> pc \<Rightarrow> bool" where
  "pair_ok s c d \<longleftrightarrow> \<not> clash (role_of c) (role_of d) \<and>
     (supersedes c \<longrightarrow> (\<forall>r x n. d = MonBackoff r x n \<longrightarrow> x \<in> canceled s))"

definition single :: "psys \<Rightarrow> bool" where
  "single s \<longleftrightarrow>
     (\<forall>t c. fmlookup (pcs s) t = Some c \<longrightarrow> t < next_id s \<and> thread_ok s c) \<and>
     (\<forall>t t' c d. t \<noteq> t' \<and> fmlookup (pcs s) t = Some c \<and> fmlookup (pcs s) t' = Some d \<longrightarrow> pair_ok s c d) \<and>
     (\<forall>r. run_flag run_alive r s \<longrightarrow> (\<exists>t c. fmlookup (pcs s) t = Some c \<and> runs_child r c))"

lemma clash_sym: "clash a b = clash b a"
  by (auto simp: clash_def)

text \<open>A thread that moves on without asking more of the others keeps the pairs right.\<close>

lemma single_thread:
  assumes "single s" and "fmlookup (pcs s) t = Some c"
  shows "thread_ok s c" and "t < next_id s"
    and "t' \<noteq> t \<Longrightarrow> fmlookup (pcs s) t' = Some d \<Longrightarrow> pair_ok s c d \<and> pair_ok s d c \<and> thread_ok s d \<and> t' < next_id s"
proof -
  have one: "t < next_id s \<and> thread_ok s c" if "fmlookup (pcs s) t = Some c" for t c
    using assms(1) that by (simp add: single_def)
  have two: "pair_ok s c d" if "t \<noteq> t'" "fmlookup (pcs s) t = Some c" "fmlookup (pcs s) t' = Some d" for t t' c d
    using assms(1) that unfolding single_def by metis
  show "thread_ok s c" "t < next_id s" using one assms(2) by simp_all
  show "pair_ok s c d \<and> pair_ok s d c \<and> thread_ok s d \<and> t' < next_id s"
    if "t' \<noteq> t" "fmlookup (pcs s) t' = Some d"
    using one [OF that(2)] two [OF that(1) that(2) assms(2)] two [OF that(1) [symmetric] assms(2) that(2)] by simp
qed

lemma single_replace:
  assumes inv: "single s" and c: "fmlookup (pcs s) t = Some c"
    and pcs: "pcs s' = fmupd u c' (fmdrop t (pcs s))" and u: "u = t \<or> next_id s \<le> u" "u < next_id s'"
    and mono: "canceled s \<subseteq> canceled s'" "next_id s \<le> next_id s'"
    and ok: "thread_ok s' c'"
    and others: "\<And>t' d. t' \<noteq> t \<Longrightarrow> fmlookup (pcs s) t' = Some d \<Longrightarrow> pair_ok s c d \<Longrightarrow> pair_ok s d c \<Longrightarrow> thread_ok s d \<Longrightarrow>
      thread_ok s' d \<and> pair_ok s' c' d \<and> pair_ok s' d c'"
    and alive: "\<And>r. run_flag run_alive r s' \<Longrightarrow> runs_child r c' \<or> (run_flag run_alive r s \<and> \<not> runs_child r c)"
  shows "single s'"
proof -
  have moved: "t' \<noteq> u \<and> t' < next_id s' \<and> thread_ok s' d \<and> pair_ok s' c' d \<and> pair_ok s' d c'"
    if "t' \<noteq> t" "fmlookup (pcs s) t' = Some d" for t' d
    using others [OF that] single_thread(3) [OF inv c that] u(1) mono(2) that(1) by fastforce
  have look: "t' = u \<and> d = c' \<or> t' \<noteq> u \<and> t' \<noteq> t \<and> fmlookup (pcs s) t' = Some d"
    if "fmlookup (pcs s') t' = Some d" for t' d
    using that pcs by (auto split: if_splits)
  show ?thesis
    unfolding single_def
  proof (intro conjI allI impI)
    fix t' d
    assume "fmlookup (pcs s') t' = Some d"
    from look [OF this] moved [of t' d] ok u(2) show "t' < next_id s'" "thread_ok s' d" by auto
  next
    fix t1 t2 d1 d2
    assume a: "t1 \<noteq> t2 \<and> fmlookup (pcs s') t1 = Some d1 \<and> fmlookup (pcs s') t2 = Some d2"
    then have l: "t1 = u \<and> d1 = c' \<or> t1 \<noteq> u \<and> t1 \<noteq> t \<and> fmlookup (pcs s) t1 = Some d1"
      "t2 = u \<and> d2 = c' \<or> t2 \<noteq> u \<and> t2 \<noteq> t \<and> fmlookup (pcs s) t2 = Some d2"
      using look by auto
    show "pair_ok s' d1 d2"
    proof (cases "t1 = u \<or> t2 = u")
      case True
      then show ?thesis using a l moved [of t2 d2] moved [of t1 d1] by auto
    next
      case False
      with l a have "pair_ok s d1 d2"
        using single_thread(3) [OF inv, of t1 d1 t2 d2] by auto
      with mono(1) show ?thesis by (auto simp: pair_ok_def)
    qed
  next
    fix r
    assume r: "run_flag run_alive r s'"
    from alive [OF this] show "\<exists>t' d. fmlookup (pcs s') t' = Some d \<and> runs_child r d"
    proof
      assume "runs_child r c'"
      then show ?thesis using pcs by (intro exI [of _ u] exI [of _ c']) simp
    next
      assume old: "run_flag run_alive r s \<and> \<not> runs_child r c"
      then obtain t' d where d: "fmlookup (pcs s) t' = Some d" "runs_child r d"
        using inv unfolding single_def by blast
      then have "t' \<noteq> t" using old c by auto
      then show ?thesis using d pcs moved [of t' d] by (intro exI [of _ t'] exI [of _ d]) simp
    qed
  qed
qed

lemma single_move:
  assumes inv: "single s" and c: "fmlookup (pcs s) t = Some c"
    and pcs: "pcs s' = fmupd t c' (pcs s)" and mono: "canceled s \<subseteq> canceled s'" "next_id s \<le> next_id s'"
    and ok: "thread_ok s' c'"
    and others: "\<And>t' d. t' \<noteq> t \<Longrightarrow> fmlookup (pcs s) t' = Some d \<Longrightarrow> pair_ok s c d \<Longrightarrow> pair_ok s d c \<Longrightarrow> thread_ok s d \<Longrightarrow>
      thread_ok s' d \<and> pair_ok s' c' d \<and> pair_ok s' d c'"
    and alive: "\<And>r. run_flag run_alive r s' \<Longrightarrow> runs_child r c' \<or> (run_flag run_alive r s \<and> \<not> runs_child r c)"
  shows "single s'"
proof (rule single_replace [OF inv c _ _ _ mono ok])
  show "pcs s' = fmupd t c' (fmdrop t (pcs s))" unfolding pcs by (rule fmap_ext) simp
  show "t < next_id s'" using single_thread(2) [OF inv c] mono(2) by simp
qed (use others alive in auto)

lemma single_finish:
  assumes inv: "single s" and c: "fmlookup (pcs s) t = Some c"
    and pcs: "pcs s' = fmdrop t (pcs s)" and mono: "canceled s \<subseteq> canceled s'" "next_id s \<le> next_id s'"
    and others: "\<And>t' d. t' \<noteq> t \<Longrightarrow> fmlookup (pcs s) t' = Some d \<Longrightarrow> pair_ok s c d \<Longrightarrow> thread_ok s d \<Longrightarrow> thread_ok s' d"
    and alive: "\<And>r. run_flag run_alive r s' \<Longrightarrow> run_flag run_alive r s \<and> \<not> runs_child r c"
  shows "single s'"
  unfolding single_def
proof (intro conjI allI impI)
  fix t' d
  assume d: "fmlookup (pcs s') t' = Some d"
  then have "t' \<noteq> t" "fmlookup (pcs s) t' = Some d" using pcs by (auto split: if_splits)
  then show "t' < next_id s'" "thread_ok s' d"
    using others single_thread(3) [OF inv c] mono(2) by fastforce+
next
  fix t1 t2 d1 d2
  assume "t1 \<noteq> t2 \<and> fmlookup (pcs s') t1 = Some d1 \<and> fmlookup (pcs s') t2 = Some d2"
  then have "pair_ok s d1 d2"
    using single_thread(3) [OF inv, of t1 d1 t2 d2] pcs by (auto split: if_splits)
  with mono(1) show "pair_ok s' d1 d2" by (auto simp: pair_ok_def)
next
  fix r
  assume "run_flag run_alive r s'"
  from alive [OF this] obtain t' d where d: "fmlookup (pcs s) t' = Some d" "runs_child r d" "\<not> runs_child r c"
    using inv unfolding single_def by blast
  then have "t' \<noteq> t" using c by auto
  then show "\<exists>t' d. fmlookup (pcs s') t' = Some d \<and> runs_child r d"
    using d pcs by (intro exI [of _ t'] exI [of _ d]) simp
qed

text \<open>A new thread that starts where it clashes with no other.\<close>

lemma single_new:
  assumes inv: "single s"
    and pcs: "pcs s' = fmupd (next_id s) c' (pcs s)" and mono: "canceled s \<subseteq> canceled s'" "next_id s < next_id s'"
    and ok: "thread_ok s' c'"
    and others: "\<And>t' d. fmlookup (pcs s) t' = Some d \<Longrightarrow> thread_ok s d \<Longrightarrow>
      thread_ok s' d \<and> pair_ok s' c' d \<and> pair_ok s' d c'"
    and alive: "\<And>r. run_flag run_alive r s' \<Longrightarrow> run_flag run_alive r s"
  shows "single s'"
  unfolding single_def
proof (intro conjI allI impI)
  have fresh: "t < next_id s \<and> thread_ok s d" if "fmlookup (pcs s) t = Some d" for t d
    using inv that unfolding single_def by blast
  fix t' d
  assume d: "fmlookup (pcs s') t' = Some d"
  have "t' < next_id s' \<and> thread_ok s' d"
  proof (cases "t' = next_id s")
    case True
    then show ?thesis using d pcs ok mono(2) by simp
  next
    case False
    with d pcs have old: "fmlookup (pcs s) t' = Some d" by simp
    then show ?thesis using fresh [OF old] others [OF old] mono(2) by simp
  qed
  then show "t' < next_id s'" "thread_ok s' d" by simp_all
next
  fix t1 t2 d1 d2
  assume a: "t1 \<noteq> t2 \<and> fmlookup (pcs s') t1 = Some d1 \<and> fmlookup (pcs s') t2 = Some d2"
  have "thread_ok s d" if "fmlookup (pcs s) t = Some d" for t d
    using inv that unfolding single_def by blast
  moreover have "pair_ok s' d1 d2" if "pair_ok s d1 d2"
    using that mono(1) by (auto simp: pair_ok_def)
  ultimately show "pair_ok s' d1 d2"
    using a pcs others single_thread(3) [OF inv, of t1 d1 t2 d2] by (auto split: if_splits)
next
  fix r
  assume "run_flag run_alive r s'"
  from alive [OF this] obtain t' d where d: "fmlookup (pcs s) t' = Some d" "runs_child r d"
    using inv unfolding single_def by blast
  have "t' < next_id s" using inv d(1) unfolding single_def by blast
  then have "t' \<noteq> next_id s" by simp
  then show "\<exists>t' d. fmlookup (pcs s') t' = Some d \<and> runs_child r d"
    using d pcs by (intro exI [of _ t'] exI [of _ d]) simp
qed

lemma needs_active_role: "needs_active d \<Longrightarrow> role_of d = Unfinished \<or> role_of d = Starter"
  by (cases d) auto

lemma supersedes_role: "supersedes d \<Longrightarrow> role_of d = Unfinished \<or> role_of d = PostExit \<or> role_of d = Starter"
  by (auto simp: supersedes_def)

lemma monitor_done_simps [simp]:
  "the_proc (monitor_done t r s) = the_proc s" "canceled (monitor_done t r s) = canceled s"
  "pcs (monitor_done t r s) = fmdrop t (pcs s)" "next_id (monitor_done t r s) = next_id s"
  "run_flag run_alive x (monitor_done t r s) = run_flag run_alive x s"
  by (simp_all add: monitor_done_def)

lemma start_simps [simp]:
  "the_proc (start_ok k t s) = the_proc s" "canceled (start_ok k t s) = canceled s"
  "pcs (start_ok k t s) = fmdrop t (pcs s)" "next_id (start_ok k t s) = next_id s"
  "run_flag run_alive x (start_ok k t s) = run_flag run_alive x s"
  "the_proc (start_failed k t s) = the_proc s" "canceled (start_failed k t s) = canceled s"
  "pcs (start_failed k t s) = (case k of Client \<Rightarrow> fmdrop t (pcs s) | RestartOf r \<Rightarrow> fmupd t (RestartFatal r) (pcs s))"
  "next_id (start_failed k t s) = next_id s" "run_flag run_alive x (start_failed k t s) = run_flag run_alive x s"
  by (simp_all add: start_ok_def start_failed_def split: caller.splits)

text \<open>Steps of a thread that change no state the others rely on, and leave or tighten its own role.\<close>

lemma single_goto:
  assumes inv: "single s" and c: "fmlookup (pcs s) t = Some c" and pcs: "pcs s' = fmupd t c' (pcs s)"
    and same: "p_cancel (the_proc s') = p_cancel (the_proc s)" "canceled s \<subseteq> canceled s'" "next_id s' = next_id s"
      "\<And>r. run_flag run_alive r s' = run_flag run_alive r s"
    and state: "active (p_state (the_proc s')) \<or> p_state (the_proc s') = p_state (the_proc s) \<or>
        role_of c = PostExit \<or> role_of c = Starter \<or> role_of c = IdleStop"
    and mine: "thread_ok s' c'" "role_of c' = role_of c \<or> role_of c' = Quiet" "supersedes c' \<Longrightarrow> supersedes c"
      "\<And>r x n. c' = MonBackoff r x n \<Longrightarrow> role_of c = PostExit"
      "\<And>r. runs_child r c \<Longrightarrow> runs_child r c'"
  shows "single s'"
proof (rule single_move [OF inv c pcs same(2)])
  show "next_id s \<le> next_id s'" using same(3) by simp
  show "thread_ok s' c'" by (rule mine)
  show "runs_child r c' \<or> (run_flag run_alive r s \<and> \<not> runs_child r c)" if "run_flag run_alive r s'" for r
    using that same(4) mine(5) by blast
  fix t' d
  assume d: "fmlookup (pcs s) t' = Some d" "pair_ok s c d" "pair_ok s d c" "thread_ok s d"
  have "active (p_state (the_proc s'))" if "needs_active d"
    using that state d(2,4) needs_active_role [OF that] by (auto simp: thread_ok_def pair_ok_def clash_def)
  then have ok: "thread_ok s' d" using d(4) same(1,2) by (auto simp: thread_ok_def)
  have clash: "\<not> clash (role_of c') (role_of d)"
    using d(2) mine(2) by (auto simp: pair_ok_def clash_def)
  then have one: "pair_ok s' c' d"
    using d(2) mine(3) same(2) unfolding pair_ok_def by blast
  have "\<not> supersedes d" if "c' = MonBackoff r x n" for r x n
    using mine(4) [OF that] d(2) supersedes_role [of d] by (auto simp: pair_ok_def clash_def)
  then have "pair_ok s' d c'"
    using clash clash_sym [of "role_of d" "role_of c'"] unfolding pair_ok_def by blast
  with ok one show "thread_ok s' d \<and> pair_ok s' c' d \<and> pair_ok s' d c'" by simp
qed

lemma single_end:
  assumes inv: "single s" and c: "fmlookup (pcs s) t = Some c" and pcs: "pcs s' = fmdrop t (pcs s)"
    and same: "p_cancel (the_proc s') = p_cancel (the_proc s)" "canceled s \<subseteq> canceled s'" "next_id s' = next_id s"
      "\<And>r. run_flag run_alive r s' = run_flag run_alive r s"
    and state: "active (p_state (the_proc s')) \<or> p_state (the_proc s') = p_state (the_proc s) \<or>
        role_of c = PostExit \<or> role_of c = Starter \<or> role_of c = IdleStop"
    and mine: "\<And>r. \<not> runs_child r c"
  shows "single s'"
proof (rule single_finish [OF inv c pcs same(2)])
  show "next_id s \<le> next_id s'" using same(3) by simp
  show "run_flag run_alive r s \<and> \<not> runs_child r c" if "run_flag run_alive r s'" for r
    using that same(4) mine by simp
  fix t' d
  assume d: "fmlookup (pcs s) t' = Some d" "pair_ok s c d" "thread_ok s d"
  have "active (p_state (the_proc s'))" if "needs_active d"
    using that state d(2,3) needs_active_role [OF that] by (auto simp: thread_ok_def pair_ok_def clash_def)
  then show "thread_ok s' d" using d(3) same(1,2) by (auto simp: thread_ok_def)
qed

text \<open>The first critical section of a start: every earlier backoff is canceled by it.\<close>

lemma quiet_after_cancel:
  assumes "thread_ok s d" and "role_of d = Quiet" and "canceled s' = canceled s \<union> set_option (p_cancel (the_proc s))"
  shows "thread_ok s' d" and "pair_ok s' (StartSet k x) d" and "pair_ok s' d (StartSet k x)"
proof -
  show "thread_ok s' d"
    using assms needs_active_role [of d] by (auto simp: thread_ok_def)
  show "pair_ok s' (StartSet k x) d"
    using assms by (auto simp: pair_ok_def clash_def thread_ok_def)
  show "pair_ok s' d (StartSet k x)"
    using assms(2) by (simp add: pair_ok_def clash_def)
qed

lemma begin_start_Some:
  assumes "\<not> (p_state (the_proc s) = StateRunning \<or> p_state (the_proc s) = StateStarting)"
  shows "begin_start k t s = goto t (StartSet k (next_id s)) (cancel_ctx (p_cancel (the_proc s))
      (s\<lparr>the_proc := (the_proc s)\<lparr>p_completed := False, p_cancel := Some (next_id s)\<rparr>, next_id := next_id s + 1\<rparr>))"
  using assms by (simp add: begin_start_def start_enter_def)

lemma begin_start_single:
  assumes inv: "single s" and c: "fmlookup (pcs s) t = Some (StartEnter k)"
  shows "single (begin_start k t s)"
proof (cases "p_state (the_proc s) = StateRunning \<or> p_state (the_proc s) = StateStarting")
  case True
  then have "begin_start k t s = start_failed k t s" by (simp add: begin_start_def start_enter_def)
  then show ?thesis
  proof (cases k)
    case Client
    with \<open>begin_start k t s = start_failed k t s\<close> show ?thesis by (intro single_end [OF inv c]) auto
  next
    case (RestartOf r)
    with \<open>begin_start k t s = start_failed k t s\<close> show ?thesis
      by (intro single_goto [OF inv c, where c' = "RestartFatal r"]) (auto simp: thread_ok_def supersedes_def)
  qed
next
  case False
  let ?s' = "begin_start k t s"
  show ?thesis
  proof (rule single_move [OF inv c, where c' = "StartSet k (next_id s)"])
    show "thread_ok ?s' (StartSet k (next_id s))" by (simp add: begin_start_Some [OF False] thread_ok_def)
    fix t' d
    assume d: "pair_ok s (StartEnter k) d" "thread_ok s d"
    then have "role_of d = Quiet" by (cases "role_of d") (auto simp: pair_ok_def clash_def)
    from quiet_after_cancel [OF d(2) this]
    show "thread_ok ?s' d \<and> pair_ok ?s' (StartSet k (next_id s)) d \<and> pair_ok ?s' d (StartSet k (next_id s))"
      by (simp add: begin_start_Some [OF False])
  qed (auto simp: begin_start_Some [OF False])
qed

lemma record_and_go_single:
  assumes inv: "single s" and c: "fmlookup (pcs s) t = Some (StartRecord k x r)"
  shows "single (record_and_go k t x r s)"
proof -
  let ?n = "next_id s"
  let ?s1 = "start_ok k t (s\<lparr>the_proc := recordRun r (clock s) (the_proc s), next_id := ?n + 1\<rparr>)"
  let ?s2 = "goto ?n (MonWait r x) ?s1"
  have ok: "thread_ok s (StartRecord k x r)" by (rule single_thread(1) [OF inv c])
  have s2: "single ?s2"
  proof (rule single_replace [OF inv c, where c' = "MonWait r x" and u = ?n])
    show "thread_ok ?s2 (MonWait r x)" using ok by (simp add: thread_ok_def recordRun_def)
    fix t' d
    assume d: "pair_ok s (StartRecord k x r) d" "thread_ok s d"
    then have q: "role_of d = Quiet" by (cases "role_of d") (auto simp: pair_ok_def clash_def)
    have "thread_ok ?s2 d"
      using d q needs_active_role [of d] by (auto simp: thread_ok_def recordRun_def)
    moreover have "pair_ok ?s2 (MonWait r x) d"
      using d q by (auto simp: pair_ok_def clash_def supersedes_def)
    moreover have "pair_ok ?s2 d (MonWait r x)"
      using q by (simp add: pair_ok_def clash_def)
    ultimately show "thread_ok ?s2 d \<and> pair_ok ?s2 (MonWait r x) d \<and> pair_ok ?s2 d (MonWait r x)" by simp
  qed auto
  have "single (record_and_go k t x r s)"
  proof (rule single_new [OF s2, where c' = "WaitStart r x"])
    show "pcs (record_and_go k t x r s) = fmupd (next_id ?s2) (WaitStart r x) (pcs ?s2)"
      by (rule fmap_ext) (auto simp: record_and_go_def Let_def)
    show "thread_ok (record_and_go k t x r s) (WaitStart r x)" by (simp add: thread_ok_def)
    fix t' d
    assume d: "thread_ok ?s2 d"
    then show "thread_ok (record_and_go k t x r s) d \<and> pair_ok (record_and_go k t x r s) (WaitStart r x) d \<and>
        pair_ok (record_and_go k t x r s) d (WaitStart r x)"
      by (auto simp: thread_ok_def pair_ok_def clash_def supersedes_def record_and_go_def Let_def)
  qed (auto simp: record_and_go_def Let_def)
  then show ?thesis .
qed

lemma spawn_run_single:
  assumes inv: "single s" and c: "fmlookup (pcs s) t = Some (StartSpawn k x)"
  shows "single (spawn_run k t x s)"
proof (rule single_move [OF inv c, where c' = "StartRecord k x (next_id s)"])
  have "thread_ok s (StartSpawn k x)" by (rule single_thread(1) [OF inv c])
  then show "thread_ok (spawn_run k t x s) (StartRecord k x (next_id s))"
    by (simp add: thread_ok_def spawn_run_def)
  fix t' d
  assume d: "pair_ok s (StartSpawn k x) d" "pair_ok s d (StartSpawn k x)" "thread_ok s d"
  then show "thread_ok (spawn_run k t x s) d \<and> pair_ok (spawn_run k t x s) (StartRecord k x (next_id s)) d \<and>
      pair_ok (spawn_run k t x s) d (StartRecord k x (next_id s))"
    by (auto simp: thread_ok_def pair_ok_def supersedes_def spawn_run_def)
next
  fix r
  assume "run_flag run_alive r (spawn_run k t x s)"
  then show "runs_child r (StartRecord k x (next_id s)) \<or> (run_flag run_alive r s \<and> \<not> runs_child r (StartSpawn k x))"
    by (auto simp: spawn_run_def run_flag_def split: if_splits)
qed (auto simp: spawn_run_def)

lemma backoff_over_single:
  assumes inv: "single s" and c: "fmlookup (pcs s) t = Some (MonBackoff r x n)"
    and calm: "settled s" "x \<notin> canceled s"
  shows "single (goto t (MonCheck r) s)"
proof (rule single_move [OF inv c, where c' = "MonCheck r"])
  show "thread_ok (goto t (MonCheck r) s) (MonCheck r)" by (simp add: thread_ok_def)
  fix t' d
  assume d: "fmlookup (pcs s) t' = Some d" "pair_ok s d (MonBackoff r x n)" "thread_ok s d"
  have "role_of d \<noteq> Unfinished"
    using d(2) calm(2) by (auto simp: pair_ok_def supersedes_def)
  then have "role_of d = Quiet"
    using calm(1) d(1) by (auto simp: settled_def fmlookup_ran'_iff)
  then show "thread_ok (goto t (MonCheck r) s) d \<and> pair_ok (goto t (MonCheck r) s) (MonCheck r) d \<and>
      pair_ok (goto t (MonCheck r) s) d (MonCheck r)"
    using d(3) by (simp add: pair_ok_def clash_def thread_ok_def supersedes_def)
qed auto

lemma child_noticed_single:
  assumes inv: "single s" and c: "fmlookup (pcs s) t = Some (MonWait r x)" and dead: "\<not> run_flag run_alive r s"
  shows "single (goto t (MonLinger r x) (upd_run r (\<lambda>y. y\<lparr>run_exited := True\<rparr>) s))"
proof (rule single_move [OF inv c, where c' = "MonLinger r x"])
  let ?s' = "goto t (MonLinger r x) (upd_run r (\<lambda>y. y\<lparr>run_exited := True\<rparr>) s)"
  have "thread_ok s (MonWait r x)" by (rule single_thread(1) [OF inv c])
  then show "thread_ok ?s' (MonLinger r x)" by (simp add: thread_ok_def)
  fix t' d
  assume "pair_ok s (MonWait r x) d" "pair_ok s d (MonWait r x)" "thread_ok s d"
  then show "thread_ok ?s' d \<and> pair_ok ?s' (MonLinger r x) d \<and> pair_ok ?s' d (MonLinger r x)"
    by (auto simp: thread_ok_def pair_ok_def supersedes_def clash_def)
qed (use dead in auto)

lemma thread_step_single:
  assumes inv: "single s" and c: "fmlookup (pcs s) t = Some c" and calm: "calm s (Go t ch)"
    and step: "thread_step t ch c s = Some s'"
  shows "single s'"
proof (cases c)
  case (StartEnter k)
  then show ?thesis using begin_start_single [OF inv, of t k] c step by simp
next
  case (StartSet k x)
  have "thread_ok s (StartSet k x)" using single_thread(1) [OF inv c] StartSet by simp
  with StartSet step show ?thesis
    by (intro single_goto [OF inv c, where c' = "StartSpawn k x"]) (auto simp: thread_ok_def supersedes_def active_def)
next
  case (StartSpawn k x)
  show ?thesis
  proof (cases "ch = Proceed")
    case True
    then show ?thesis using spawn_run_single [OF inv, of t k x] c step StartSpawn by simp
  next
    case False
    with StartSpawn step show ?thesis
      by (intro single_goto [OF inv c, where c' = "StartFail k x"]) (auto simp: thread_ok_def supersedes_def)
  qed
next
  case (StartRecord k x r)
  then show ?thesis using record_and_go_single [OF inv, of t k x r] c step by simp
next
  case (StartFatal k)
  show ?thesis
  proof (cases k)
    case Client
    with StartFatal step show ?thesis
      by (intro single_end [OF inv c]) auto
  next
    case (RestartOf r)
    with StartFatal step show ?thesis
      by (intro single_goto [OF inv c, where c' = "RestartFatal r"]) (auto simp: thread_ok_def supersedes_def)
  qed
next
  case (MonWait r x)
  then show ?thesis using child_noticed_single [OF inv, of t r x] c step by (auto split: if_splits)
next
  case (MonBackoff r x n)
  show ?thesis
  proof (cases "ch = Timer")
    case True
    then show ?thesis using backoff_over_single [OF inv, of t r x n] c step calm MonBackoff by simp
  next
    case False
    with MonBackoff step show ?thesis
      by (intro single_end [OF inv c]) (auto split: if_splits)
  qed
next
  case (MonCount r x)
  have "thread_ok s (MonCount r x)" using single_thread(1) [OF inv c] MonCount by simp
  show ?thesis
  proof (cases "p_restartCount (the_proc s) \<ge> maxRestarts s")
    case True
    with MonCount step show ?thesis
      by (intro single_goto [OF inv c, where c' = "MonSet r StateFatal"])
        (auto simp: thread_ok_def supersedes_def count_restart_def)
  next
    case False
    with MonCount step \<open>thread_ok s (MonCount r x)\<close> show ?thesis
      by (intro single_goto [OF inv c, where c' = "MonBackoff r x (p_restartCount (the_proc s) + 1)"])
        (auto simp: thread_ok_def supersedes_def count_restart_def)
  qed
next
  case (StartFail k x)
  with step show ?thesis
    by (intro single_goto [OF inv c, where c' = "StartFatal k"]) (auto simp: thread_ok_def supersedes_def)
next
  case (RestartFatal r)
  with step show ?thesis by (intro single_end [OF inv c]) auto
next
  case (StopClose st x r sr)
  let ?s1 = "case sr of None \<Rightarrow> s | Some y \<Rightarrow> upd_run y (\<lambda>z. z\<lparr>run_stop := True\<rparr>) s"
  have s1: "the_proc ?s1 = the_proc s" "canceled ?s1 = canceled s" "pcs ?s1 = pcs s" "next_id ?s1 = next_id s"
    "\<And>y. run_flag run_alive y ?s1 = run_flag run_alive y s" by (simp_all split: option.splits)
  show ?thesis
  proof (cases "IsStopped st \<or> st = StateBackoff")
    case True
    with StopClose step have "s' = goto t (StopIdle x) ?s1" by (simp add: Let_def)
    with True StopClose show ?thesis
      by (intro single_goto [OF inv c, where c' = "StopIdle x"]) (auto simp: s1 thread_ok_def supersedes_def)
  next
    case False
    with StopClose step have "s' = goto t (StopSet x r) ?s1" by (simp add: Let_def)
    with False StopClose show ?thesis
      by (intro single_goto [OF inv c, where c' = "StopSet x r"]) (auto simp: s1 thread_ok_def supersedes_def)
  qed
next
  case (StopIdle x)
  with step show ?thesis
    by (intro single_goto [OF inv c, where c' = StopIdleSet]) (auto simp: thread_ok_def supersedes_def)
next
  case StopIdleSet
  with step show ?thesis by (intro single_end [OF inv c]) auto
next
  case (StopSet x r)
  with step show ?thesis
    by (intro single_goto [OF inv c, where c' = "StopTerm x r"]) (auto simp: thread_ok_def supersedes_def active_def)
next
  case (StopTerm x r)
  show ?thesis
  proof (cases r)
    case None
    with StopTerm step show ?thesis
      by (intro single_goto [OF inv c, where c' = "StopCancel x"]) (auto simp: thread_ok_def supersedes_def)
  next
    case (Some y)
    with StopTerm step show ?thesis
      by (intro single_goto [OF inv c, where c' = "StopWait x r"]) (auto simp: thread_ok_def supersedes_def split: if_splits)
  qed
next
  case (StopWait x r)
  with step consider "s' = goto t (StopCancel x) s" | "s' = goto t (StopKill x r) s"
    by (auto split: option.splits if_splits)
  then show ?thesis
  proof cases
    case 1
    with StopWait show ?thesis
      by (intro single_goto [OF inv c, where c' = "StopCancel x"]) (auto simp: thread_ok_def supersedes_def)
  next
    case 2
    with StopWait show ?thesis
      by (intro single_goto [OF inv c, where c' = "StopKill x r"]) (auto simp: thread_ok_def supersedes_def)
  qed
next
  case (StopKill x r)
  with step show ?thesis
    by (intro single_goto [OF inv c, where c' = "StopGrace x r"]) (auto simp: thread_ok_def supersedes_def)
next
  case (StopGrace x r)
  with step have "s' = goto t (StopCancel x) s" by (auto split: option.splits if_splits)
  with StopGrace show ?thesis
    by (intro single_goto [OF inv c, where c' = "StopCancel x"]) (auto simp: thread_ok_def supersedes_def)
next
  case (StopCancel x)
  with step show ?thesis by (intro single_end [OF inv c]) auto
next
  case (MonLinger r x)
  have "thread_ok s (MonLinger r x)" using single_thread(1) [OF inv c] MonLinger by simp
  with MonLinger step show ?thesis
    by (intro single_goto [OF inv c, where c' = "MonRecord r x"]) (auto simp: thread_ok_def supersedes_def split: if_splits)
next
  case (MonRecord r x)
  have "thread_ok s (MonRecord r x)" using single_thread(1) [OF inv c] MonRecord by simp
  moreover obtain stopped code p where "record_exit (case fmlookup (the_runs s) r of None \<Rightarrow> 0 | Some y \<Rightarrow> run_status y)
      (clock s) (the_proc s) = ((stopped, code), p)" "p_cancel p = p_cancel (the_proc s)" "p_state p = p_state (the_proc s)"
    by (auto simp: record_exit_def)
  ultimately show ?thesis using step MonRecord
    by (intro single_goto [OF inv c, where c' = "MonSwitch r x stopped code"]) (auto simp: thread_ok_def supersedes_def)
next
  case (MonSwitch r x stopped code)
  have "thread_ok s (MonSwitch r x stopped code)" using single_thread(1) [OF inv c] MonSwitch by simp
  then show ?thesis
  proof (cases "exit_target (p_state (the_proc s)) stopped")
    case (Some target)
    with MonSwitch step show ?thesis
      by (intro single_goto [OF inv c, where c' = "MonSet r target"]) (auto simp: thread_ok_def supersedes_def)
  next
    case None
    define c' where "c' = (if code = 0 then MonLatch r x code else MonExited r x code)"
    have "s' = goto t c' s" using MonSwitch step None by (simp add: c'_def)
    with MonSwitch \<open>thread_ok s (MonSwitch r x stopped code)\<close> show ?thesis
      by (intro single_goto [OF inv c, where c' = c']) (auto simp: thread_ok_def supersedes_def c'_def)
  qed
next
  case (MonSet r st)
  with step show ?thesis by (intro single_end [OF inv c]) auto
next
  case (MonLatch r x code)
  have "thread_ok s (MonLatch r x code)" using single_thread(1) [OF inv c] MonLatch by simp
  with MonLatch step show ?thesis
    by (intro single_goto [OF inv c, where c' = "MonExited r x code"])
      (auto simp: thread_ok_def supersedes_def latch_completed_def)
next
  case (MonExited r x code)
  have "thread_ok s (MonExited r x code)" using single_thread(1) [OF inv c] MonExited by simp
  show ?thesis
  proof (cases "wants_restart (policy s) code")
    case True
    with MonExited step \<open>thread_ok s (MonExited r x code)\<close> show ?thesis
      by (intro single_goto [OF inv c, where c' = "MonCount r x"]) (auto simp: thread_ok_def supersedes_def)
  next
    case False
    with MonExited step show ?thesis by (intro single_end [OF inv c]) auto
  qed
next
  case (MonCheck r)
  show ?thesis
  proof (cases "restart_canceled (the_proc s)")
    case True
    with MonCheck step show ?thesis by (intro single_end [OF inv c]) auto
  next
    case False
    with MonCheck step show ?thesis
      by (intro single_goto [OF inv c, where c' = "MonRestart r"]) (auto simp: thread_ok_def supersedes_def)
  qed
next
  case (MonRestart r)
  with step show ?thesis
    by (intro single_goto [OF inv c, where c' = "StartEnter (RestartOf r)"]) (auto simp: thread_ok_def supersedes_def)
next
  case (WaitStart r x)
  with step consider "s' = finish t s" | "s' = goto t WaitSet s" by (auto split: if_splits)
  then show ?thesis
  proof cases
    case 1
    with WaitStart show ?thesis by (intro single_end [OF inv c]) auto
  next
    case 2
    with WaitStart show ?thesis
      by (intro single_goto [OF inv c, where c' = WaitSet]) (auto simp: thread_ok_def supersedes_def)
  qed
next
  case WaitSet
  with step show ?thesis
    by (intro single_end [OF inv c]) (auto simp: compareAndSetState_def active_def)
qed

lemma settled_idle:
  assumes inv: "single s" and "settled s" and "\<not> active (p_state (the_proc s))" and "fmlookup (pcs s) t = Some d"
  shows "role_of d = Quiet"
proof -
  have "role_of d = Unfinished \<or> role_of d = Quiet"
    using assms(2,4) by (auto simp: settled_def fmlookup_ran'_iff)
  moreover have "role_of d = Unfinished \<Longrightarrow> needs_active d" by (cases d) (auto split: if_splits)
  ultimately show ?thesis
    using single_thread(1) [OF inv assms(4)] assms(3) by (auto simp: thread_ok_def)
qed

lemma call_start_single:
  assumes inv: "single s" and calm: "settled s" "p_state (the_proc s) = StateStopped"
  shows "single (begin_start Client (next_id s) (s\<lparr>next_id := next_id s + 1\<rparr>))"
proof -
  let ?s' = "begin_start Client (next_id s) (s\<lparr>next_id := next_id s + 1\<rparr>)"
  have s': "?s' = goto (next_id s) (StartSet Client (next_id s + 1)) (cancel_ctx (p_cancel (the_proc s))
      (s\<lparr>the_proc := (the_proc s)\<lparr>p_completed := False, p_cancel := Some (next_id s + 1)\<rparr>, next_id := next_id s + 1 + 1\<rparr>))"
    using calm(2) by (subst begin_start_Some) simp_all
  show ?thesis
  proof (rule single_new [OF inv, where c' = "StartSet Client (next_id s + 1)"])
    show "thread_ok ?s' (StartSet Client (next_id s + 1))" unfolding s' by (simp add: thread_ok_def)
    fix t' d
    assume d: "fmlookup (pcs s) t' = Some d" "thread_ok s d"
    have "\<not> active (p_state (the_proc s))" using calm(2) by (simp add: active_def)
    from quiet_after_cancel [OF d(2) settled_idle [OF inv calm(1) this d(1)]]
    show "thread_ok ?s' d \<and> pair_ok ?s' (StartSet Client (next_id s + 1)) d \<and> pair_ok ?s' d (StartSet Client (next_id s + 1))"
      unfolding s' by simp
  qed (unfold s', auto)
qed

lemma call_stop_single:
  assumes inv: "single s" and calm: "settled s"
  shows "single (begin_stop (next_id s) (s\<lparr>next_id := next_id s + 1\<rparr>))"
proof -
  let ?p = "the_proc s"
  let ?c' = "StopClose (p_state ?p) (p_cancel ?p) (p_run ?p) (p_stopRequested ?p)"
  let ?s' = "begin_stop (next_id s) (s\<lparr>next_id := next_id s + 1\<rparr>)"
  have s': "?s' = goto (next_id s) ?c' (s\<lparr>next_id := next_id s + 1, the_proc := ?p\<lparr>p_stoppedExternally := True, p_stopRequested := None\<rparr>\<rparr>)"
    by (simp add: begin_stop_def stop_enter_def)
  show ?thesis
  proof (rule single_new [OF inv, where c' = ?c'])
    show "thread_ok ?s' ?c'" unfolding s' by (simp add: thread_ok_def)
    fix t' d
    assume d: "fmlookup (pcs s) t' = Some d" "thread_ok s d"
    have "role_of d = Unfinished \<or> role_of d = Quiet"
      using calm d(1) by (auto simp: settled_def fmlookup_ran'_iff)
    moreover have "role_of ?c' = IdleStop \<Longrightarrow> \<not> active (p_state ?p)"
      by (auto simp: active_def IsStopped_def split: if_splits)
    then have "role_of ?c' = IdleStop \<Longrightarrow> role_of d = Quiet"
      using settled_idle [OF inv calm _ d(1)] by blast
    moreover have "role_of ?c' = IdleStop \<or> role_of ?c' = BusyStop" by simp
    ultimately have "\<not> clash (role_of ?c') (role_of d)" by (auto simp: clash_def)
    moreover have "thread_ok ?s' d" using d(2) unfolding s' by (simp add: thread_ok_def)
    moreover have "\<not> supersedes ?c'" by (simp add: supersedes_def)
    ultimately show "thread_ok ?s' d \<and> pair_ok ?s' ?c' d \<and> pair_ok ?s' d ?c'"
      using clash_sym [of "role_of ?c'"] unfolding pair_ok_def by blast
  qed (unfold s', auto)
qed

lemma calm_step_single: "single s \<Longrightarrow> calm_step s l s' \<Longrightarrow> single s'"
proof -
  assume inv: "single s" and step: "calm_step s l s'"
  then have calm: "calm s l" and run: "exec l s = Some s'" by (simp_all add: calm_step_def process_step_def)
  show "single s'"
  proof (cases l)
    case CallStart
    then show ?thesis using call_start_single [OF inv] calm run by simp
  next
    case CallStop
    then show ?thesis using call_stop_single [OF inv] calm run by simp
  next
    case (Go t ch)
    then obtain c where "fmlookup (pcs s) t = Some c" "thread_step t ch c s = Some s'"
      using run by (auto split: option.splits)
    then show ?thesis using thread_step_single [OF inv] calm Go by simp
  next
    case (ChildExits r status)
    then have s': "s' = upd_run r (\<lambda>x. x\<lparr>run_alive := False, run_status := status\<rparr>) s"
      using run by (simp split: if_splits)
    have "run_flag run_alive x s" if "run_flag run_alive x s'" for x
      using that unfolding s' by (auto simp: run_flag_def upd_run_def split: option.splits if_splits)
    then show ?thesis using inv unfolding single_def by (simp add: s' thread_ok_def pair_ok_def)
  next
    case (Tick d)
    then have s': "s' = s\<lparr>clock := clock s + int d\<rparr>"
      using run by simp
    show ?thesis using inv unfolding single_def s' by (simp add: thread_ok_def pair_ok_def)
  qed
qed

lemma new_psys_single: "single (new_psys pol m)"
  by (simp add: single_def new_psys_def run_flag_def)

interpretation calm_process: inductive_invariant "\<lambda>s. s = new_psys pol m" calm_step single for pol m
  by unfold_locales (auto simp: new_psys_single calm_step_single)

end
