(* ===== verification/Supervision.thy ===== *)
theory Supervision
  imports OneChild
begin

text \<open>
  The properties of one supervised program: what holds under every interleaving of calls, monitors and
  exits, what the critical sections amount to when nothing interferes, and what goes wrong in the
  window between the last check of a restart and the restart.
\<close>

abbreviation process_reachable :: "RestartPolicy \<Rightarrow> int \<Rightarrow> psys \<Rightarrow> bool" where
  "process_reachable pol m \<equiv> reachable (\<lambda>s. s = new_psys pol m) process_step"

abbreviation calm_reachable :: "RestartPolicy \<Rightarrow> int \<Rightarrow> psys \<Rightarrow> bool" where
  "calm_reachable pol m \<equiv> reachable (\<lambda>s. s = new_psys pol m) calm_step"

lemma exec_reachable: "exec_all ls s = Some s' \<Longrightarrow> process_reachable pol m s \<Longrightarrow> process_reachable pol m s'"
proof (induction ls arbitrary: s)
  case (Cons l ls)
  then obtain s1 where "exec l s = Some s1" "exec_all ls s1 = Some s'" by (auto split: option.splits)
  with Cons show ?case by (auto intro: reachable_step simp: process_step_def)
qed simp

text \<open>A sequence of labels, refused where a label is not calm.\<close>

fun exec_calm :: "label list \<Rightarrow> psys \<Rightarrow> psys option" where
  "exec_calm [] s = Some s"
| "exec_calm (l # ls) s =
     (if calm s l then (case exec l s of None \<Rightarrow> None | Some s' \<Rightarrow> exec_calm ls s') else None)"

lemma calm_reachable_exec: "exec_calm ls s = Some s' \<Longrightarrow> calm_reachable pol m s \<Longrightarrow> calm_reachable pol m s'"
proof (induction ls arbitrary: s)
  case (Cons l ls)
  then obtain s1 where "calm s l" "exec l s = Some s1" "exec_calm ls s1 = Some s'"
    by (auto split: option.splits if_splits)
  with Cons show ?case by (auto intro: reachable_step simp: process_step_def calm_step_def)
qed simp

section \<open>A sample life\<close>

text \<open>A start that succeeds, a crash, and the wait for the restart.\<close>

definition failed_status :: WaitStatus where
  "failed_status = exited_status 1"

definition up_labels :: "label list" where
  "up_labels = [CallStart, Go 0 Proceed, Go 0 Proceed, Go 0 Proceed, Go 4 Timer, Go 4 Proceed]"

definition crash_labels :: "label list" where
  "crash_labels = [ChildExits 2 failed_status, Go 3 Proceed, Go 3 Refuse, Go 3 Proceed, Go 3 Proceed, Go 3 Proceed, Go 3 Proceed]"

definition sample_up :: psys where
  "sample_up = the (exec_calm up_labels (new_psys RestartAlways 3))"

definition sample_waiting :: psys where
  "sample_waiting = the (exec_calm (up_labels @ crash_labels) (new_psys RestartAlways 3))"

lemma calm_sample:
  assumes "exec_calm ls (new_psys pol m) \<noteq> None"
  shows "calm_reachable pol m (the (exec_calm ls (new_psys pol m)))"
proof -
  have "calm_reachable pol m (new_psys pol m)" by (rule reachable_initial) simp
  with assms calm_reachable_exec [of ls "new_psys pol m" _ pol m] show ?thesis by auto
qed

lemma sample_up_reachable: "calm_reachable RestartAlways 3 sample_up"
  unfolding sample_up_def by (rule calm_sample) code_simp

lemma sample_waiting_reachable: "calm_reachable RestartAlways 3 sample_waiting"
  unfolding sample_waiting_def by (rule calm_sample) code_simp

lemma calm_is_reachable: "calm_reachable pol m s \<Longrightarrow> process_reachable pol m s"
  by (induction rule: reachable.induct) (auto intro: reachable_initial reachable_step simp: calm_step_def)

section \<open>Bounds\<close>

text \<open>
  However calls, exits and restarts interleave, the restart counter stays between 0 and
  \<open>max_restarts\<close>, every restart that is waited for has a number from 1 to \<open>max_restarts\<close>, and the program
  is never in state UNKNOWN.
\<close>

theorem restart_count_bounded:
  assumes "0 \<le> m" and "process_reachable pol m s"
  shows "0 \<le> p_restartCount (the_proc s) \<and> p_restartCount (the_proc s) \<le> m \<and>
    p_state (the_proc s) \<noteq> StateUnknown \<and>
    (\<forall>t r c n. fmlookup (pcs s) t = Some (MonBackoff r c n) \<longrightarrow> 1 \<le> n \<and> n \<le> m)"
proof -
  have "reachable (\<lambda>s. 0 \<le> m \<and> s = new_psys pol m) process_step s"
    using assms by (blast intro: reachable_mono)
  then have inv: "counted pol m s" by (rule restart_bound.inv_reachable)
  have "1 \<le> n \<and> n \<le> m" if "fmlookup (pcs s) t = Some (MonBackoff r c n)" for t r c n
    using inv that unfolding counted_def by (metis pc_counted.simps(1))
  with inv show ?thesis by (auto simp: counted_def)
qed

theorem restart_count_bounded_witness: "p_restartCount (the_proc sample_waiting) \<le> 3"
  using restart_count_bounded [OF _ calm_is_reachable [OF sample_waiting_reachable]] by simp

lemma backoff_capped: "6 \<le> n \<Longrightarrow> backoffDuration n = 30 * second"
proof -
  assume n: "6 \<le> n"
  have "backoffDuration n = min (2 ^ nat 5 * second) (30 * second)"
  proof (cases "n = 6")
    case False
    with n show ?thesis by (simp add: backoffDuration_def maxBackoffSeconds_def maxBackoffShift_def)
  qed (simp add: backoffDuration_def maxBackoffSeconds_def maxBackoffShift_def)
  then show ?thesis by (simp add: second_def)
qed

lemma backoff_doubles: "n \<le> 5 \<Longrightarrow> backoffDuration n = 2 ^ nat (n - 1) * second"
proof -
  assume "n \<le> 5"
  then consider "n \<le> 1" | "n = 2" | "n = 3" | "n = 4" | "n = 5" by linarith
  then show ?thesis
    by cases (simp_all add: backoffDuration_def maxBackoffSeconds_def maxBackoffShift_def second_def Let_def)
qed

text \<open>
  The delay before restart attempt \<open>n\<close> is 1, 2, 4, 8, 16 seconds for the first five attempts and 30
  seconds from then on: it is positive, never longer than the cap and never shrinks.
\<close>

theorem backoffDuration_schedule:
  assumes "n \<le> k"
  shows "backoffDuration n = (if n \<le> 5 then 2 ^ nat (n - 1) * second else 30 * second) \<and>
    second \<le> backoffDuration n \<and> backoffDuration n \<le> backoffDuration k \<and> backoffDuration k \<le> 30 * second"
proof -
  have eq: "backoffDuration i = (if i \<le> 5 then 2 ^ nat (i - 1) * second else 30 * second)" for i
    using backoff_capped [of i] backoff_doubles [of i] by auto
  have low: "second \<le> backoffDuration i" and high: "backoffDuration i \<le> 30 * second" for i
    by (simp_all add: backoffDuration_def maxBackoffSeconds_def second_def Let_def)
  have "backoffDuration n \<le> backoffDuration k"
  proof (cases "k \<le> 5")
    case True
    with assms have "nat (n - 1) \<le> nat (k - 1)" by simp
    then have "(2 :: int) ^ nat (n - 1) \<le> 2 ^ nat (k - 1)" by (rule power_increasing) simp
    with True assms show ?thesis by (simp add: eq second_def)
  next
    case False
    then have "backoffDuration k = 30 * second" using backoff_capped [of k] by simp
    with high show ?thesis by simp
  qed
  with eq [of n] low high show ?thesis by blast
qed

theorem backoffDuration_schedule_witness: "backoffDuration 3 = 4 * second \<and> backoffDuration 3 \<le> backoffDuration 7"
  using backoffDuration_schedule [of 3 7] by simp

section \<open>One child\<close>

lemma runs_child_active: "runs_child r c \<Longrightarrow> needs_active c"
  by (cases c) auto

lemma runs_child_clash:
  "runs_child r c \<Longrightarrow> runs_child r' d \<Longrightarrow> clash (role_of c) (role_of d)"
  by (cases c; cases d) (auto simp: clash_def)

lemma runs_child_unique: "runs_child r c \<Longrightarrow> runs_child r' c \<Longrightarrow> r = r'"
  by (cases c) auto

text \<open>
  As long as calls are made one at a time and a backoff does not run out in the middle of a call,
  a program never has two live children, and while it has one its state is STARTING, RUNNING or
  STOPPING, so that every stop reaches it.
\<close>

theorem one_child:
  assumes "calm_reachable pol m s" and "run_flag run_alive r s"
  shows "(run_flag run_alive r' s \<longrightarrow> r' = r) \<and> p_state (the_proc s) \<in> {StateStarting, StateRunning, StateStopping}"
proof -
  have inv: "single s" using calm_process.inv_reachable [OF assms(1)] .
  have runner: "\<exists>t c. fmlookup (pcs s) t = Some c \<and> runs_child x c" if "run_flag run_alive x s" for x
    using inv that unfolding single_def by blast
  obtain t c where c: "fmlookup (pcs s) t = Some c" "runs_child r c" using runner [OF assms(2)] by blast
  then have "active (p_state (the_proc s))"
    using single_thread(1) [OF inv c(1)] runs_child_active by (simp add: thread_ok_def)
  moreover have "r' = r" if alive: "run_flag run_alive r' s"
  proof -
    obtain t' d where d: "fmlookup (pcs s) t' = Some d" "runs_child r' d" using runner [OF alive] by blast
    have "t' = t"
    proof (rule ccontr)
      assume "t' \<noteq> t"
      from single_thread(3) [OF inv c(1) this d(1)] runs_child_clash [OF c(2) d(2)] show False
        by (simp add: pair_ok_def)
    qed
    with c d runs_child_unique show ?thesis by auto
  qed
  ultimately show ?thesis by (auto simp: active_def)
qed

theorem one_child_witness: "p_state (the_proc sample_up) \<in> {StateStarting, StateRunning, StateStopping}"
proof -
  have "run_flag run_alive 2 sample_up" by code_simp
  from one_child [OF sample_up_reachable this] show ?thesis by blast
qed

section \<open>The window of a restart\<close>

text \<open>
  After the backoff the monitor checks under the lock that the restart is still wanted, releases the
  lock, and only then sets BACKOFF and starts the program. A call that comes in between is undone.
\<close>

definition to_window :: "label list" where
  "to_window = up_labels @ crash_labels @ [Tick 1, Go 3 Timer, Go 3 Proceed]"

definition stop_in_window :: "label list" where
  "stop_in_window = [CallStop, Go 5 Proceed, Go 5 Proceed, Go 5 Proceed]"

definition stop_start_in_window :: "label list" where
  "stop_start_in_window = stop_in_window @ [CallStart, Go 6 Proceed, Go 6 Proceed, Go 6 Proceed]"

definition window_closes :: "label list" where
  "window_closes = [Go 3 Proceed, Go 3 Proceed, Go 3 Proceed, Go 3 Proceed, Go 3 Proceed]"

definition after_stop :: psys where
  "after_stop = the (exec_all (to_window @ stop_in_window) (new_psys RestartAlways 3))"

definition undone_stop :: psys where
  "undone_stop = the (exec_all (to_window @ stop_in_window @ window_closes) (new_psys RestartAlways 3))"

definition two_children :: psys where
  "two_children = the (exec_all (to_window @ stop_start_in_window @ window_closes) (new_psys RestartAlways 3))"

lemma window_runs:
  "exec_all (to_window @ stop_in_window) (new_psys RestartAlways 3) \<noteq> None"
  "exec_all (to_window @ stop_in_window @ window_closes) (new_psys RestartAlways 3) \<noteq> None"
  "exec_all (to_window @ stop_start_in_window @ window_closes) (new_psys RestartAlways 3) \<noteq> None"
  by code_simp+

lemma process_sample:
  assumes "exec_all ls (new_psys pol m) \<noteq> None"
  shows "process_reachable pol m (the (exec_all ls (new_psys pol m)))"
proof -
  have "process_reachable pol m (new_psys pol m)" by (rule reachable_initial) simp
  with assms exec_reachable [of ls "new_psys pol m" _ pol m] show ?thesis by auto
qed

text \<open>
  A stop that falls into the window of a restart is lost: there is a run in which \<open>Stop\<close> returns with
  the program STOPPED and no child, and the pending restart then starts it again without anybody having
  asked for it, clearing the record of the stop.
\<close>

theorem stop_undone_by_restart:
  "process_reachable RestartAlways 3 after_stop \<and> p_state (the_proc after_stop) = StateStopped \<and>
   p_stoppedExternally (the_proc after_stop) \<and> fmlookup (pcs after_stop) 5 = None \<and>
   exec_all window_closes after_stop = Some undone_stop \<and>
   p_state (the_proc undone_stop) = StateStarting \<and> \<not> p_stoppedExternally (the_proc undone_stop) \<and>
   run_flag run_alive 7 undone_stop"
proof (intro conjI)
  show "process_reachable RestartAlways 3 after_stop"
    unfolding after_stop_def by (rule process_sample) (rule window_runs)
qed code_simp+

text \<open>
  A stop and a start that fall into the window leave the program with two live children, of which
  the record knows only the second: the promise of one child needs the calm that the window breaks.
\<close>

theorem restart_window_two_children:
  "process_reachable RestartAlways 3 two_children \<and>
   run_flag run_alive 8 two_children \<and> run_flag run_alive 12 two_children \<and> p_run (the_proc two_children) = Some 12"
proof (intro conjI)
  show "process_reachable RestartAlways 3 two_children"
    unfolding two_children_def by (rule process_sample) (rule window_runs)
qed code_simp+

section \<open>What RUNNING and completed mean\<close>

text \<open>
  What the monitor threads know of their run: it has ended, and the code they carry is the one it ended
  with; a thread that latches \<open>completed\<close> carries code 0 and was not stopped.
\<close>

definition ended_with :: "psys \<Rightarrow> nat \<Rightarrow> int \<Rightarrow> bool" where
  "ended_with s r code \<longleftrightarrow> (case fmlookup (the_runs s) r of None \<Rightarrow> False
     | Some x \<Rightarrow> \<not> run_alive x \<and> exitCodeOfStatus (run_status x) = code)"

fun knows_exit :: "psys \<Rightarrow> pc \<Rightarrow> bool" where
  "knows_exit s (MonWait r c) = (fmlookup (the_runs s) r \<noteq> None)"
| "knows_exit s (StartRecord k c r) = (fmlookup (the_runs s) r \<noteq> None)"
| "knows_exit s (MonLinger r c) = (\<exists>code. ended_with s r code)"
| "knows_exit s (MonRecord r c) = (\<exists>code. ended_with s r code)"
| "knows_exit s (MonSwitch r c stopped code) = ended_with s r code"
| "knows_exit s (MonLatch r c code) = (code = 0 \<and> ended_with s r code)"
| "knows_exit s (MonExited r c code) = ended_with s r code"
| "knows_exit s (MonSet r st) = IsStopped st"
| "knows_exit s _ = True"

definition honest :: "psys \<Rightarrow> bool" where
  "honest s \<longleftrightarrow> (\<forall>r \<in> fmdom' (the_runs s). r < next_id s) \<and>
     (\<forall>t c. fmlookup (pcs s) t = Some c \<longrightarrow> knows_exit s c)"

lemma ended_with_upd [simp]:
  "(\<And>y. run_alive (g y) = run_alive y) \<Longrightarrow> (\<And>y. run_status (g y) = run_status y) \<Longrightarrow>
     ended_with (upd_run x g s) r code = ended_with s r code"
  by (auto simp: ended_with_def upd_run_def split: option.splits)

lemma ended_with_same [simp]:
  "ended_with (send_signal y k s) r code = ended_with s r code"
  "ended_with (goto t c s) r code = ended_with s r code" "ended_with (finish t s) r code = ended_with s r code"
  "ended_with (cancel_ctx x s) r code = ended_with s r code" "ended_with (set_state st s) r code = ended_with s r code"
  "ended_with (s\<lparr>the_proc := p\<rparr>) r code = ended_with s r code" "ended_with (s\<lparr>next_id := n\<rparr>) r code = ended_with s r code"
  "ended_with (s\<lparr>clock := i\<rparr>) r code = ended_with s r code"
  by (simp_all add: ended_with_def send_signal_def split: option.splits)

lemma runs_dom_upd [simp]: "fmdom' (the_runs (upd_run x g s)) = fmdom' (the_runs s)"
  by (auto simp: upd_run_def fmdom'_notI split: option.splits) (meson fmdom'I)

lemma runs_None_upd [simp]: "fmlookup (the_runs (upd_run x g s)) r = None \<longleftrightarrow> fmlookup (the_runs s) r = None"
  by (auto simp: upd_run_def split: option.splits)

text \<open>Threads stay honest when the runs they know of are as they were.\<close>

lemma honest_move:
  assumes inv: "honest s"
    and runs: "fmdom' (the_runs s) \<subseteq> fmdom' (the_runs s')" "\<And>r. r \<in> fmdom' (the_runs s') \<Longrightarrow> r < next_id s'"
      "\<And>r code. ended_with s r code \<Longrightarrow> ended_with s' r code"
    and others: "\<And>t d. fmlookup (pcs s') t = Some d \<Longrightarrow> fmlookup (pcs s) t = Some d \<or> knows_exit s' d"
  shows "honest s'"
proof -
  have "knows_exit s' d" if "knows_exit s d" for d
  proof -
    have dom: "fmlookup (the_runs s') r \<noteq> None" if "fmlookup (the_runs s) r \<noteq> None" for r
      using runs(1) that by (metis fmdom'_notI fmdom'_notD in_mono)
    show ?thesis using that runs(3) dom by (cases d) (auto 0 3, blast+)
  qed
  with inv others runs(2) show ?thesis unfolding honest_def by blast
qed

lemma honest_look: "honest s \<Longrightarrow> fmlookup (pcs s) t = Some c \<Longrightarrow> knows_exit s c"
  unfolding honest_def by blast

lemma honest_fresh: "honest s \<Longrightarrow> fmlookup (the_runs s) (next_id s) = None"
  unfolding honest_def by (metis fmdom'_notD less_irrefl)

lemma spawn_ended: "honest s \<Longrightarrow> ended_with s r code \<Longrightarrow> ended_with (spawn_run k t c s) r code"
  using honest_fresh [of s] by (auto simp: ended_with_def spawn_run_def)

lemma honest_bound: "honest s \<Longrightarrow> r \<in> fmdom' (the_runs s) \<Longrightarrow> r < next_id s"
  unfolding honest_def by blast

lemma mon_wait_ends:
  "fmlookup (the_runs s) r \<noteq> None \<Longrightarrow> \<not> run_flag run_alive r s \<Longrightarrow> \<exists>code. ended_with s r code"
  by (auto simp: ended_with_def run_flag_def)

lemma record_exit_code:
  "record_exit status i p = ((stopped, code), p') \<Longrightarrow> code = exitCodeOfStatus status"
  by (simp add: record_exit_def)

lemma ended_status:
  "fmlookup (the_runs s) r = None \<Longrightarrow> \<not> ended_with s r code"
  "fmlookup (the_runs s) r = Some x \<Longrightarrow> ended_with s r code \<longleftrightarrow> \<not> run_alive x \<and> exitCodeOfStatus (run_status x) = code"
  by (auto simp: ended_with_def)

lemma exit_target_stopped: "exit_target st stopped = Some target \<Longrightarrow> IsStopped target"
  by (auto simp: exit_target_def IsStopped_def split: if_splits)

lemma runs_start [simp]:
  "fmdom' (the_runs (start_ok k t s)) = fmdom' (the_runs s)" "fmdom' (the_runs (monitor_done t r s)) = fmdom' (the_runs s)"
  "fmdom' (the_runs (start_failed k t s)) = fmdom' (the_runs s)"
  "ended_with (start_ok k t s) x code = ended_with s x code" "ended_with (monitor_done t r s) x code = ended_with s x code"
  "ended_with (start_failed k t s) x code = ended_with s x code"
  "fmlookup (the_runs (start_ok k t s)) x = None \<longleftrightarrow> fmlookup (the_runs s) x = None"
  by (simp_all add: start_ok_def start_failed_def monitor_done_def split: caller.splits)

lemma thread_step_honest:
  assumes inv: "honest s" and c: "fmlookup (pcs s) t = Some c" and step: "thread_step t ch c s = Some s'"
  shows "honest s'"
proof -
  have k: "knows_exit s c" by (rule honest_look [OF inv c])
  note bound = honest_bound [OF inv]
  show ?thesis
  proof (rule honest_move [OF inv])
    show "fmdom' (the_runs s) \<subseteq> fmdom' (the_runs s')" using step
      by (cases c) (auto simp: begin_start_def spawn_run_def record_and_go_def Let_def split: option.splits prod.splits if_splits)
    show "r < next_id s'" if "r \<in> fmdom' (the_runs s')" for r using that step
      by (cases c) (auto simp: begin_start_def spawn_run_def record_and_go_def Let_def less_SucI dest!: bound
        split: option.splits prod.splits if_splits)
    show "ended_with s' r code" if "ended_with s r code" for r code using that step
      by (cases c) (auto simp: begin_start_def record_and_go_def Let_def spawn_ended [OF inv]
        split: option.splits prod.splits if_splits)
    show "fmlookup (pcs s) t' = Some d \<or> knows_exit s' d" if "fmlookup (pcs s') t' = Some d" for t' d
      using that step k
      by (cases c) (auto simp: begin_start_def spawn_run_def record_and_go_def Let_def mon_wait_ends ended_status exit_target_stopped IsStopped_def [of StateFatal]
        split: option.splits prod.splits if_splits caller.splits dest!: record_exit_code)
  qed
qed

lemma exec_honest: "honest s \<Longrightarrow> exec l s = Some s' \<Longrightarrow> honest s'"
proof -
  assume inv: "honest s" and run: "exec l s = Some s'"
  show "honest s'"
  proof (cases l)
    case CallStart
    with run show ?thesis
      by (intro honest_move [OF inv])
        (auto simp: begin_start_def less_Suc_eq dest: honest_bound [OF inv] split: option.splits prod.splits if_splits)
  next
    case CallStop
    with run show ?thesis
      by (intro honest_move [OF inv])
        (auto simp: begin_stop_def less_Suc_eq dest: honest_bound [OF inv] split: prod.splits if_splits)
  next
    case (Go t ch)
    with run show ?thesis by (auto split: option.splits intro: thread_step_honest [OF inv])
  next
    case (ChildExits r status)
    then have s': "s' = upd_run r (\<lambda>x. x\<lparr>run_alive := False, run_status := status\<rparr>) s" and alive: "run_flag run_alive r s"
      using run by (simp_all split: if_splits)
    have "ended_with s' x code" if "ended_with s x code" for x code
      using that alive unfolding s' by (auto simp: ended_with_def run_flag_def upd_run_def split: option.splits)
    then show ?thesis unfolding s'
      by (intro honest_move [OF inv]) (auto dest: honest_bound [OF inv])
  next
    case (Tick d)
    with run show ?thesis by (intro honest_move [OF inv]) (auto dest: honest_bound [OF inv])
  qed
qed

lemma new_psys_honest: "honest (new_psys pol m)"
  by (simp add: honest_def new_psys_def)

interpretation honest_monitor: inductive_invariant "\<lambda>s. s = new_psys pol m" process_step honest for pol m
  by unfold_locales (auto simp: process_step_def exec_honest new_psys_honest)

lemma running_from_starting:
  assumes "honest s" and "exec l s = Some s'"
    and "p_state (the_proc s') = StateRunning" and "p_state (the_proc s) \<noteq> StateRunning"
  shows "p_state (the_proc s) = StateStarting \<and> (\<exists>t ch. l = Go t ch \<and> fmlookup (pcs s) t = Some WaitSet)"
proof (cases l)
  case (Go t ch)
  then obtain c where c: "fmlookup (pcs s) t = Some c" "thread_step t ch c s = Some s'"
    using assms(2) by (auto split: option.splits)
  have "knows_exit s c" by (rule honest_look [OF assms(1) c(1)])
  with c assms(3,4) Go show ?thesis
    by (cases c) (auto simp: block_defs IsStopped_def split: if_splits option.splits caller.splits)
qed (use assms in \<open>auto simp: block_defs split: if_splits option.splits\<close>)

lemma completed_from_latch:
  assumes "honest s" and "exec l s = Some s'" and "p_completed (the_proc s')" and "\<not> p_completed (the_proc s)"
  shows "\<exists>t ch r c. l = Go t ch \<and> fmlookup (pcs s) t = Some (MonLatch r c 0) \<and> ended_with s r 0"
proof (cases l)
  case (Go t ch)
  then obtain c where c: "fmlookup (pcs s) t = Some c" "thread_step t ch c s = Some s'"
    using assms(2) by (auto split: option.splits)
  have "knows_exit s c" by (rule honest_look [OF assms(1) c(1)])
  with c assms(3,4) Go show ?thesis
    by (cases c) (auto simp: block_defs split: if_splits option.splits caller.splits)
qed (use assms in \<open>auto simp: block_defs split: if_splits option.splits\<close>)

text \<open>
  C32. Under every interleaving, the program is reported RUNNING only by the start check, and only from
  STARTING, never over a state that a monitor or a stop has set in the meantime; and it is
  reported to have completed only after a run of it has really ended with exit code 0.
\<close>

theorem running_and_completed_earned:
  assumes "process_reachable pol m s" and "exec l s = Some s'"
  shows "(p_state (the_proc s') = StateRunning \<longrightarrow> p_state (the_proc s) = StateRunning \<or>
      p_state (the_proc s) = StateStarting \<and> (\<exists>t ch. l = Go t ch \<and> fmlookup (pcs s) t = Some WaitSet)) \<and>
    (p_completed (the_proc s') \<longrightarrow> p_completed (the_proc s) \<or>
      (\<exists>t ch r c. l = Go t ch \<and> fmlookup (pcs s) t = Some (MonLatch r c 0) \<and> ended_with s r 0))"
proof -
  have "honest s" using honest_monitor.inv_reachable [OF assms(1)] .
  from running_from_starting [OF this assms(2)] completed_from_latch [OF this assms(2)] show ?thesis by blast
qed

theorem running_and_completed_earned_witness:
  "\<exists>s'. exec (Go 4 Proceed) (the (exec_all (butlast up_labels) (new_psys RestartAlways 3))) = Some s' \<and>
     p_state (the_proc s') = StateRunning"
proof -
  let ?s = "the (exec_all (butlast up_labels) (new_psys RestartAlways 3))"
  have reach: "process_reachable RestartAlways 3 ?s"
    by (rule process_sample) code_simp
  have "exec (Go 4 Proceed) ?s = Some sample_up" "p_state (the_proc sample_up) = StateRunning"
    "p_state (the_proc ?s) = StateStarting" by code_simp+
  with running_and_completed_earned [OF reach this(1)] show ?thesis by simp
qed

section \<open>A stop always returns\<close>

lemma run_flag_goto_set [simp]: "run_flag f r (goto t c (set_state st s)) = run_flag f r s"
  by simp


definition sample_stopping :: psys where
  "sample_stopping = the (exec_all (up_labels @ [CallStop, Go 5 Proceed]) (new_psys RestartAlways 3))"


section \<open>What an exit leads to when nothing interferes\<close>

text \<open>
  The whole of \<open>monitor\<close> and \<open>maybeRestart\<close>, from the recording of the exit to its end or to the backoff, as one
  function of what was recorded; \<open>None\<close> as the last component means that the monitor is through.
\<close>

definition verdict :: "RestartPolicy \<Rightarrow> int \<Rightarrow> int \<Rightarrow> WaitStatus \<Rightarrow> proc \<Rightarrow> State \<times> bool \<times> int \<times> int option" where
  "verdict pol m now status p =
     (let code = exitCodeOfStatus status;
          count = (if now - p_startTime p \<ge> healthyUptime then 0 else p_restartCount p)
      in if p_stoppedExternally p then (StateStopped, p_completed p, count, None)
         else if p_state p = StateStopping then (StateExited, p_completed p, count, None)
         else if \<not> wants_restart pol code then (StateExited, p_completed p \<or> code = 0, count, None)
         else if m \<le> count then (StateFatal, p_completed p \<or> code = 0, count, None)
         else (StateExited, p_completed p \<or> code = 0, count + 1, Some (count + 1)))"

definition outcome :: "nat \<Rightarrow> psys \<Rightarrow> State \<times> bool \<times> int \<times> pc option" where
  "outcome t s = (p_state (the_proc s), p_completed (the_proc s), p_restartCount (the_proc s), fmlookup (pcs s) t)"

definition alone :: "nat \<Rightarrow> nat \<Rightarrow> psys \<Rightarrow> psys option" where
  "alone n t s = exec_all (replicate n (Go t Proceed)) s"

lemma alone_0: "alone 0 t s = Some s"
  by (simp add: alone_def)

lemma alone_Suc:
  "fmlookup (pcs s) t = Some c \<Longrightarrow> thread_step t Proceed c s = Some s' \<Longrightarrow> alone (Suc n) t s = alone n t s'"
  by (simp add: alone_def)

text \<open>From the switch on.\<close>

lemma switch_outcome:
  assumes "fmlookup (pcs s) t = Some (MonSwitch r c stopped code)"
    and "exit_target (p_state (the_proc s)) stopped = Some target"
  shows "\<exists>s'. alone 2 t s = Some s' \<and> outcome t s' = (target, p_completed (the_proc s), p_restartCount (the_proc s), None) \<and>
    p_exitCode (the_proc s') = p_exitCode (the_proc s)"
  using assms by (simp add: numeral_2_eq_2 alone_Suc alone_0 outcome_def)

lemma count_outcome:
  assumes "fmlookup (pcs s) t = Some (MonCount r c)" and "p_state (the_proc s) = StateExited"
  shows "\<exists>n s'. n \<le> 2 \<and> alone n t s = Some s' \<and> outcome t s' =
      (if maxRestarts s \<le> p_restartCount (the_proc s)
       then (StateFatal, p_completed (the_proc s), p_restartCount (the_proc s), None)
       else (StateExited, p_completed (the_proc s), p_restartCount (the_proc s) + 1,
         Some (MonBackoff r c (p_restartCount (the_proc s) + 1)))) \<and>
    p_exitCode (the_proc s') = p_exitCode (the_proc s)"
proof (cases "maxRestarts s \<le> p_restartCount (the_proc s)")
  case True
  then show ?thesis using assms
    by (intro exI [of _ "2 :: nat"]) (simp add: numeral_2_eq_2 alone_Suc alone_0 outcome_def count_restart_def)
next
  case False
  then show ?thesis using assms
    by (intro exI [of _ "1 :: nat"]) (simp add: alone_Suc alone_0 outcome_def count_restart_def)
qed

lemma exited_outcome:
  assumes "fmlookup (pcs s) t = Some (MonExited r c code)"
  shows "\<exists>n s'. n \<le> 3 \<and> alone n t s = Some s' \<and> outcome t s' =
      (if \<not> wants_restart (policy s) code
       then (StateExited, p_completed (the_proc s), p_restartCount (the_proc s), None)
       else if maxRestarts s \<le> p_restartCount (the_proc s)
       then (StateFatal, p_completed (the_proc s), p_restartCount (the_proc s), None)
       else (StateExited, p_completed (the_proc s), p_restartCount (the_proc s) + 1,
         Some (MonBackoff r c (p_restartCount (the_proc s) + 1)))) \<and>
    p_exitCode (the_proc s') = p_exitCode (the_proc s)"
proof (cases "wants_restart (policy s) code")
  case True
  let ?s1 = "goto t (MonCount r c) (set_state StateExited s)"
  obtain n s' where n: "n \<le> 2" "alone n t ?s1 = Some s'" and
    o: "outcome t s' = (if maxRestarts ?s1 \<le> p_restartCount (the_proc ?s1)
       then (StateFatal, p_completed (the_proc ?s1), p_restartCount (the_proc ?s1), None)
       else (StateExited, p_completed (the_proc ?s1), p_restartCount (the_proc ?s1) + 1,
         Some (MonBackoff r c (p_restartCount (the_proc ?s1) + 1))))" "p_exitCode (the_proc s') = p_exitCode (the_proc ?s1)"
    using count_outcome [of ?s1 t r c] by auto
  then have "alone (Suc n) t s = Some s'" using assms True by (simp add: alone_Suc)
  with n(1) o True show ?thesis by (intro exI [of _ "Suc n"] exI [of _ s']) simp
next
  case False
  with assms show ?thesis
    by (intro exI [of _ "1 :: nat"]) (simp add: alone_Suc alone_0 outcome_def)
qed

lemma default_outcome:
  assumes "fmlookup (pcs s) t = Some (MonSwitch r c stopped code)"
    and "exit_target (p_state (the_proc s)) stopped = None"
  shows "\<exists>n s'. n \<le> 5 \<and> alone n t s = Some s' \<and> outcome t s' =
      (if \<not> wants_restart (policy s) code
       then (StateExited, p_completed (the_proc s) \<or> code = 0, p_restartCount (the_proc s), None)
       else if maxRestarts s \<le> p_restartCount (the_proc s)
       then (StateFatal, p_completed (the_proc s) \<or> code = 0, p_restartCount (the_proc s), None)
       else (StateExited, p_completed (the_proc s) \<or> code = 0, p_restartCount (the_proc s) + 1,
         Some (MonBackoff r c (p_restartCount (the_proc s) + 1)))) \<and>
    p_exitCode (the_proc s') = p_exitCode (the_proc s)"
proof -
  define s1 where "s1 = (if code = 0 then goto t (MonExited r c code) (goto t (MonLatch r c code) s\<lparr>the_proc := latch_completed (the_proc s)\<rparr>)
    else goto t (MonExited r c code) s)"
  have lead: "alone (n + (if code = 0 then 2 else 1)) t s = alone n t s1" for n
    using assms by (auto simp: s1_def alone_Suc)
  have s1: "fmlookup (pcs s1) t = Some (MonExited r c code)" "policy s1 = policy s" "maxRestarts s1 = maxRestarts s"
    "p_completed (the_proc s1) = (p_completed (the_proc s) \<or> code = 0)"
    "p_restartCount (the_proc s1) = p_restartCount (the_proc s)" "p_exitCode (the_proc s1) = p_exitCode (the_proc s)"
    by (auto simp: s1_def latch_completed_def)
  from exited_outcome [OF s1(1)] obtain n s' where "n \<le> 3" "alone n t s1 = Some s'" "outcome t s' =
      (if \<not> wants_restart (policy s) code
       then (StateExited, p_completed (the_proc s) \<or> code = 0, p_restartCount (the_proc s), None)
       else if maxRestarts s \<le> p_restartCount (the_proc s)
       then (StateFatal, p_completed (the_proc s) \<or> code = 0, p_restartCount (the_proc s), None)
       else (StateExited, p_completed (the_proc s) \<or> code = 0, p_restartCount (the_proc s) + 1,
         Some (MonBackoff r c (p_restartCount (the_proc s) + 1))))" "p_exitCode (the_proc s') = p_exitCode (the_proc s)"
    by (auto simp: s1)
  with lead [of n] show ?thesis
    by (intro exI [of _ "n + (if code = 0 then 2 else 1)"] exI [of _ s']) simp
qed

text \<open>
  C6. Left alone, the monitor of a run that has ended records its exit code and comes to the verdict in at most six steps:
  STOPPED after a stop, EXITED without a restart when the policy does not ask for one (or the program was already
  STOPPING), FATAL when the restarts are used up, and otherwise EXITED with a backoff for the next
  attempt, counted from a fresh start after a healthy run; a clean exit nobody asked for latches
  \<open>completed\<close>, a stopped one does not.
\<close>

theorem monitor_reaches_verdict:
  assumes "fmlookup (pcs s) t = Some (MonRecord r c)" and "fmlookup (the_runs s) r = Some x"
    and "verdict (policy s) (maxRestarts s) (clock s) (run_status x) (the_proc s) = (st, compl, count, next)"
  shows "\<exists>n s'. n \<le> 6 \<and> alone n t s = Some s' \<and> p_exitCode (the_proc s') = exitCodeOfStatus (run_status x) \<and>
    outcome t s' = (st, compl, count, map_option (MonBackoff r c) next)"
proof -
  let ?p = "the_proc s"
  let ?code = "exitCodeOfStatus (run_status x)"
  let ?p1 = "snd (record_exit (run_status x) (clock s) ?p)"
  define s1 where "s1 = goto t (MonSwitch r c (p_stoppedExternally ?p) ?code) (s\<lparr>the_proc := ?p1\<rparr>)"
  have "thread_step t Proceed (MonRecord r c) s = Some s1"
    using assms(2) by (simp add: record_exit_def s1_def Let_def)
  then have lead: "alone (Suc n) t s = alone n t s1" for n by (rule alone_Suc [OF assms(1)])
  have s1: "fmlookup (pcs s1) t = Some (MonSwitch r c (p_stoppedExternally ?p) ?code)"
    "policy s1 = policy s" "maxRestarts s1 = maxRestarts s" "p_state (the_proc s1) = p_state ?p"
    "p_completed (the_proc s1) = p_completed ?p" "p_exitCode (the_proc s1) = ?code"
    "p_restartCount (the_proc s1) = (if clock s - p_startTime ?p \<ge> healthyUptime then 0 else p_restartCount ?p)"
    by (simp_all add: s1_def record_exit_def)
  have "\<exists>n s'. n \<le> 5 \<and> alone n t s1 = Some s' \<and> p_exitCode (the_proc s') = ?code \<and>
      outcome t s' = (st, compl, count, map_option (MonBackoff r c) next)"
  proof (cases "exit_target (p_state ?p) (p_stoppedExternally ?p)")
    case None
    with assms(3) show ?thesis
      using default_outcome [OF s1(1)]
      by (auto simp: s1 verdict_def exit_target_def Let_def split: if_splits)
  next
    case (Some target)
    then have v: "st = target" "compl = p_completed ?p" "count = p_restartCount (the_proc s1)" "next = None"
      using assms(3) by (auto simp: verdict_def exit_target_def Let_def s1(7) split: if_splits)
    obtain s' where "alone 2 t s1 = Some s'" "outcome t s' = (target, p_completed (the_proc s1), p_restartCount (the_proc s1), None)"
        "p_exitCode (the_proc s') = p_exitCode (the_proc s1)"
      using switch_outcome [OF s1(1)] Some s1(4) by auto
    then show ?thesis using v by (intro exI [of _ 2] exI [of _ s']) (simp add: s1)
  qed
  then obtain n s' where "n \<le> 5" "alone n t s1 = Some s'" "p_exitCode (the_proc s') = ?code"
      "outcome t s' = (st, compl, count, map_option (MonBackoff r c) next)" by blast
  with lead show ?thesis by (intro exI [of _ "Suc n"] exI [of _ s']) simp
qed

definition sample_crashed :: psys where
  "sample_crashed = the (exec_all (up_labels @ take 3 crash_labels) (new_psys RestartAlways 3))"

theorem monitor_reaches_verdict_witness:
  "\<exists>n s'. n \<le> 6 \<and> alone n 3 sample_crashed = Some s' \<and> p_exitCode (the_proc s') = 1 \<and>
    outcome 3 s' = (StateExited, False, 1, Some (MonBackoff 2 1 1))"
proof -
  have a: "fmlookup (pcs sample_crashed) 3 = Some (MonRecord 2 1)"
    "fmlookup (the_runs sample_crashed) 2 =
      Some \<lparr>run_alive = False, run_status = failed_status, run_exited = True, run_done = False, run_stop = False\<rparr>"
    "verdict (policy sample_crashed) (maxRestarts sample_crashed) (clock sample_crashed) failed_status (the_proc sample_crashed)
      = (StateExited, False, 1, Some 1)" "exitCodeOfStatus failed_status = 1"
    by code_simp+
  from monitor_reaches_verdict [OF a(1,2), of StateExited False 1 "Some 1"] a(3,4) show ?thesis by simp
qed

end

