(* ===== verification/Listener.thy ===== *)
theory Listener
  imports Prelude Machine
begin

text \<open>
  The control socket: \<open>Start\<close>, \<open>Stop\<close> and \<open>acceptConnections\<close> of \<^verbatim>\<open>internal/server/ipc.go\<close>.

  The accept loop, one goroutine per client and \<open>Stop\<close> run in parallel over two channels, a semaphore of
  \<open>maxConnections\<close> slots and a \<^verbatim>\<open>WaitGroup\<close>; the steps below are their operations on these. A client is
  served between the step that starts its goroutine and the one that frees its slot: what happens in
  between is \<open>handleConnection\<close> of theory \<open>Ipc\<close>. Every call that the operating system may refuse carries
  its outcome.
\<close>

section \<open>Who may use the socket\<close>

definition maxConnections :: nat where
  "maxConnections = 32"

definition socketMode :: nat where
  "socketMode = 6 * 64 + 6 * 8"

record socket_file =
  sf_group :: "int option"    \<comment> \<open>\<open>None\<close>: the group of the daemon\<close>
  sf_mode :: nat

datatype start_error =
    RemoveFailed | ListenFailed | StatFailed
  | GroupUnknown string
  | GroupUnusable string string
  | ChownFailed string | ChmodFailed

text \<open>\<open>groups\<close> is \<^verbatim>\<open>user.LookupGroup\<close>, the id of a group as text.\<close>

definition lookupGroupID :: "(string \<Rightarrow> string option) \<Rightarrow> string \<Rightarrow> start_error + int" where
  "lookupGroupID groups grp =
     (case ParseInt grp of
        Some gid \<Rightarrow> Inr gid
      | None \<Rightarrow>
          (case groups grp of
             None \<Rightarrow> Inl (GroupUnknown grp)
           | Some t \<Rightarrow> (case ParseInt t of None \<Rightarrow> Inl (GroupUnusable grp t) | Some gid \<Rightarrow> Inr gid)))"

definition restrictSocket ::
  "(string \<Rightarrow> string option) \<Rightarrow> bool \<Rightarrow> bool \<Rightarrow> string \<Rightarrow> socket_file \<Rightarrow> start_error + socket_file" where
  "restrictSocket groups chown_ok chmod_ok grp f =
     (case (if grp = '''' then Inr f
            else case lookupGroupID groups grp of
                   Inl e \<Rightarrow> Inl e
                 | Inr gid \<Rightarrow> if chown_ok then Inr (f\<lparr>sf_group := Some gid\<rparr>) else Inl (ChownFailed grp)) of
        Inl e \<Rightarrow> Inl e
      | Inr f' \<Rightarrow> if chmod_ok then Inr (f'\<lparr>sf_mode := socketMode\<rparr>) else Inl ChmodFailed)"

section \<open>The server and its goroutines\<close>

datatype listener = NoListener | Listening | Closed

text \<open>Where the accept loop, and where \<open>Stop\<close>, is.\<close>

datatype accept_pc = Accepting | Backing_off | Holding | Adding | Returned

datatype stop_pc = Not_stopping | Told | Awaiting_loop | Awaiting_clients | Comparing | Unlinking | Stopped

record ipc =
  ip_listener :: listener
  ip_stopChan :: bool          \<comment> \<open>closed\<close>
  ip_accepting :: bool         \<comment> \<open>closed\<close>
  ip_slots :: nat              \<comment> \<open>filled\<close>
  ip_connections :: nat        \<comment> \<open>the counter of the \<^verbatim>\<open>WaitGroup\<close>\<close>
  ip_socketInfo :: "nat option"
  ip_loop :: accept_pc
  ip_stop :: stop_pc
  ip_serving :: nat            \<comment> \<open>goroutines in \<open>handleConnection\<close>\<close>
  ip_leaving :: nat            \<comment> \<open>goroutines that have freed their slot and not said so\<close>
  ip_open :: nat               \<comment> \<open>connections accepted and not closed\<close>
  ip_path :: "nat option"      \<comment> \<open>the file the path refers to\<close>

definition NewIPCServer :: "nat option \<Rightarrow> ipc" where
  "NewIPCServer path = \<lparr>ip_listener = NoListener, ip_stopChan = False, ip_accepting = False, ip_slots = 0, ip_connections = 0,
     ip_socketInfo = None, ip_loop = Returned, ip_stop = Not_stopping, ip_serving = 0, ip_leaving = 0, ip_open = 0,
     ip_path = path\<rparr>"

record start_calls =
  sc_remove :: bool      \<comment> \<open>the path is free afterwards\<close>
  sc_listen :: bool
  sc_stat :: bool
  sc_chown :: bool
  sc_chmod :: bool

definition startFailed :: "start_error \<Rightarrow> ipc \<Rightarrow> start_error option \<times> ipc" where
  "startFailed e s = (Some e, s\<lparr>ip_accepting := True\<rparr>)"

text \<open>\<open>ino\<close> is the file that listening makes. The goroutine of the accept loop starts at \<open>Accepting\<close>.\<close>

definition Start_ipc ::
  "(string \<Rightarrow> string option) \<Rightarrow> start_calls \<Rightarrow> string \<Rightarrow> nat \<Rightarrow> socket_file \<Rightarrow> ipc \<Rightarrow> start_error option \<times> ipc" where
  "Start_ipc groups calls grp ino f s =
     (if \<not> sc_remove calls then (Some RemoveFailed, s)
      else if \<not> sc_listen calls then (Some ListenFailed, s\<lparr>ip_path := None\<rparr>)
      else (let s1 = s\<lparr>ip_listener := Listening, ip_path := Some ino\<rparr>
            in if \<not> sc_stat calls then startFailed StatFailed s1
               else (let s2 = s1\<lparr>ip_socketInfo := Some ino\<rparr>
                     in case restrictSocket groups (sc_chown calls) (sc_chmod calls) grp f of
                          Inl e \<Rightarrow> startFailed e s2
                        | Inr _ \<Rightarrow> (None, s2\<lparr>ip_loop := Accepting\<rparr>))))"

datatype ipc_label =
    Accepts | AcceptFails | Retries | TakesSlot | DropsClient | Adds
  | FreesSlot | SaysDone
  | Stops | ClosesListener bool | SeesLoop | SeesClients | Compares bool | Unlinks bool
  | Replaces "nat option"    \<comment> \<open>someone else changes what the path refers to\<close>

text \<open>The accept loop; the select takes either branch when both are ready.\<close>

fun loop_exec :: "ipc_label \<Rightarrow> ipc \<Rightarrow> ipc option" where
  "loop_exec Accepts s =
     (if ip_loop s = Accepting \<and> ip_listener s = Listening
      then Some (s\<lparr>ip_loop := Holding, ip_open := Suc (ip_open s)\<rparr>) else None)"
| "loop_exec AcceptFails s =
     (if ip_loop s = Accepting
      then Some (if ip_stopChan s then s\<lparr>ip_loop := Returned, ip_accepting := True\<rparr> else s\<lparr>ip_loop := Backing_off\<rparr>)
      else None)"
| "loop_exec Retries s = (if ip_loop s = Backing_off then Some (s\<lparr>ip_loop := Accepting\<rparr>) else None)"
| "loop_exec TakesSlot s =
     (if ip_loop s = Holding \<and> ip_slots s < maxConnections
      then Some (s\<lparr>ip_loop := Adding, ip_slots := Suc (ip_slots s)\<rparr>) else None)"
| "loop_exec DropsClient s =
     (if ip_loop s = Holding \<and> ip_stopChan s
      then Some (s\<lparr>ip_loop := Returned, ip_accepting := True, ip_open := ip_open s - 1\<rparr>) else None)"
| "loop_exec Adds s =
     (if ip_loop s = Adding
      then Some (s\<lparr>ip_loop := Accepting, ip_connections := Suc (ip_connections s), ip_serving := Suc (ip_serving s)\<rparr>)
      else None)"
| "loop_exec _ s = None"

text \<open>The end of a client's goroutine: the connection closes, then the deferred function runs.\<close>

fun client_exec :: "ipc_label \<Rightarrow> ipc \<Rightarrow> ipc option" where
  "client_exec FreesSlot s =
     (if 0 < ip_serving s
      then Some (s\<lparr>ip_serving := ip_serving s - 1, ip_leaving := Suc (ip_leaving s), ip_open := ip_open s - 1,
        ip_slots := ip_slots s - 1\<rparr>) else None)"
| "client_exec SaysDone s =
     (if 0 < ip_leaving s
      then Some (s\<lparr>ip_leaving := ip_leaving s - 1, ip_connections := ip_connections s - 1\<rparr>) else None)"
| "client_exec _ s = None"

text \<open>\<open>Stop\<close>, which returns at once when there is no listener. Closing never leaves a listener open.\<close>

fun stop_exec :: "ipc_label \<Rightarrow> ipc \<Rightarrow> ipc option" where
  "stop_exec Stops s =
     (if ip_stop s = Not_stopping
      then Some (s\<lparr>ip_stopChan := True, ip_stop := (if ip_listener s = NoListener then Stopped else Told)\<rparr>) else None)"
| "stop_exec (ClosesListener ok) s =
     (if ip_stop s = Told then Some (s\<lparr>ip_listener := Closed, ip_stop := Awaiting_loop\<rparr>) else None)"
| "stop_exec SeesLoop s =
     (if ip_stop s = Awaiting_loop \<and> ip_accepting s then Some (s\<lparr>ip_stop := Awaiting_clients\<rparr>) else None)"
| "stop_exec SeesClients s =
     (if ip_stop s = Awaiting_clients \<and> ip_connections s = 0
      then Some (s\<lparr>ip_stop := (if ip_socketInfo s = None then Stopped else Comparing)\<rparr>) else None)"
| "stop_exec (Compares ok) s =
     (if ip_stop s = Comparing
      then Some (s\<lparr>ip_stop := (if ok \<and> ip_path s = ip_socketInfo s then Unlinking else Stopped)\<rparr>) else None)"
| "stop_exec (Unlinks ok) s =
     (if ip_stop s = Unlinking
      then Some ((if ok then s\<lparr>ip_path := None\<rparr> else s)\<lparr>ip_stop := Stopped\<rparr>) else None)"
| "stop_exec _ s = None"

fun path_exec :: "ipc_label \<Rightarrow> ipc \<Rightarrow> ipc option" where
  "path_exec (Replaces p) s = Some (s\<lparr>ip_path := p\<rparr>)"
| "path_exec _ s = None"

inductive ipc_step :: "ipc \<Rightarrow> ipc_label \<Rightarrow> ipc \<Rightarrow> bool" where
  by_loop: "loop_exec l s = Some s' \<Longrightarrow> ipc_step s l s'"
| by_client: "client_exec l s = Some s' \<Longrightarrow> ipc_step s l s'"
| by_stop: "stop_exec l s = Some s' \<Longrightarrow> ipc_step s l s'"
| by_other: "path_exec l s = Some s' \<Longrightarrow> ipc_step s l s'"

inductive_cases ipc_stepE: "ipc_step s l s'"
inductive_simps adds_iff: "ipc_step s Adds s'"

text \<open>Whatever became of \<open>Start\<close>.\<close>

definition started :: "ipc \<Rightarrow> bool" where
  "started s \<longleftrightarrow> (\<exists>groups calls grp ino f path. s = snd (Start_ipc groups calls grp ino f (NewIPCServer path)))"

section \<open>What is kept\<close>

fun holds_client :: "accept_pc \<Rightarrow> nat" where
  "holds_client Holding = 1" | "holds_client Adding = 1"
| "holds_client Accepting = 0" | "holds_client Backing_off = 0" | "holds_client Returned = 0"

fun holds_slot :: "accept_pc \<Rightarrow> nat" where
  "holds_slot Adding = 1"
| "holds_slot Holding = 0" | "holds_slot Accepting = 0" | "holds_slot Backing_off = 0" | "holds_slot Returned = 0"

definition counts_ok :: "ipc \<Rightarrow> bool" where
  "counts_ok s \<longleftrightarrow> ip_connections s = ip_serving s + ip_leaving s \<and> ip_slots s = ip_serving s + holds_slot (ip_loop s) \<and>
     ip_slots s \<le> maxConnections \<and> ip_open s = ip_serving s + holds_client (ip_loop s)"

definition loop_ok :: "ipc \<Rightarrow> bool" where
  "loop_ok s \<longleftrightarrow> (case ip_listener s of
     NoListener \<Rightarrow> ip_loop s = Returned \<and> ip_connections s = 0
   | _ \<Rightarrow> ip_accepting s \<longleftrightarrow> ip_loop s = Returned)"

definition stop_ok :: "ipc \<Rightarrow> bool" where
  "stop_ok s \<longleftrightarrow> (ip_stopChan s \<longleftrightarrow> ip_stop s \<noteq> Not_stopping) \<and> (case ip_stop s of
     Not_stopping \<Rightarrow> ip_listener s \<noteq> Closed
   | Told \<Rightarrow> ip_listener s = Listening
   | Awaiting_loop \<Rightarrow> ip_listener s = Closed
   | Awaiting_clients \<Rightarrow> ip_listener s = Closed \<and> ip_loop s = Returned
   | Stopped \<Rightarrow> ip_listener s \<noteq> Listening \<and> ip_loop s = Returned \<and> ip_connections s = 0
   | _ \<Rightarrow> ip_listener s = Closed \<and> ip_loop s = Returned \<and> ip_connections s = 0)"

definition ipc_inv :: "ipc \<Rightarrow> bool" where
  "ipc_inv s \<longleftrightarrow> counts_ok s \<and> loop_ok s \<and> stop_ok s"

lemmas ipc_inv_defs = ipc_inv_def counts_ok_def loop_ok_def stop_ok_def

lemma loop_keeps: "ipc_inv s \<Longrightarrow> loop_exec l s = Some s' \<Longrightarrow> ipc_inv s'"
  by (cases l; clarsimp split: if_split_asm)
    (auto simp: ipc_inv_defs split: listener.splits stop_pc.splits)

lemma client_keeps: "ipc_inv s \<Longrightarrow> client_exec l s = Some s' \<Longrightarrow> ipc_inv s'"
  by (cases l; clarsimp split: if_split_asm)
    (auto simp: ipc_inv_defs split: listener.splits stop_pc.splits)

lemma stop_keeps: "ipc_inv s \<Longrightarrow> stop_exec l s = Some s' \<Longrightarrow> ipc_inv s'"
  by (cases l; clarsimp split: if_split_asm)
    (auto simp: ipc_inv_defs split: listener.splits stop_pc.splits)

lemma path_keeps: "ipc_inv s \<Longrightarrow> path_exec l s = Some s' \<Longrightarrow> ipc_inv s'"
  by (cases l; clarsimp split: if_split_asm)
    (auto simp: ipc_inv_defs split: listener.splits stop_pc.splits)

lemma Start_inv: "ipc_inv (snd (Start_ipc groups calls grp ino f (NewIPCServer path)))"
  by (simp add: Start_ipc_def startFailed_def NewIPCServer_def Let_def ipc_inv_defs split: sum.split)

lemma started_inv: "started s \<Longrightarrow> ipc_inv s"
  by (auto simp: started_def intro: Start_inv)

interpretation ipc: inductive_invariant started ipc_step ipc_inv
proof
  show "ipc_inv s'" if "ipc_inv s" "ipc_step s l s'" for s l s'
    using that(2,1) by (cases rule: ipc_step.cases) (blast dest: loop_keeps client_keeps stop_keeps path_keeps)+
qed (rule started_inv)

section \<open>Clients while the server stops\<close>


text \<open>A socket that listens with one client being served, and \<open>Stop\<close> once it has closed the listener.\<close>

definition sample_calls :: start_calls where
  "sample_calls = \<lparr>sc_remove = True, sc_listen = True, sc_stat = True, sc_chown = True, sc_chmod = True\<rparr>"

definition sample_listening :: ipc where
  "sample_listening = snd (Start_ipc (\<lambda>_. None) sample_calls '''' 7 \<lparr>sf_group = None, sf_mode = 0\<rparr> (NewIPCServer None))"

definition sample_served :: ipc where
  "sample_served = sample_listening\<lparr>ip_open := 1, ip_slots := 1, ip_connections := 1, ip_serving := 1\<rparr>"

definition sample_closed :: ipc where
  "sample_closed = sample_served\<lparr>ip_stopChan := True, ip_listener := Closed, ip_stop := Awaiting_loop\<rparr>"

lemma sample_listening_eq:
  "sample_listening = \<lparr>ip_listener = Listening, ip_stopChan = False, ip_accepting = False, ip_slots = 0, ip_connections = 0,
     ip_socketInfo = Some 7, ip_loop = Accepting, ip_stop = Not_stopping, ip_serving = 0, ip_leaving = 0, ip_open = 0,
     ip_path = Some 7\<rparr>"
  by (simp add: sample_listening_def sample_calls_def Start_ipc_def restrictSocket_def NewIPCServer_def Let_def)

lemmas sample_defs = sample_closed_def sample_served_def sample_listening_eq maxConnections_def

lemma sample_reachable: "reachable started ipc_step sample_served" "reachable started ipc_step sample_closed"
proof -
  let ?s1 = "sample_listening\<lparr>ip_loop := Holding, ip_open := 1\<rparr>"
  let ?s2 = "sample_listening\<lparr>ip_loop := Adding, ip_open := 1, ip_slots := 1\<rparr>"
  let ?s3 = "sample_served\<lparr>ip_stopChan := True, ip_stop := Told\<rparr>"
  have "reachable started ipc_step sample_listening"
    unfolding sample_listening_def by (rule reachable_initial) (unfold started_def, blast)
  moreover have "ipc_step sample_listening Accepts ?s1" by (rule by_loop) (simp add: sample_defs)
  moreover have "ipc_step ?s1 TakesSlot ?s2" by (rule by_loop) (simp add: sample_defs)
  moreover have "ipc_step ?s2 Adds sample_served" by (rule by_loop) (simp add: sample_defs)
  ultimately show served: "reachable started ipc_step sample_served" by (meson reachable_step)
  moreover have "ipc_step sample_served Stops ?s3" by (rule by_stop) (simp add: sample_defs)
  moreover have "ipc_step ?s3 (ClosesListener True) sample_closed" by (rule by_stop) (simp add: sample_defs)
  ultimately show "reachable started ipc_step sample_closed" by (meson reachable_step)
qed


section \<open>Stopping comes to an end\<close>

fun loop_left :: "accept_pc \<Rightarrow> nat" where
  "loop_left Returned = 0" | "loop_left Accepting = 1" | "loop_left Backing_off = 2" | "loop_left Adding = 4" | "loop_left Holding = 5"

fun stop_left :: "stop_pc \<Rightarrow> nat" where
  "stop_left Stopped = 0" | "stop_left Unlinking = 1" | "stop_left Comparing = 2" | "stop_left Awaiting_clients = 3"
| "stop_left Awaiting_loop = 4" | "stop_left Told = 5" | "stop_left Not_stopping = 6"

text \<open>The steps that are left once the listener is closed.\<close>

definition steps_left :: "ipc \<Rightarrow> nat" where
  "steps_left s = loop_left (ip_loop s) + stop_left (ip_stop s) + 2 * ip_serving s + ip_leaving s"

definition own :: "ipc_label \<Rightarrow> bool" where
  "own l \<longleftrightarrow> (\<forall>p. l \<noteq> Replaces p)"

lemma closed_steps:
  assumes "ipc_inv s" and "ip_listener s = Closed" and "ipc_step s l s'"
  shows "ip_listener s' = Closed \<and> steps_left s' + (if own l then 1 else 0) \<le> steps_left s"
proof -
  have told: "ip_stopChan s" "ip_stop s \<noteq> Not_stopping" "ip_stop s \<noteq> Told"
    using assms(1,2) by (auto simp: ipc_inv_def stop_ok_def split: stop_pc.splits)
  from assms(3) show ?thesis
  proof (cases rule: ipc_step.cases)
    case by_loop
    with assms(2) told show ?thesis by (cases l) (auto simp: steps_left_def own_def split: if_splits)
  next
    case by_client
    with assms(2) show ?thesis by (cases l) (auto simp: steps_left_def own_def split: if_splits)
  next
    case by_stop
    with assms(2) told show ?thesis by (cases l) (auto simp: steps_left_def own_def split: if_splits)
  next
    case by_other
    with assms(2) show ?thesis by (cases l) (auto simp: steps_left_def own_def)
  qed
qed

lemma closed_runs:
  "runs ipc_step s ls s' \<Longrightarrow> ipc_inv s \<Longrightarrow> ip_listener s = Closed \<Longrightarrow>
     ip_listener s' = Closed \<and> steps_left s' + length (filter own ls) \<le> steps_left s"
proof (induction rule: runs.induct)
  case (runs_more s ls s' l s'')
  then have "ipc_inv s'" using ipc.inv_runs by blast
  with closed_steps [OF this _ runs_more.hyps(2)] runs_more show ?case by (auto split: if_splits)
qed simp

lemma enabled:
  "own l \<Longrightarrow> loop_exec l s \<noteq> None \<or> client_exec l s \<noteq> None \<or> stop_exec l s \<noteq> None \<Longrightarrow> \<exists>l s'. own l \<and> ipc_step s l s'"
  by (meson by_client by_loop by_stop not_None_eq)

lemma closed_progress:
  assumes "ipc_inv s" and "ip_listener s = Closed" and "ip_stop s \<noteq> Stopped"
  shows "\<exists>l s'. own l \<and> ipc_step s l s'"
proof -
  have stop: "ip_stopChan s" "ip_loop s = Returned \<Longrightarrow> ip_accepting s"
    "ip_stop s \<in> {Awaiting_loop, Awaiting_clients, Comparing, Unlinking}"
    using assms by (auto simp: ipc_inv_def stop_ok_def loop_ok_def split: stop_pc.splits)
  have clients: "ip_connections s = 0 \<or> 0 < ip_serving s \<or> 0 < ip_leaving s"
    using assms(1) by (simp add: ipc_inv_def counts_ok_def) arith
  show ?thesis
  proof (cases "ip_loop s")
    case Accepting
    then show ?thesis by (intro enabled [of AcceptFails]) (simp_all add: own_def)
  next
    case Backing_off
    then show ?thesis by (intro enabled [of Retries]) (simp_all add: own_def)
  next
    case Holding
    then show ?thesis using stop by (intro enabled [of DropsClient]) (simp_all add: own_def)
  next
    case Adding
    then show ?thesis by (intro enabled [of Adds]) (simp_all add: own_def)
  next
    case Returned
    consider "ip_stop s = Awaiting_loop" | "ip_stop s = Awaiting_clients" "ip_connections s = 0" | "0 < ip_serving s"
      | "0 < ip_leaving s" | "ip_stop s = Comparing" | "ip_stop s = Unlinking" using stop(3) clients by auto
    then show ?thesis
    proof cases
      case 1
      then show ?thesis using stop(2) Returned by (intro enabled [of SeesLoop]) (simp_all add: own_def)
    next
      case 2
      then show ?thesis by (intro enabled [of SeesClients]) (simp_all add: own_def)
    next
      case 3
      then show ?thesis by (intro enabled [of FreesSlot]) (simp_all add: own_def)
    next
      case 4
      then show ?thesis by (intro enabled [of SaysDone]) (simp_all add: own_def)
    next
      case 5
      then show ?thesis by (intro enabled [of "Compares True"]) (simp_all add: own_def)
    next
      case 6
      then show ?thesis by (intro enabled [of "Unlinks True"]) (simp_all add: own_def)
    qed
  qed
qed

lemma client_holds: "runs ipc_step s ls s' \<Longrightarrow> FreesSlot \<notin> set ls \<Longrightarrow> ip_serving s \<le> ip_serving s'"
proof (induction rule: runs.induct)
  case (runs_more s ls s' l s'')
  have "ip_serving s' \<le> ip_serving s''"
    using runs_more.hyps(2)
  proof (cases rule: ipc_step.cases)
    case by_loop
    then show ?thesis by (cases l) (auto split: if_splits)
  next
    case by_client
    then show ?thesis using runs_more.prems by (cases l) (auto split: if_splits)
  next
    case by_stop
    then show ?thesis by (cases l) (auto split: if_splits)
  next
    case by_other
    then show ?thesis by (cases l) auto
  qed
  with runs_more show ?case by simp
qed simp

text \<open>
  C37. Once the listener is closed, \<open>Stop\<close> has at most nine steps before it besides those of the clients that
  are left, two each, and it is never stuck before it is done; but it is not done as long as a client that
  was being served does not leave, which nothing in \<open>Stop\<close> makes it do.
\<close>

theorem stop_ends_with_clients:
  assumes "reachable started ipc_step s" and "ip_listener s = Closed" and "runs ipc_step s ls s'"
  shows "length (filter own ls) \<le> 9 + 2 * ip_serving s + ip_leaving s \<and>
    (ip_stop s' = Stopped \<or> (\<exists>l s''. own l \<and> ipc_step s' l s'')) \<and>
    (0 < ip_serving s \<and> FreesSlot \<notin> set ls \<longrightarrow> ip_stop s' \<noteq> Stopped)"
proof -
  have inv: "ipc_inv s" using ipc.inv_reachable [OF assms(1)] .
  have inv': "ipc_inv s'" using ipc.inv_runs [OF assms(3) inv] .
  have "loop_left (ip_loop s) \<le> 5" by (cases "ip_loop s") simp_all
  moreover have "stop_left (ip_stop s) \<le> 4"
    using inv assms(2) by (cases "ip_stop s") (simp_all add: ipc_inv_def stop_ok_def)
  ultimately have "length (filter own ls) \<le> 9 + 2 * ip_serving s + ip_leaving s"
    using closed_runs [OF assms(3) inv assms(2)] by (simp add: steps_left_def)
  moreover have "ip_stop s' = Stopped \<or> (\<exists>l s''. own l \<and> ipc_step s' l s'')"
    using closed_progress [OF inv'] closed_runs [OF assms(3) inv assms(2)] by blast
  moreover have "ip_stop s' \<noteq> Stopped" if "0 < ip_serving s" "FreesSlot \<notin> set ls"
    using client_holds [OF assms(3) that(2)] that(1) inv' by (auto simp: ipc_inv_def stop_ok_def counts_ok_def)
  ultimately show ?thesis by blast
qed

theorem stop_ends_with_clients_witness: "\<exists>l s. own l \<and> ipc_step sample_closed l s"
  using stop_ends_with_clients [OF sample_reachable(2) _ runs_none] by (auto simp: sample_defs)

end
