(* ===== verification/Ipc.thy ===== *)
theory Ipc
  imports Reload
begin

text \<open>
  The messages of \<^verbatim>\<open>internal/api/messages.go\<close> and the requests of \<^verbatim>\<open>internal/server/ipc.go\<close>:
  \<open>handleRequest\<close> with the handler of every command, and \<open>handleConnection\<close>.

  What a handler does to the daemon is a list of effects, in order: the calls it makes of other
  components. What it meets there (the polls of its waits, the server when a restart comes to its second half,
  the outcome of a reload) is the record \<open>surroundings\<close>.
\<close>

section \<open>Messages\<close>

record Request =
  rq_Command :: string
  rq_Args :: "string list"

record ProcessStatus =
  ps_Name :: string
  ps_State :: string
  ps_Desired :: string
  ps_Health :: string
  ps_Uptime :: string
  ps_Reason :: string
  ps_PID :: int
  ps_ExitCode :: int
  ps_RestartCount :: int

datatype payload = NoData | Processes "ProcessStatus list" | Applied ReloadResponse

record Response =
  rs_Data :: payload
  rs_Message :: string
  rs_Success :: bool

definition failure :: "string \<Rightarrow> Response" where
  "failure msg = \<lparr>rs_Data = NoData, rs_Message = msg, rs_Success = False\<rparr>"

definition success :: "string \<Rightarrow> Response" where
  "success msg = \<lparr>rs_Data = NoData, rs_Message = msg, rs_Success = True\<rparr>"

section \<open>Errors as text\<close>

fun error_text :: "server_error \<Rightarrow> string" where
  "error_text (ProcessNotFound n) = ''process '' @ n @ '' not found''"
| "error_text (AlreadyRunning n) = ''process '' @ n @ '' is already running''"
| "error_text (CannotStart n r) = ''process '' @ n @ '' cannot start: '' @ reason_text r"
| "error_text ShuttingDown = ''supavisor is shutting down''"
| "error_text (NotRunningBecause n r) = ''process '' @ n @ '' is not running: '' @ reason_text r"
| "error_text (TimedOut n st) = ''timed out waiting for process '' @ n @ '', it is '' @ state_text st"

text \<open>The errors of the configuration and of the graph are wrapped; their own text is an argument.\<close>

fun reload_error_text :: "(config_error \<Rightarrow> string) \<Rightarrow> (graph_error \<Rightarrow> string) \<Rightarrow> reload_error \<Rightarrow> string" where
  "reload_error_text ct gt NoConfigurationFile = ''no configuration file to reload''"
| "reload_error_text ct gt (ReloadParse e) = ''failed to reload configuration: '' @ ct e"
| "reload_error_text ct gt (ReloadInvalid e) = ''invalid configuration: '' @ ct e"
| "reload_error_text ct gt (ReloadGraph e) = ''dependency graph validation failed: '' @ gt e"
| "reload_error_text ct gt (SettingFixed setting) = setting @ '' cannot be changed while running: restart supavisor to apply it''"
| "reload_error_text ct gt (ReloadDirectories e) = ''failed to create log directories: '' @ e"

fun desired_text :: "DesiredState option \<Rightarrow> string" where
  "desired_text None = ''''"
| "desired_text (Some DesiredRunning) = ''RUNNING''"
| "desired_text (Some DesiredStopped) = ''STOPPED''"

section \<open>The handlers\<close>

datatype effect =
    ResetProgram string               \<comment> \<open>a call of \<open>Stop\<close> on the process\<close>
  | SetDesired string DesiredState
  | RunReload
  | SelfTerminate                     \<comment> \<open>SIGTERM to the daemon itself\<close>

record surroundings =
  w_order :: "string list"            \<comment> \<open>the range over the processes\<close>
  w_now :: int
  w_polls :: "poll list"
  w_again :: server                   \<comment> \<open>the server when a restart starts the program\<close>
  w_again_polls :: "poll list"
  w_reload :: "reload_error + ReloadResponse"

definition process_status :: "ProcessStatusInfo \<Rightarrow> ProcessStatus" where
  "process_status st = \<lparr>ps_Name = st_Name st, ps_State = state_text (st_State st), ps_Desired = desired_text (st_Desired st),
     ps_Health = health_text (st_Health st), ps_Uptime = st_Uptime st, ps_Reason = st_Reason st, ps_PID = st_PID st,
     ps_ExitCode = st_ExitCode st, ps_RestartCount = st_RestartCount st\<rparr>"

fun selectProcess :: "ProcessStatusInfo list \<Rightarrow> string \<Rightarrow> ProcessStatusInfo list" where
  "selectProcess [] name = []"
| "selectProcess (st # sts) name = (if st_Name st = name then [st] else selectProcess sts name)"

definition handleStatus :: "surroundings \<Rightarrow> string list \<Rightarrow> server \<Rightarrow> Response" where
  "handleStatus w args s =
     (let statuses = GetStatus (w_order w) (w_now w) s;
          selected = (case args of [] \<Rightarrow> statuses | name # _ \<Rightarrow> selectProcess statuses name)
      in if args \<noteq> [] \<and> length selected = 0 then failure (''process '' @ hd args @ '' not found'')
         else \<lparr>rs_Data = Processes (map process_status selected), rs_Message = '''', rs_Success = True\<rparr>)"

definition answer :: "string \<Rightarrow> string \<Rightarrow> server_error + unit \<Rightarrow> Response" where
  "answer name verb res =
     (case res of Inl e \<Rightarrow> failure (error_text e) | Inr _ \<Rightarrow> success (''process '' @ name @ '' '' @ verb))"

definition start_effects :: "string \<Rightarrow> server \<Rightarrow> effect list" where
  "start_effects name s =
     (case begin_StartProcess name s of
        Inl _ \<Rightarrow> []
      | Inr (reset, _) \<Rightarrow> (if reset then [ResetProgram name] else []) @ [SetDesired name DesiredRunning])"

definition stop_effects :: "string \<Rightarrow> server \<Rightarrow> effect list" where
  "stop_effects name s =
     (case setDesired name DesiredStopped s of Inl _ \<Rightarrow> [] | Inr _ \<Rightarrow> [SetDesired name DesiredStopped])"

text \<open>No response: the request is still waiting when the polls end.\<close>

definition handleStart :: "surroundings \<Rightarrow> string \<Rightarrow> server \<Rightarrow> Response option \<times> effect list" where
  "handleStart w name s = (map_option (answer name ''started'') (StartProcess name s (w_polls w)), start_effects name s)"

definition handleStop :: "surroundings \<Rightarrow> string \<Rightarrow> server \<Rightarrow> Response option \<times> effect list" where
  "handleStop w name s = (map_option (answer name ''stopped'') (StopProcess name s (w_polls w)), stop_effects name s)"

definition handleRestart :: "surroundings \<Rightarrow> string \<Rightarrow> server \<Rightarrow> Response option \<times> effect list" where
  "handleRestart w name s =
     (map_option (answer name ''restarted'') (RestartProcess name s (w_polls w) (w_again w) (w_again_polls w)),
      stop_effects name s @
        (if StopProcess name s (w_polls w) = Some (Inr ()) then start_effects name (w_again w) else []))"

definition handleReload :: "(reload_error \<Rightarrow> string) \<Rightarrow> surroundings \<Rightarrow> Response" where
  "handleReload text_of_error w =
     (case w_reload w of
        Inl e \<Rightarrow> failure (text_of_error e)
      | Inr applied \<Rightarrow>
          if Empty applied then success ''configuration reloaded, nothing changed''
          else \<lparr>rs_Data = Applied applied, rs_Message = ''configuration reloaded'', rs_Success = True\<rparr>)"

definition handleShutdown :: "Response \<times> effect list" where
  "handleShutdown = (success ''shutdown initiated'', [SelfTerminate])"

definition msgProcessNameRequired :: string where
  "msgProcessNameRequired = ''process name required''"

definition with_name ::
  "Request \<Rightarrow> (string \<Rightarrow> Response option \<times> effect list) \<Rightarrow> Response option \<times> effect list" where
  "with_name req handler =
     (if length (rq_Args req) = 0 then (Some (failure msgProcessNameRequired), []) else handler (rq_Args req ! 0))"

definition handleRequest ::
  "(reload_error \<Rightarrow> string) \<Rightarrow> surroundings \<Rightarrow> Request \<Rightarrow> server \<Rightarrow> Response option \<times> effect list" where
  "handleRequest text_of_error w req s =
     (if rq_Command req = ''status'' then (Some (handleStatus w (rq_Args req) s), [])
      else if rq_Command req = ''start'' then with_name req (\<lambda>name. handleStart w name s)
      else if rq_Command req = ''stop'' then with_name req (\<lambda>name. handleStop w name s)
      else if rq_Command req = ''restart'' then with_name req (\<lambda>name. handleRestart w name s)
      else if rq_Command req = ''reload'' then (Some (handleReload text_of_error w), [RunReload])
      else if rq_Command req = ''shutdown'' then (Some (fst handleShutdown), snd handleShutdown)
      else (Some (failure (''unknown command: '' @ rq_Command req)), []))"

section \<open>A connection\<close>

text \<open>One round of the loop: the deadline is set, the request decoded, the response written.\<close>

record round =
  rd_deadline :: bool
  rd_request :: "Request option"    \<comment> \<open>\<open>None\<close>: the decoder failed\<close>
  rd_written :: bool

text \<open>The responses sent, and whether the connection is closed after these rounds.\<close>

fun handleConnection :: "(Request \<Rightarrow> Response) \<Rightarrow> round list \<Rightarrow> Response list \<times> bool" where
  "handleConnection respond [] = ([], False)"
| "handleConnection respond (r # rs) =
     (if \<not> rd_deadline r then ([], True)
      else case rd_request r of
             None \<Rightarrow> ([], True)
           | Some req \<Rightarrow>
               if rd_written r then (respond req # fst (handleConnection respond rs), snd (handleConnection respond rs))
               else ([], True))"

lemma handleConnection_answers:
  "\<forall>r \<in> set rs. rd_deadline r \<and> rd_written r \<and> rd_request r \<noteq> None \<Longrightarrow>
     handleConnection respond rs = (map (\<lambda>r. respond (the (rd_request r))) rs, False)"
  by (induction rs) auto

text \<open>
  Where the requests come from. Every round makes a decoder of its own over at most \<open>maxRequestBytes\<close> of what the
  connection yields, a list of what its reads return; \<open>parse\<close> is \<^verbatim>\<open>encoding/json\<close> on the bytes read so
  far. What the decoder has read behind the request goes with the decoder.
\<close>

definition maxRequestBytes :: nat where
  "maxRequestBytes = 64 * 1024"

datatype parsed = Complete Request | Truncated | Malformed

function decode_request :: "(string \<Rightarrow> parsed) \<Rightarrow> nat \<Rightarrow> string \<Rightarrow> string list \<Rightarrow> Request option \<times> string list" where
  "decode_request parse limit buf [] = (None, [])"
| "decode_request parse limit buf (c # cs) =
     (if limit = 0 then (None, c # cs)
      else (let buf' = buf @ take limit c; rest = (if length c \<le> limit then cs else drop limit c # cs)
            in case parse buf' of
                 Complete req \<Rightarrow> (Some req, rest)
               | Malformed \<Rightarrow> (None, rest)
               | Truncated \<Rightarrow> decode_request parse (limit - length c) buf' rest))"
  by pat_completeness auto
termination
  by (relation "measures [\<lambda>(parse, limit, buf, cs). limit, \<lambda>(parse, limit, buf, cs). length cs]") auto

definition unread :: "string list \<Rightarrow> nat" where
  "unread cs = sum_list (map length cs) + length cs"

lemma decode_request_reads: "decode_request parse limit buf cs = (Some req, rest) \<Longrightarrow> unread rest < unread cs"
proof (induction parse limit buf cs rule: decode_request.induct)
  case (2 parse limit buf c cs)
  let ?rest = "if length c \<le> limit then cs else drop limit c # cs"
  have less: "0 < limit \<Longrightarrow> unread ?rest < unread (c # cs)" by (auto simp: unread_def)
  show ?case
  proof (cases "parse (buf @ take limit c)")
    case Truncated
    with 2 less show ?thesis by (force simp: Let_def split: if_split_asm)
  qed (use 2(2) less in \<open>auto simp: Let_def split: if_split_asm\<close>)
qed simp

text \<open>The responses sent to a client whose reads and writes succeed until it is gone.\<close>

function serve_stream :: "(string \<Rightarrow> parsed) \<Rightarrow> (Request \<Rightarrow> Response) \<Rightarrow> string list \<Rightarrow> Response list" where
  "serve_stream parse respond cs =
     (case decode_request parse maxRequestBytes [] cs of
        (None, rest) \<Rightarrow> []
      | (Some req, rest) \<Rightarrow> respond req # serve_stream parse respond rest)"
  by pat_completeness auto
termination
  by (relation "measure (\<lambda>(parse, respond, cs). unread cs)") (auto dest: decode_request_reads [OF sym])

declare serve_stream.simps [simp del]

text \<open>No request is looked at beyond its first \<open>limit\<close> bytes.\<close>

lemma decode_request_bounded:
  "(\<And>t. length t \<le> length buf + limit \<Longrightarrow> parse t = parse' t) \<Longrightarrow>
     decode_request parse limit buf cs = decode_request parse' limit buf cs"
proof (induction parse limit buf cs rule: decode_request.induct)
  case (2 parse limit buf c cs)
  let ?buf = "buf @ take limit c"
  let ?rest = "if length c \<le> limit then cs else drop limit c # cs"
  have same: "parse ?buf = parse' ?buf" using 2(2) by (simp add: min_def)
  have again: "decode_request parse (limit - length c) ?buf ?rest = decode_request parse' (limit - length c) ?buf ?rest"
    if "limit \<noteq> 0" "parse ?buf = Truncated"
    by (rule 2(1) [OF that(1) refl refl that(2)]) (use 2(2) in \<open>simp add: min_def split: if_split_asm\<close>)
  show ?case
  proof (cases "limit = 0")
    case False
    show ?thesis
      by (cases "parse ?buf") (use False same again in \<open>simp_all add: Let_def\<close>)
  qed simp
qed simp

text \<open>A client that waits for every answer gets one for each request; of two requests that come in one read the
  second is lost.\<close>

lemma serve_stream_in_turn:
  "\<forall>c \<in> set cs. length c \<le> maxRequestBytes \<and> parse c = Complete (req c) \<Longrightarrow>
     serve_stream parse respond cs = map (respond \<circ> req) cs"
proof (induction cs)
  case Nil
  show ?case by (subst serve_stream.simps) simp
next
  case (Cons c cs)
  then show ?case by (subst serve_stream.simps) (auto simp: maxRequestBytes_def)
qed

lemma serve_stream_loses_pipelined:
  assumes "parse (c @ c') = Complete req" and "length (c @ c') \<le> maxRequestBytes"
  shows "serve_stream parse respond [c @ c'] = [respond req]"
  using assms by (subst serve_stream.simps, subst decode_request.simps)
    (simp add: Let_def maxRequestBytes_def serve_stream.simps)

section \<open>What a request may do\<close>

lemma start_effects_cases:
  "start_effects name s \<in> {[], [SetDesired name DesiredRunning], [ResetProgram name, SetDesired name DesiredRunning]} \<and>
   (start_effects name s \<noteq> [] \<longrightarrow> fmlookup (sv_processes s) name \<noteq> None)"
  by (auto simp: start_effects_def begin_StartProcess_def split: sum.splits option.splits if_splits)

lemma stop_effects_cases:
  "stop_effects name s = (if fmlookup (sv_processes s) name = None then [] else [SetDesired name DesiredStopped])"
  by (simp add: stop_effects_def setDesired_def Let_def)

lemma error_text_not_empty: "error_text e \<noteq> ''''"
  by (cases e) simp_all

lemma start_again:
  "StartProcess name s qs = Some (Inr ()) \<Longrightarrow> start_effects name s \<noteq> [] \<and> (\<exists>q \<in> set qs. came_up (poll_program q))"
  by (auto simp: StartProcess_def start_effects_def awaitState_def split: sum.splits if_splits dest: await_success)

lemma stop_again:
  "StopProcess name s qs = Some (Inr ()) \<Longrightarrow>
     fmlookup (sv_processes s) name \<noteq> None \<and> (\<exists>q \<in> set qs. GetState (poll_program q) = StateStopped)"
  by (auto simp: StopProcess_def setDesired_def awaitState_def Let_def split: sum.splits if_splits dest: await_success)

definition acts_on :: "effect \<Rightarrow> string option" where
  "acts_on e = (case e of ResetProgram n \<Rightarrow> Some n | SetDesired n _ \<Rightarrow> Some n | _ \<Rightarrow> None)"

lemma acts_on_simps [simp]:
  "acts_on (ResetProgram n) = Some n" "acts_on (SetDesired n d) = Some n" "acts_on RunReload = None" "acts_on SelfTerminate = None"
  by (simp_all add: acts_on_def)

definition keeps_to :: "string \<Rightarrow> effect list \<Rightarrow> bool" where
  "keeps_to name effs \<longleftrightarrow> (\<forall>e \<in> set effs. acts_on e = Some name)"

lemma keeps_to_simps [simp]:
  "keeps_to name []" "keeps_to name (es @ es') \<longleftrightarrow> keeps_to name es \<and> keeps_to name es'"
  "keeps_to name (e # es) \<longleftrightarrow> acts_on e = Some name \<and> keeps_to name es"
  by (auto simp: keeps_to_def)

lemma effects_keep [simp]: "keeps_to name (start_effects name s)" "keeps_to name (stop_effects name s)"
  using start_effects_cases [of name s] stop_effects_cases [of name s] by auto

text \<open>What an answer of success means, command by command.\<close>

definition came_true :: "surroundings \<Rightarrow> Request \<Rightarrow> effect list \<Rightarrow> bool" where
  "came_true w req effs \<longleftrightarrow>
     (rq_Command req = ''start'' \<longrightarrow> effs \<noteq> [] \<and> last effs = SetDesired (hd (rq_Args req)) DesiredRunning \<and>
        (\<exists>q \<in> set (w_polls w). came_up (poll_program q))) \<and>
     (rq_Command req = ''stop'' \<longrightarrow> effs = [SetDesired (hd (rq_Args req)) DesiredStopped] \<and>
        (\<exists>q \<in> set (w_polls w). GetState (poll_program q) = StateStopped)) \<and>
     (rq_Command req = ''restart'' \<longrightarrow> effs \<noteq> [] \<and> hd effs = SetDesired (hd (rq_Args req)) DesiredStopped \<and>
        last effs = SetDesired (hd (rq_Args req)) DesiredRunning \<and>
        (\<exists>q \<in> set (w_polls w). GetState (poll_program q) = StateStopped) \<and>
        (\<exists>q \<in> set (w_again_polls w). came_up (poll_program q)))"

lemma start_effects_last: "start_effects name s \<noteq> [] \<Longrightarrow> last (start_effects name s) = SetDesired name DesiredRunning"
  using start_effects_cases [of name s] by auto

lemma restart_again:
  assumes "RestartProcess name s qs s2 qs2 = Some (Inr ())"
  shows "StopProcess name s qs = Some (Inr ())" and "StartProcess name s2 qs2 = Some (Inr ())"
  using assms by (auto simp: RestartProcess_def split: option.splits sum.splits)

lemma answer_simps [simp]:
  "rs_Success (answer name verb res) \<longleftrightarrow> res = Inr ()" "rs_Data (answer name verb res) = NoData"
  by (cases res; simp add: answer_def failure_def success_def)+

text \<open>What every handler of a named program keeps to, with the meaning of its success.\<close>

definition true_answer :: "server \<Rightarrow> string \<Rightarrow> (effect list \<Rightarrow> bool) \<Rightarrow> Response option \<times> effect list \<Rightarrow> bool" where
  "true_answer s name done_as res \<longleftrightarrow> keeps_to name (snd res) \<and> (snd res \<noteq> [] \<longrightarrow> fmlookup (sv_processes s) name \<noteq> None) \<and>
     (\<forall>r. fst res = Some r \<longrightarrow> rs_Data r = NoData \<and> (rs_Success r \<longrightarrow> done_as (snd res)))"

lemma handleStart_honest:
  "true_answer s n (\<lambda>effs. effs \<noteq> [] \<and> last effs = SetDesired n DesiredRunning \<and> (\<exists>q \<in> set (w_polls w). came_up (poll_program q)))
     (handleStart w n s)"
  using start_effects_cases [of n s] start_effects_last [of n s] start_again [of n s "w_polls w"]
  by (auto simp: true_answer_def handleStart_def)

lemma handleStop_honest:
  "true_answer s n (\<lambda>effs. effs = [SetDesired n DesiredStopped] \<and> (\<exists>q \<in> set (w_polls w). GetState (poll_program q) = StateStopped))
     (handleStop w n s)"
  using stop_effects_cases [of n s] stop_again [of n s "w_polls w"]
  by (auto simp: true_answer_def handleStop_def)

lemma true_answerI:
  "keeps_to name (snd res) \<Longrightarrow> (snd res \<noteq> [] \<Longrightarrow> fmlookup (sv_processes s) name \<noteq> None) \<Longrightarrow>
     (\<And>r. fst res = Some r \<Longrightarrow> rs_Data r = NoData) \<Longrightarrow>
     (\<And>r. fst res = Some r \<Longrightarrow> rs_Success r \<Longrightarrow> done_as (snd res)) \<Longrightarrow> true_answer s name done_as res"
  by (simp add: true_answer_def)

lemma handleRestart_honest:
  "true_answer s n (\<lambda>effs. effs \<noteq> [] \<and> hd effs = SetDesired n DesiredStopped \<and> last effs = SetDesired n DesiredRunning \<and>
     (\<exists>q \<in> set (w_polls w). GetState (poll_program q) = StateStopped) \<and> (\<exists>q \<in> set (w_again_polls w). came_up (poll_program q)))
     (handleRestart w n s)" (is "true_answer s n ?P _")
proof (rule true_answerI)
  show "keeps_to n (snd (handleRestart w n s))" by (simp add: handleRestart_def)
  show "fmlookup (sv_processes s) n \<noteq> None" if "snd (handleRestart w n s) \<noteq> []"
    using that stop_effects_cases [of n s] stop_again(1) [of n s "w_polls w"] by (auto simp: handleRestart_def split: if_splits)
  fix r assume r: "fst (handleRestart w n s) = Some r"
  then show "rs_Data r = NoData" by (auto simp: handleRestart_def)
next
  fix r assume "fst (handleRestart w n s) = Some r" "rs_Success r"
  then have "RestartProcess n s (w_polls w) (w_again w) (w_again_polls w) = Some (Inr ())" by (auto simp: handleRestart_def)
  note both = restart_again [OF this]
  have "stop_effects n s = [SetDesired n DesiredStopped]"
    using stop_effects_cases [of n s] stop_again [OF both(1)] by simp
  moreover note start_effects_last [of n "w_again w"]
  ultimately show "?P (snd (handleRestart w n s))"
    using both(1) stop_again [OF both(1)] start_again [OF both(2)] by (simp add: handleRestart_def)
qed

lemma honest_weaken: "true_answer s n P res \<Longrightarrow> (\<And>effs. P effs \<Longrightarrow> Q effs) \<Longrightarrow> true_answer s n Q res"
  by (simp add: true_answer_def)

lemma named_honest:
  assumes "rq_Command req \<in> {''start'', ''stop'', ''restart''}" and "rq_Args req = n # rest"
  shows "true_answer s n (came_true w req) (handleRequest text_of_error w req s)"
proof -
  consider "rq_Command req = ''start''" | "rq_Command req = ''stop''" | "rq_Command req = ''restart''" using assms(1) by auto
  then show ?thesis
  proof cases
    case 1
    then have "handleRequest text_of_error w req s = handleStart w n s"
      using assms(2) by (simp add: handleRequest_def with_name_def)
    with 1 assms(2) show ?thesis
      by (simp only:) (rule honest_weaken [OF handleStart_honest], simp add: came_true_def)
  next
    case 2
    then have "handleRequest text_of_error w req s = handleStop w n s"
      using assms(2) by (simp add: handleRequest_def with_name_def)
    with 2 assms(2) show ?thesis
      by (simp only:) (rule honest_weaken [OF handleStop_honest], simp add: came_true_def)
  next
    case 3
    then have "handleRequest text_of_error w req s = handleRestart w n s"
      using assms(2) by (simp add: handleRequest_def with_name_def)
    with 3 assms(2) show ?thesis
      by (simp only:) (rule honest_weaken [OF handleRestart_honest], simp add: came_true_def)
  qed
qed

lemma success_came_true:
  assumes "fst (handleRequest text_of_error w req s) = Some r" and "rs_Success r"
  shows "came_true w req (snd (handleRequest text_of_error w req s))"
proof (cases "rq_Command req \<in> {''start'', ''stop'', ''restart''}")
  case True
  moreover have "rq_Args req \<noteq> []" using True assms by (auto simp: handleRequest_def with_name_def failure_def)
  then obtain n rest where "rq_Args req = n # rest" by (cases "rq_Args req") auto
  ultimately have "true_answer s n (came_true w req) (handleRequest text_of_error w req s)" by (rule named_honest)
  with assms show ?thesis by (simp add: true_answer_def)
qed (simp add: came_true_def)


definition sample_surroundings :: surroundings where
  "sample_surroundings = \<lparr>w_order = [''db'', ''api''], w_now = 0,
     w_polls = [\<lparr>poll_program = sample_program_in StateStopped, poll_server = sample_stopped_db, poll_wake = NextTick\<rparr>],
     w_again = sample_stopped_db, w_again_polls = [], w_reload = Inl NoConfigurationFile\<rparr>"

definition sample_request :: Request where
  "sample_request = \<lparr>rq_Command = ''stop'', rq_Args = [''db'']\<rparr>"

lemma sample_request_answer:
  "handleRequest (\<lambda>_. ''?'') sample_surroundings sample_request sample_server =
     (Some (success ''process db stopped''), [SetDesired ''db'' DesiredStopped])"
  by (simp add: handleRequest_def with_name_def sample_request_def sample_surroundings_def handleStop_def StopProcess_def
      stop_effects_def setDesired_def sample_server_def Let_def awaitState_def sample_program_in_def GetState_def answer_def)


end
