(* ===== verification/Sctl.thy ===== *)
theory Sctl
  imports Ipc
begin

text \<open>
  The command line client, \<^verbatim>\<open>cmd/sctl/main.go\<close>, and what a message becomes on its way to it.

  The text of JSON is left out: \<open>json\<close> is the value a text denotes, \<open>response_json\<close> what
  \<^verbatim>\<open>encoding/json\<close> makes of the structs of \<^verbatim>\<open>internal/api/messages.go\<close> by their tags, and \<open>decode_any\<close> what it
  makes of a value that is read into an empty interface. A number becomes a \<^verbatim>\<open>float64\<close> there; \<open>rounded\<close> is the integer
  that the conversion back gives. Strings are valid UTF-8, as those of the configuration are.
  The flags arrive parsed, and the columns of a table as a list of cells, before they are aligned.
\<close>

section \<open>Messages on the wire\<close>

datatype json = JNull | JBool bool | JNum int | JStr string | JArr "json list" | JObj "(string \<times> json) list"

definition omit_empty :: "string \<Rightarrow> string \<Rightarrow> (string \<times> json) list" where
  "omit_empty key s = (if s = '''' then [] else [(key, JStr s)])"

definition omit_empty_list :: "string \<Rightarrow> string list \<Rightarrow> (string \<times> json) list" where
  "omit_empty_list key xs = (if xs = [] then [] else [(key, JArr (map JStr xs))])"

definition status_json :: "ProcessStatus \<Rightarrow> json" where
  "status_json ps = JObj ([(''name'', JStr (ps_Name ps)), (''state'', JStr (ps_State ps)), (''desired'', JStr (ps_Desired ps)),
     (''health'', JStr (ps_Health ps)), (''uptime'', JStr (ps_Uptime ps))] @ omit_empty ''reason'' (ps_Reason ps) @
     [(''pid'', JNum (ps_PID ps)), (''exit_code'', JNum (ps_ExitCode ps)), (''restart_count'', JNum (ps_RestartCount ps))])"

definition reload_json :: "ReloadResponse \<Rightarrow> json" where
  "reload_json r = JObj (omit_empty_list ''added'' (rr_Added r) @ omit_empty_list ''removed'' (rr_Removed r) @
     omit_empty_list ''changed'' (rr_Changed r))"

definition response_json :: "Response \<Rightarrow> json" where
  "response_json r = JObj ((case rs_Data r of
       NoData \<Rightarrow> []
     | Processes ps \<Rightarrow> [(''data'', JObj [(''processes'', JArr (map status_json ps))])]
     | Applied a \<Rightarrow> [(''data'', reload_json a)]) @ omit_empty ''message'' (rs_Message r) @ [(''success'', JBool (rs_Success r))])"

section \<open>Reading them\<close>

text \<open>The values of an empty interface; a map is the sequence of its assignments.\<close>

datatype any_value =
    ANil | ABool bool | AFloat int | AInt int | AString string
  | ASlice "any_value list" | AMap "(string \<times> any_value) list"

primrec decode_any :: "(int \<Rightarrow> int) \<Rightarrow> json \<Rightarrow> any_value" where
  "decode_any rounded JNull = ANil"
| "decode_any rounded (JBool b) = ABool b"
| "decode_any rounded (JNum n) = AFloat (rounded n)"
| "decode_any rounded (JStr s) = AString s"
| "decode_any rounded (JArr xs) = ASlice (map (decode_any rounded) xs)"
| "decode_any rounded (JObj kvs) = AMap (map (map_prod id (decode_any rounded)) kvs)"

primrec encode_any :: "any_value \<Rightarrow> json" where
  "encode_any ANil = JNull"
| "encode_any (ABool b) = JBool b"
| "encode_any (AFloat n) = JNum n"
| "encode_any (AInt n) = JNum n"
| "encode_any (AString s) = JStr s"
| "encode_any (ASlice xs) = JArr (map encode_any xs)"
| "encode_any (AMap kvs) = JObj (map (map_prod id encode_any) kvs)"

text \<open>\<^verbatim>\<open>m[key]\<close>, and the field of a struct, whose name is matched without regard to case; the last one counts.\<close>

definition any_lookup :: "(string \<times> any_value) list \<Rightarrow> string \<Rightarrow> any_value option" where
  "any_lookup kvs key = map_of (rev kvs) key"

definition json_field :: "(string \<times> json) list \<Rightarrow> string \<Rightarrow> json option" where
  "json_field kvs key = map_of (rev (map (map_prod ToLower id) kvs)) key"

record client_response =
  cr_Data :: any_value
  cr_Message :: string
  cr_Success :: bool

definition string_field :: "json option \<Rightarrow> string option" where
  "string_field v = (case v of None \<Rightarrow> Some '''' | Some JNull \<Rightarrow> Some '''' | Some (JStr s) \<Rightarrow> Some s | _ \<Rightarrow> None)"

definition bool_field :: "json option \<Rightarrow> bool option" where
  "bool_field v = (case v of None \<Rightarrow> Some False | Some JNull \<Rightarrow> Some False | Some (JBool b) \<Rightarrow> Some b | _ \<Rightarrow> None)"

text \<open>\<open>None\<close>: the decoder reports an error.\<close>

definition decode_response :: "(int \<Rightarrow> int) \<Rightarrow> json \<Rightarrow> client_response option" where
  "decode_response rounded j =
     (case j of
        JNull \<Rightarrow> Some \<lparr>cr_Data = ANil, cr_Message = '''', cr_Success = False\<rparr>
      | JObj kvs \<Rightarrow>
          (case (string_field (json_field kvs ''message''), bool_field (json_field kvs ''success'')) of
             (Some msg, Some ok) \<Rightarrow>
               Some \<lparr>cr_Data = (case json_field kvs ''data'' of None \<Rightarrow> ANil | Some d \<Rightarrow> decode_any rounded d),
                 cr_Message = msg, cr_Success = ok\<rparr>
           | _ \<Rightarrow> None)
      | _ \<Rightarrow> None)"

fun string_items :: "json list \<Rightarrow> string list option" where
  "string_items [] = Some []"
| "string_items (JStr s # xs) = map_option (\<lambda>ss. s # ss) (string_items xs)"
| "string_items (JNull # xs) = map_option (\<lambda>ss. '''' # ss) (string_items xs)"
| "string_items (_ # xs) = None"

definition strings_field :: "json option \<Rightarrow> string list option" where
  "strings_field v = (case v of None \<Rightarrow> Some [] | Some JNull \<Rightarrow> Some [] | Some (JArr xs) \<Rightarrow> string_items xs | _ \<Rightarrow> None)"

definition decode_reload :: "json \<Rightarrow> ReloadResponse option" where
  "decode_reload j =
     (case j of
        JNull \<Rightarrow> Some \<lparr>rr_Added = [], rr_Removed = [], rr_Changed = []\<rparr>
      | JObj kvs \<Rightarrow>
          (case (strings_field (json_field kvs ''added''), strings_field (json_field kvs ''removed''),
                 strings_field (json_field kvs ''changed'')) of
             (Some a, Some r, Some c) \<Rightarrow> Some \<lparr>rr_Added = a, rr_Removed = r, rr_Changed = c\<rparr>
           | _ \<Rightarrow> None)
      | _ \<Rightarrow> None)"

definition reloadDiff :: "client_response \<Rightarrow> ReloadResponse option" where
  "reloadDiff resp = decode_reload (encode_any (cr_Data resp))"

section \<open>Columns\<close>

fun row_list :: "any_value list \<Rightarrow> (string \<times> any_value) list list" where
  "row_list [] = []"
| "row_list (AMap row # ps) = row # row_list ps"
| "row_list (_ # ps) = row_list ps"

definition statusRows :: "client_response \<Rightarrow> (string \<times> any_value) list list option" where
  "statusRows resp =
     (case cr_Data resp of
        AMap data \<Rightarrow> (case any_lookup data ''processes'' of Some (ASlice ps) \<Rightarrow> Some (row_list ps) | _ \<Rightarrow> None)
      | _ \<Rightarrow> None)"

definition healthColumn :: "string \<Rightarrow> string" where
  "healthColumn health = (if health = '''' \<or> health = ''NONE'' then ''-'' else health)"

definition pidColumn :: "string \<Rightarrow> int \<Rightarrow> string" where
  "pidColumn st pid = (if st \<in> set [''RUNNING'', ''STARTING'', ''STOPPING''] then itoa pid else ''N/A'')"

definition getString :: "(string \<times> any_value) list \<Rightarrow> string \<Rightarrow> string" where
  "getString m key = (case any_lookup m key of Some (AString s) \<Rightarrow> s | _ \<Rightarrow> '''')"

definition getInt :: "(string \<times> any_value) list \<Rightarrow> string \<Rightarrow> int" where
  "getInt m key = (case any_lookup m key of Some (AFloat n) \<Rightarrow> n | Some (AInt n) \<Rightarrow> n | _ \<Rightarrow> 0)"

section \<open>What is printed\<close>

datatype printed = Line string | Row "string list"

fun Join :: "string \<Rightarrow> string list \<Rightarrow> string" where
  "Join sep [] = ''''"
| "Join sep [x] = x"
| "Join sep (x # xs) = x @ sep @ Join sep xs"

definition printReload :: "client_response \<Rightarrow> printed list" where
  "printReload resp = Line (cr_Message resp) #
     (case reloadDiff resp of
        None \<Rightarrow> []
      | Some applied \<Rightarrow>
          concat (map (\<lambda>(label, names). if 0 < length names then [Line (''  '' @ label @ '': '' @ Join '', '' names)] else [])
            [(''added'', rr_Added applied), (''removed'', rr_Removed applied), (''changed'', rr_Changed applied)]))"

definition table_head :: "printed list" where
  "table_head =
     [Row [''NAME'', ''STATE'', ''DESIRED'', ''HEALTH'', ''PID'', ''EXIT_CODE'', ''RESTARTS'', ''UPTIME''],
      Row [''----'', ''-----'', ''-------'', ''------'', ''---'', ''---------'', ''--------'', ''------'']]"

definition status_row :: "(string \<times> any_value) list \<Rightarrow> printed" where
  "status_row row =
     (let st = getString row ''state''
      in Row [getString row ''name'', st, getString row ''desired'', healthColumn (getString row ''health''),
           pidColumn st (getInt row ''pid''), itoa (getInt row ''exit_code''), itoa (getInt row ''restart_count''),
           getString row ''uptime''])"

definition printStatus :: "client_response \<Rightarrow> printed list" where
  "printStatus resp =
     (case statusRows resp of None \<Rightarrow> [Line (cr_Message resp)] | Some rows \<Rightarrow> table_head @ map status_row rows)"

definition detail_rows :: "(string \<times> any_value) list \<Rightarrow> printed list" where
  "detail_rows row =
     (let st = getString row ''state''
      in [Row [''Name:'', getString row ''name''], Row [''State:'', st], Row [''Desired:'', getString row ''desired''],
          Row [''Health:'', healthColumn (getString row ''health'')], Row [''PID:'', pidColumn st (getInt row ''pid'')],
          Row [''Exit code:'', itoa (getInt row ''exit_code'')], Row [''Restarts:'', itoa (getInt row ''restart_count'')],
          Row [''Uptime:'', getString row ''uptime'']] @
         (if getString row ''reason'' \<noteq> '''' then [Row [''Reason:'', getString row ''reason'']] else []))"

definition printProcessDetail :: "client_response \<Rightarrow> printed list" where
  "printProcessDetail resp =
     (case statusRows resp of Some (row # _) \<Rightarrow> detail_rows row | _ \<Rightarrow> [Line (cr_Message resp)])"

definition printUsage :: "printed list" where
  "printUsage = map Line
     [''Usage: sctl [OPTIONS] COMMAND [ARGS]'', '''', ''Commands:'',
      ''  status              Show status of all processes'',
      ''  status <name>       Show one process in detail, including why it is not running'',
      ''  start <name>        Start a process'', ''  stop <name>         Stop a process'',
      ''  restart <name>      Restart a process'', ''  reload              Reload configuration'',
      ''  shutdown            Shutdown supavisor'', '''', ''Options (must precede the command):'',
      ''  -s, -socket PATH    Path to supavisor socket (default: /tmp/supavisor.sock)'',
      ''  -o, -output FORMAT  Output format: table (default) or json'',
      ''  -version            Print version information and exit'']"

section \<open>The command\<close>

record options =
  op_socket :: string
  op_output :: string
  op_version :: bool
  op_args :: "string list"

datatype transport_error = DialFailed | DeadlineFailed | SendFailed | ReceiveFailed

datatype diagnosis =
    UnknownFormat string | OptionAfterCommand string
  | Fatal transport_error | FatalRender
  | Refusal string

record sctl_outcome =
  oc_out :: "printed list"
  oc_err :: "diagnosis list"
  oc_code :: int

definition sendRequest ::
  "(int \<Rightarrow> int) \<Rightarrow> (string \<Rightarrow> Request \<Rightarrow> transport_error + json) \<Rightarrow> string \<Rightarrow> string \<Rightarrow> string list \<Rightarrow> transport_error + client_response" where
  "sendRequest rounded transport socket command args =
     (case transport socket \<lparr>rq_Command = command, rq_Args = args\<rparr> of
        Inl e \<Rightarrow> Inl e
      | Inr j \<Rightarrow> (case decode_response rounded j of None \<Rightarrow> Inl ReceiveFailed | Some resp \<Rightarrow> Inr resp))"

text \<open>\<open>version\<close> is the banner of the build, \<open>render\<close> the text of a response as indented JSON.\<close>

definition sctl ::
  "string \<Rightarrow> (client_response \<Rightarrow> string option) \<Rightarrow> (int \<Rightarrow> int) \<Rightarrow> (string \<Rightarrow> Request \<Rightarrow> transport_error + json) \<Rightarrow> options \<Rightarrow> sctl_outcome" where
  "sctl version render rounded transport opts =
     (if op_version opts then \<lparr>oc_out = [Line version], oc_err = [], oc_code = 0\<rparr>
      else if op_output opts \<noteq> ''table'' \<and> op_output opts \<noteq> ''json''
      then \<lparr>oc_out = [], oc_err = [UnknownFormat (op_output opts)], oc_code = 1\<rparr>
      else case op_args opts of
        [] \<Rightarrow> \<lparr>oc_out = printUsage, oc_err = [], oc_code = 1\<rparr>
      | command # args \<Rightarrow>
          (case find (\<lambda>arg. HasPrefix arg ''-'') args of
             Some arg \<Rightarrow> \<lparr>oc_out = printUsage, oc_err = [OptionAfterCommand arg], oc_code = 1\<rparr>
           | None \<Rightarrow>
          (case sendRequest rounded transport (op_socket opts) command args of
             Inl e \<Rightarrow> \<lparr>oc_out = [], oc_err = [Fatal e], oc_code = 1\<rparr>
           | Inr resp \<Rightarrow>
               if op_output opts = ''json''
               then (case render resp of
                       None \<Rightarrow> \<lparr>oc_out = [], oc_err = [FatalRender], oc_code = 1\<rparr>
                     | Some t \<Rightarrow> \<lparr>oc_out = [Line t], oc_err = [], oc_code = (if cr_Success resp then 0 else 1)\<rparr>)
               else if \<not> cr_Success resp then \<lparr>oc_out = [], oc_err = [Refusal (cr_Message resp)], oc_code = 1\<rparr>
               else \<lparr>oc_out = (if command = ''status'' then (if 0 < length args then printProcessDetail resp else printStatus resp)
                       else if command = ''reload'' then printReload resp
                       else [Line (cr_Message resp)]), oc_err = [], oc_code = 0\<rparr>)))"

section \<open>Through the wire and back\<close>

lemma keys_lower [simp]:
  "ToLower ''data'' = ''data''" "ToLower ''message'' = ''message''" "ToLower ''success'' = ''success''"
  "ToLower ''added'' = ''added''" "ToLower ''removed'' = ''removed''" "ToLower ''changed'' = ''changed''"
  by code_simp+

lemma decode_response_json:
  "decode_response rounded (response_json r) =
     Some \<lparr>cr_Data = (case rs_Data r of
         NoData \<Rightarrow> ANil
       | Processes ps \<Rightarrow> AMap [(''processes'', ASlice (map (decode_any rounded) (map status_json ps)))]
       | Applied a \<Rightarrow> decode_any rounded (reload_json a)),
       cr_Message = rs_Message r, cr_Success = rs_Success r\<rparr>"
  by (cases "rs_Data r")
    (simp_all add: decode_response_def response_json_def json_field_def omit_empty_def string_field_def bool_field_def)

lemma decode_any_status: "\<exists>row. decode_any rounded (status_json ps) = AMap row"
  by (simp add: status_json_def)

lemma row_list_maps: "row_list (map (\<lambda>x. AMap (f x)) xs) = map f xs"
  by (induction xs) auto

definition wire_row :: "(int \<Rightarrow> int) \<Rightarrow> ProcessStatus \<Rightarrow> (string \<times> any_value) list" where
  "wire_row rounded ps = (case decode_any rounded (status_json ps) of AMap row \<Rightarrow> row | _ \<Rightarrow> [])"

lemma statusRows_wire:
  "cr_Data resp = AMap [(''processes'', ASlice (map (decode_any rounded) (map status_json ps)))] \<Longrightarrow>
     statusRows resp = Some (map (wire_row rounded) ps)"
proof -
  assume "cr_Data resp = AMap [(''processes'', ASlice (map (decode_any rounded) (map status_json ps)))]"
  moreover have "map (decode_any rounded) (map status_json ps) = map (\<lambda>x. AMap (wire_row rounded x)) ps"
    by (simp add: wire_row_def status_json_def)
  ultimately show ?thesis by (simp add: statusRows_def any_lookup_def row_list_maps del: map_map)
qed

lemma wire_row_fields [simp]:
  "getString (wire_row rounded ps) ''name'' = ps_Name ps" "getString (wire_row rounded ps) ''state'' = ps_State ps"
  "getString (wire_row rounded ps) ''desired'' = ps_Desired ps" "getString (wire_row rounded ps) ''health'' = ps_Health ps"
  "getString (wire_row rounded ps) ''uptime'' = ps_Uptime ps" "getString (wire_row rounded ps) ''reason'' = ps_Reason ps"
  "getInt (wire_row rounded ps) ''pid'' = rounded (ps_PID ps)" "getInt (wire_row rounded ps) ''exit_code'' = rounded (ps_ExitCode ps)"
  "getInt (wire_row rounded ps) ''restart_count'' = rounded (ps_RestartCount ps)"
  by (simp_all add: wire_row_def status_json_def getString_def getInt_def any_lookup_def omit_empty_def)

lemma string_items_JStr [simp]: "string_items (map JStr xs) = Some xs"
  by (induction xs) auto

lemma encode_decode_strings: "map (encode_any \<circ> decode_any rounded) (map JStr xs) = map JStr xs"
  by (induction xs) auto

lemma reloadDiff_wire: "reloadDiff \<lparr>cr_Data = decode_any rounded (reload_json a), cr_Message = m, cr_Success = b\<rparr> = Some a"
proof -
  have "encode_any (decode_any rounded (reload_json a)) = reload_json a"
    by (simp add: reload_json_def omit_empty_list_def)
  moreover have "decode_reload (reload_json a) = Some a"
    by (simp add: reload_json_def decode_reload_def omit_empty_list_def json_field_def strings_field_def)
  ultimately show ?thesis by (simp add: reloadDiff_def)
qed

section \<open>What the user sees\<close>

text \<open>A daemon that answers; one that is still busy when the client gives up does not.\<close>

definition answering ::
  "(reload_error \<Rightarrow> string) \<Rightarrow> surroundings \<Rightarrow> server \<Rightarrow> string \<Rightarrow> Request \<Rightarrow> transport_error + json" where
  "answering text_of_error w s socket req =
     (case fst (handleRequest text_of_error w req s) of None \<Rightarrow> Inl ReceiveFailed | Some r \<Rightarrow> Inr (response_json r))"

text \<open>The cells of a program, from its state in the server.\<close>

definition pid_cell :: "State \<Rightarrow> int \<Rightarrow> string" where
  "pid_cell st pid = (if st \<in> {StateRunning, StateStarting, StateStopping} then itoa pid else ''N/A'')"

definition health_cell :: "Health \<Rightarrow> string" where
  "health_cell h = (if h = HealthNone then ''-'' else health_text h)"

definition shown_row :: "int \<Rightarrow> server \<Rightarrow> string \<Rightarrow> program \<Rightarrow> printed" where
  "shown_row now s n p = Row [n, state_text (GetState p), desired_text (fmlookup (sv_desired s) n), health_cell (pg_health p),
     pid_cell (GetState p) (pg_pid p), itoa (p_exitCode (pg_proc p)), itoa (p_restartCount (pg_proc p)),
     st_Uptime (program_status now s n p)]"

definition shown_detail :: "int \<Rightarrow> server \<Rightarrow> string \<Rightarrow> program \<Rightarrow> printed list" where
  "shown_detail now s n p =
     [Row [''Name:'', n], Row [''State:'', state_text (GetState p)], Row [''Desired:'', desired_text (fmlookup (sv_desired s) n)],
      Row [''Health:'', health_cell (pg_health p)], Row [''PID:'', pid_cell (GetState p) (pg_pid p)],
      Row [''Exit code:'', itoa (p_exitCode (pg_proc p))], Row [''Restarts:'', itoa (p_restartCount (pg_proc p))],
      Row [''Uptime:'', st_Uptime (program_status now s n p)]] @
     (let reason = notRunningReason s n (GetState p) (p_restartCount (pg_proc p)) (p_exitCode (pg_proc p))
      in if reason = '''' then [] else [Row [''Reason:'', reason]])"

lemma pidColumn_text: "pidColumn (state_text st) pid = pid_cell st pid"
  by (cases st) (simp_all add: pidColumn_def pid_cell_def)

lemma healthColumn_text: "healthColumn (health_text h) = health_cell h"
  by (cases h) (simp_all add: healthColumn_def health_cell_def)

lemma process_status_sel [simp]:
  "ps_Name (process_status st) = st_Name st" "ps_State (process_status st) = state_text (st_State st)"
  "ps_Desired (process_status st) = desired_text (st_Desired st)" "ps_Health (process_status st) = health_text (st_Health st)"
  "ps_Uptime (process_status st) = st_Uptime st" "ps_Reason (process_status st) = st_Reason st"
  "ps_PID (process_status st) = st_PID st" "ps_ExitCode (process_status st) = st_ExitCode st"
  "ps_RestartCount (process_status st) = st_RestartCount st"
  by (simp_all add: process_status_def)

lemma program_status_sel [simp]:
  "st_Name (program_status now s n p) = n" "st_State (program_status now s n p) = GetState p"
  "st_Desired (program_status now s n p) = fmlookup (sv_desired s) n" "st_Health (program_status now s n p) = pg_health p"
  "st_Reason (program_status now s n p) = notRunningReason s n (GetState p) (p_restartCount (pg_proc p)) (p_exitCode (pg_proc p))"
  "st_PID (program_status now s n p) = pg_pid p" "st_ExitCode (program_status now s n p) = p_exitCode (pg_proc p)"
  "st_RestartCount (program_status now s n p) = p_restartCount (pg_proc p)"
  by (simp_all add: program_status_def Let_def)

definition exact_numbers :: "(int \<Rightarrow> int) \<Rightarrow> program \<Rightarrow> bool" where
  "exact_numbers rounded p \<longleftrightarrow> rounded (pg_pid p) = pg_pid p \<and> rounded (p_exitCode (pg_proc p)) = p_exitCode (pg_proc p) \<and>
     rounded (p_restartCount (pg_proc p)) = p_restartCount (pg_proc p)"

lemma status_row_wire:
  "exact_numbers rounded p \<Longrightarrow> status_row (wire_row rounded (process_status (program_status now s n p))) = shown_row now s n p"
  by (simp add: status_row_def shown_row_def exact_numbers_def pidColumn_text healthColumn_text)

lemma detail_rows_wire:
  "exact_numbers rounded p \<Longrightarrow> detail_rows (wire_row rounded (process_status (program_status now s n p))) = shown_detail now s n p"
  by (simp add: detail_rows_def shown_detail_def exact_numbers_def pidColumn_text healthColumn_text Let_def)

lemma selectProcess_map:
  "selectProcess (map (\<lambda>n. program_status now s n (f n)) ns) name = (if name \<in> set ns then [program_status now s name (f name)] else [])"
  by (induction ns) auto

lemma sctl_answered:
  assumes "op_version opts = False" and "op_output opts = ''table''" and "op_args opts = command # args"
    and "\<forall>arg \<in> set args. \<not> HasPrefix arg ''-''" and "transport (op_socket opts) \<lparr>rq_Command = command, rq_Args = args\<rparr> = Inr (response_json r)"
    and "rs_Success r"
  shows "sctl version render rounded transport opts =
    (let resp = the (decode_response rounded (response_json r))
     in \<lparr>oc_out = (if command = ''status'' then (if 0 < length args then printProcessDetail resp else printStatus resp)
           else if command = ''reload'' then printReload resp else [Line (cr_Message resp)]), oc_err = [], oc_code = 0\<rparr>)"
proof -
  have "find (\<lambda>arg. HasPrefix arg ''-'') args = None" using assms(4) by (simp add: find_None_iff)
  with assms show ?thesis by (simp add: sctl_def sendRequest_def decode_response_json)
qed

lemma print_wire:
  assumes "resp = the (decode_response rounded (response_json \<lparr>rs_Data = Processes ps, rs_Message = m, rs_Success = b\<rparr>))"
  shows "printStatus resp = table_head @ map (\<lambda>x. status_row (wire_row rounded x)) ps"
    and "ps = [x] \<Longrightarrow> printProcessDetail resp = detail_rows (wire_row rounded x)"
proof -
  have rows: "statusRows resp = Some (map (wire_row rounded) ps)"
    by (rule statusRows_wire) (simp add: assms decode_response_json)
  then show "printStatus resp = table_head @ map (\<lambda>x. status_row (wire_row rounded x)) ps"
    by (simp add: printStatus_def)
  show "printProcessDetail resp = detail_rows (wire_row rounded x)" if "ps = [x]"
    using rows that by (simp add: printProcessDetail_def)
qed

lemma daemon_status:
  "answering text_of_error w s socket \<lparr>rq_Command = ''status'', rq_Args = args\<rparr> = Inr (response_json (handleStatus w args s))"
  by (simp add: answering_def handleRequest_def)

lemma sctl_status_answered:
  assumes "op_version opts = False" and "op_output opts = ''table''" and "op_args opts = ''status'' # args"
    and "\<forall>arg \<in> set args. \<not> HasPrefix arg ''-''" and "rs_Success (handleStatus w args s)"
    and "resp = the (decode_response rounded (response_json (handleStatus w args s)))"
  shows "sctl version render rounded (answering text_of_error w s) opts =
    \<lparr>oc_out = (if 0 < length args then printProcessDetail resp else printStatus resp), oc_err = [], oc_code = 0\<rparr>"
  using sctl_answered [where transport = "answering text_of_error w s" and r = "handleStatus w args s", OF assms(1-4) _ assms(5)]
  by (simp add: daemon_status assms(6) Let_def)

text \<open>
  C28. \<open>sctl status\<close> prints one line for every program the daemon has, in the order of their names, with
  what the daemon holds about it; \<open>sctl status <name>\<close> prints the one program, its reason if it has one, or
  fails because it is not known. What the wire does to numbers does not show as long as they fit.
\<close>

theorem sctl_status_shows:
  assumes "op_version opts = False" and "op_output opts = ''table''" and "ranges (w_order w) (sv_processes s)"
    and "\<forall>n. \<bar>n\<bar> \<le> 2 ^ 53 \<longrightarrow> rounded n = n"
    and "\<forall>n p. fmlookup (sv_processes s) n = Some p \<longrightarrow>
      \<bar>pg_pid p\<bar> \<le> 2 ^ 53 \<and> \<bar>p_exitCode (pg_proc p)\<bar> \<le> 2 ^ 53 \<and> \<bar>p_restartCount (pg_proc p)\<bar> \<le> 2 ^ 53"
  shows "(op_args opts = [''status''] \<longrightarrow> sctl version render rounded (answering text_of_error w s) opts =
      \<lparr>oc_out = table_head @ map (\<lambda>n. shown_row (w_now w) s n (the (fmlookup (sv_processes s) n)))
         (sorted_list_of_set (fmdom' (sv_processes s))), oc_err = [], oc_code = 0\<rparr>) \<and>
    (op_args opts = [''status'', name] \<and> \<not> HasPrefix name ''-'' \<longrightarrow>
      sctl version render rounded (answering text_of_error w s) opts =
      (case fmlookup (sv_processes s) name of
         Some p \<Rightarrow> \<lparr>oc_out = shown_detail (w_now w) s name p, oc_err = [], oc_code = 0\<rparr>
       | None \<Rightarrow> \<lparr>oc_out = [], oc_err = [Refusal (''process '' @ name @ '' not found'')], oc_code = 1\<rparr>))"
proof (intro conjI impI)
  let ?all = "sorted_list_of_set (fmdom' (sv_processes s))" and ?p = "\<lambda>n. the (fmlookup (sv_processes s) n)"
  have exact: "exact_numbers rounded p" if "fmlookup (sv_processes s) n = Some p" for n p
    using assms(4,5) that by (simp add: exact_numbers_def)
  have exact_all: "exact_numbers rounded (?p n)" if "n \<in> set ?all" for n
    using that exact by (auto simp: in_dom_iff)
  note list = GetStatus_eq [OF assms(3), where now = "w_now w"]
  show "sctl version render rounded (answering text_of_error w s) opts =
      \<lparr>oc_out = table_head @ map (\<lambda>n. shown_row (w_now w) s n (?p n)) ?all, oc_err = [], oc_code = 0\<rparr>"
    if "op_args opts = [''status'']"
  proof -
    have answer: "handleStatus w [] s =
        \<lparr>rs_Data = Processes (map (\<lambda>n. process_status (program_status (w_now w) s n (?p n))) ?all), rs_Message = '''', rs_Success = True\<rparr>"
      by (simp add: handleStatus_def list Let_def)
    have rows: "map (\<lambda>x. status_row (wire_row rounded x)) (map (\<lambda>n. process_status (program_status (w_now w) s n (?p n))) ?all) =
        map (\<lambda>n. shown_row (w_now w) s n (?p n)) ?all"
      using exact_all by (simp add: status_row_wire)
    show ?thesis
      using sctl_status_answered [OF assms(1,2) that _ _ refl] print_wire(1) [OF refl] rows
      by (simp add: answer del: map_map)
  qed
  assume args: "op_args opts = [''status'', name] \<and> \<not> HasPrefix name ''-''"
  then have no_option: "find (\<lambda>arg. HasPrefix arg ''-'') [name] = None" by simp
  show "sctl version render rounded (answering text_of_error w s) opts =
      (case fmlookup (sv_processes s) name of
         Some p \<Rightarrow> \<lparr>oc_out = shown_detail (w_now w) s name p, oc_err = [], oc_code = 0\<rparr>
       | None \<Rightarrow> \<lparr>oc_out = [], oc_err = [Refusal (''process '' @ name @ '' not found'')], oc_code = 1\<rparr>)"
  proof (cases "fmlookup (sv_processes s) name")
    case None
    then have "handleStatus w [name] s = failure (''process '' @ name @ '' not found'')"
      by (simp add: handleStatus_def list selectProcess_map Let_def in_dom_iff)
    with None args assms(1,2) show ?thesis
      by (simp add: sctl_def sendRequest_def daemon_status decode_response_json failure_def)
  next
    case (Some p)
    then have "handleStatus w [name] s =
        \<lparr>rs_Data = Processes [process_status (program_status (w_now w) s name p)], rs_Message = '''', rs_Success = True\<rparr>"
      by (simp add: handleStatus_def list selectProcess_map Let_def in_dom_iff)
    with Some args exact [OF Some] show ?thesis
      using sctl_status_answered [OF assms(1,2) conjunct1 [OF args] _ _ refl] print_wire(2) [OF refl refl]
      by (simp add: detail_rows_wire)
  qed
qed

text \<open>A daemon with two programs, one of them stopped on purpose.\<close>

definition sample_options :: "string list \<Rightarrow> options" where
  "sample_options args = \<lparr>op_socket = ''/tmp/s'', op_output = ''table'', op_version = False, op_args = args\<rparr>"

theorem sctl_status_shows_witness:
  "oc_code (sctl ''v'' (\<lambda>_. None) id (answering (\<lambda>_. ''?'') sample_surroundings sample_stopped_db) (sample_options [''status''])) = 0 \<and>
   oc_err (sctl ''v'' (\<lambda>_. None) id (answering (\<lambda>_. ''?'') sample_surroundings sample_stopped_db) (sample_options [''status'', ''db2''])) =
     [Refusal ''process db2 not found'']"
proof -
  have ranged: "ranges (w_order sample_surroundings) (sv_processes sample_stopped_db)"
    by (simp add: ranges_def sample_surroundings_def sample_stopped_db_def)
  have numbers: "\<forall>n p. fmlookup (sv_processes sample_stopped_db) n = Some p \<longrightarrow>
      \<bar>pg_pid p\<bar> \<le> 2 ^ 53 \<and> \<bar>p_exitCode (pg_proc p)\<bar> \<le> 2 ^ 53 \<and> \<bar>p_restartCount (pg_proc p)\<bar> \<le> 2 ^ 53"
    by (auto simp: sample_stopped_db_def sample_program_in_def NewProcess_def split: if_splits)
  have none: "fmlookup (sv_processes sample_stopped_db) ''db2'' = None" by (simp add: sample_stopped_db_def)
  show ?thesis
    using sctl_status_shows [where opts = "sample_options [''status'']" and rounded = id, OF _ _ ranged _ numbers]
      sctl_status_shows [where opts = "sample_options [''status'', ''db2'']" and rounded = id and name = "''db2''", OF _ _ ranged _ numbers] none
    by (simp add: sample_options_def HasPrefix_def)
qed

text \<open>The lines of a plan.\<close>

definition plan_lines :: "ReloadResponse \<Rightarrow> printed list" where
  "plan_lines a =
     (if rr_Added a = [] then [] else [Line (''  added: '' @ Join '', '' (rr_Added a))]) @
     (if rr_Removed a = [] then [] else [Line (''  removed: '' @ Join '', '' (rr_Removed a))]) @
     (if rr_Changed a = [] then [] else [Line (''  changed: '' @ Join '', '' (rr_Changed a))])"

lemma printReload_wire:
  "printReload \<lparr>cr_Data = decode_any rounded (reload_json a), cr_Message = m, cr_Success = b\<rparr> = Line m # plan_lines a"
  "printReload \<lparr>cr_Data = ANil, cr_Message = m, cr_Success = b\<rparr> = [Line m]"
  by (simp_all add: printReload_def reloadDiff_wire plan_lines_def reloadDiff_def[of "\<lparr>cr_Data = ANil, cr_Message = m, cr_Success = b\<rparr>"] decode_reload_def)



end
