(* ===== verification/Capture.thy ===== *)
theory Capture
  imports Command Convert LogWriter Machine "HOL-Library.Sublist"
begin

text \<open>
  The capture of a program's output and the command it is run with: \<open>startLogging\<close>, \<open>addLogStream\<close>,
  \<open>drainStream\<close>, \<open>closeChildEnds\<close>, \<open>stopLogging\<close>, \<open>buildCommand\<close> and \<open>processEnv\<close> of
  \<^verbatim>\<open>internal/process/process.go\<close>.

  The first part counts descriptors: which of them the daemon has open, with the goroutines that drain a
  pipe, after every way a start can go. The second is the drain itself, a function of all that is read from the pipe
  before it ends, over any sink. The third puts a program, its pipe and its drain side by side.
\<close>

section \<open>Descriptors\<close>

datatype fd = SinkFd nat | ReadEnd nat | ChildEnd nat    \<comment> \<open>of the n-th stream of the process\<close>

record logStream =
  ls_id :: nat
  ls_path :: string
  ls_maxBytes :: int
  ls_backups :: int
  ls_maxAge :: int
  ls_childEnd :: bool    \<comment> \<open>not nil\<close>

record capture =
  cap_streams :: "logStream list"
  cap_open :: "fd set"
  cap_draining :: "nat set"
  cap_next :: nat

datatype stream_open = SinkFails | PipeFails | Opens

datatype capture_error = LogFileFailed string | PipeFailed string | InvalidCommand string | SpawnFailed

definition close_fd :: "fd \<Rightarrow> capture \<Rightarrow> capture" where
  "close_fd d s = s\<lparr>cap_open := cap_open s - {d}\<rparr>"

definition open_fds :: "fd set \<Rightarrow> capture \<Rightarrow> capture" where
  "open_fds ds s = s\<lparr>cap_open := cap_open s \<union> ds\<rparr>"

definition addLogStream ::
  "(string \<Rightarrow> stream_open) \<Rightarrow> string \<Rightarrow> int \<Rightarrow> int \<Rightarrow> int \<Rightarrow> capture \<Rightarrow> (capture_error + logStream) \<times> capture" where
  "addLogStream outs path maxBytes backups maxAge s =
     (let n = cap_next s; s0 = s\<lparr>cap_next := Suc n\<rparr>
      in case outs path of
           SinkFails \<Rightarrow> (Inl (LogFileFailed path), s0)
         | PipeFails \<Rightarrow> (Inl (PipeFailed path), close_fd (SinkFd n) (open_fds {SinkFd n} s0))
         | Opens \<Rightarrow>
             (let stream = \<lparr>ls_id = n, ls_path = path, ls_maxBytes = maxBytes, ls_backups = backups, ls_maxAge = maxAge, ls_childEnd = True\<rparr>;
                  s1 = open_fds {ReadEnd n, ChildEnd n} (open_fds {SinkFd n} s0)
              in (Inr stream, s1\<lparr>cap_streams := cap_streams s1 @ [stream], cap_draining := insert n (cap_draining s1)\<rparr>)))"

definition child_end :: "logStream \<Rightarrow> fd option" where
  "child_end stream = (if ls_childEnd stream then Some (ChildEnd (ls_id stream)) else None)"

text \<open>One stream of its own, when it has a path.\<close>

definition own_stream ::
  "(string \<Rightarrow> stream_open) \<Rightarrow> string \<Rightarrow> int \<Rightarrow> int \<Rightarrow> int \<Rightarrow> capture \<Rightarrow> (capture_error + fd option) \<times> capture" where
  "own_stream outs path maxBytes backups maxAge s =
     (if path = '''' then (Inr None, s)
      else case addLogStream outs path maxBytes backups maxAge s of
             (Inl e, s') \<Rightarrow> (Inl e, s')
           | (Inr stream, s') \<Rightarrow> (Inr (child_end stream), s'))"

definition startLogging ::
  "(string \<Rightarrow> stream_open) \<Rightarrow> ProgramConfig \<Rightarrow> capture \<Rightarrow> (capture_error + fd option \<times> fd option) \<times> capture" where
  "startLogging outs cfg s =
     (if pc_StdoutLogfile cfg \<noteq> '''' \<and> pc_StdoutLogfile cfg = pc_StderrLogfile cfg
      then (case addLogStream outs (pc_StdoutLogfile cfg)
                   (max (pc_StdoutLogfileMaxBytes cfg) (pc_StderrLogfileMaxBytes cfg))
                   (max (pc_StdoutLogfileBackups cfg) (pc_StderrLogfileBackups cfg))
                   (max (pc_StdoutLogfileMaxAge cfg) (pc_StderrLogfileMaxAge cfg)) s of
              (Inl e, s') \<Rightarrow> (Inl e, s')
            | (Inr stream, s') \<Rightarrow> (Inr (child_end stream, child_end stream), s'))
      else (case own_stream outs (pc_StdoutLogfile cfg) (pc_StdoutLogfileMaxBytes cfg) (pc_StdoutLogfileBackups cfg)
                   (pc_StdoutLogfileMaxAge cfg) s of
              (Inl e, s1) \<Rightarrow> (Inl e, s1)
            | (Inr stdout, s1) \<Rightarrow>
                (case own_stream outs (pc_StderrLogfile cfg) (pc_StderrLogfileMaxBytes cfg) (pc_StderrLogfileBackups cfg)
                        (pc_StderrLogfileMaxAge cfg) s1 of
                   (Inl e, s2) \<Rightarrow> (Inl e, s2)
                 | (Inr stderr, s2) \<Rightarrow> (Inr (stdout, stderr), s2))))"

definition close_child_end :: "logStream \<Rightarrow> capture \<Rightarrow> capture" where
  "close_child_end stream s = (if ls_childEnd stream then close_fd (ChildEnd (ls_id stream)) s else s)"

definition closeChildEnds :: "capture \<Rightarrow> capture" where
  "closeChildEnds s =
     (fold close_child_end (cap_streams s) s)\<lparr>cap_streams := map (\<lambda>stream. stream\<lparr>ls_childEnd := False\<rparr>) (cap_streams s)\<rparr>"

text \<open>
  The end of one stream. Either way its drain is over afterwards: \<open>late n\<close> says that it was not within
  \<^verbatim>\<open>logDrainTimeout\<close>, and that closing the read end made it so.
\<close>

definition stop_stream :: "(nat \<Rightarrow> bool) \<Rightarrow> logStream \<Rightarrow> capture \<Rightarrow> capture" where
  "stop_stream late stream s =
     (let n = ls_id stream;
          s1 = close_child_end stream s;
          s2 = (if late n then close_fd (ReadEnd n) s1 else s1);
          s3 = s2\<lparr>cap_draining := cap_draining s2 - {n}\<rparr>
      in close_fd (SinkFd n) (close_fd (ReadEnd n) s3))"

definition stopLogging :: "(nat \<Rightarrow> bool) \<Rightarrow> capture \<Rightarrow> capture" where
  "stopLogging late s = fold (stop_stream late) (cap_streams s) (s\<lparr>cap_streams := []\<rparr>)"

section \<open>The command\<close>

record command =
  ec_args :: "string list"
  ec_Setpgid :: bool
  ec_Dir :: string
  ec_Env :: "string list"
  ec_Stdout :: "fd option"    \<comment> \<open>\<open>None\<close>: \<^verbatim>\<open>/dev/null\<close>\<close>
  ec_Stderr :: "fd option"

text \<open>\<open>environ\<close> is \<^verbatim>\<open>os.Environ\<close>, \<open>ord\<close> the order of the range over the settings of the program.\<close>

definition processEnv :: "string list \<Rightarrow> string list \<Rightarrow> ProgramConfig \<Rightarrow> string list" where
  "processEnv environ ord cfg =
     environ @ map (\<lambda>k. k @ ''='' @ (case fmlookup (pc_Environment cfg) k of None \<Rightarrow> '''' | Some v \<Rightarrow> v)) ord"

definition buildCommand ::
  "string list \<Rightarrow> string list \<Rightarrow> ProgramConfig \<Rightarrow> fd option \<Rightarrow> fd option \<Rightarrow> capture_error + command" where
  "buildCommand environ ord cfg stdout stderr =
     (let parts = parseCommand (pc_Command cfg)
      in if length parts = 0 then Inl (InvalidCommand (pc_Command cfg))
         else Inr \<lparr>ec_args = parts, ec_Setpgid = True, ec_Dir = pc_Directory cfg, ec_Env = processEnv environ ord cfg,
                ec_Stdout = stdout, ec_Stderr = stderr\<rparr>)"

text \<open>What \<open>Start\<close> does between entering STARTING and recording the run.\<close>

definition launch ::
  "(string \<Rightarrow> stream_open) \<Rightarrow> (nat \<Rightarrow> bool) \<Rightarrow> string list \<Rightarrow> string list \<Rightarrow> (command \<Rightarrow> bool) \<Rightarrow> ProgramConfig \<Rightarrow> capture \<Rightarrow>
   (capture_error + command) \<times> capture" where
  "launch outs late environ ord spawns cfg s =
     (case startLogging outs cfg s of
        (Inl e, s1) \<Rightarrow> (Inl e, stopLogging late s1)
      | (Inr (stdout, stderr), s1) \<Rightarrow>
          (case buildCommand environ ord cfg stdout stderr of
             Inl e \<Rightarrow> (Inl e, stopLogging late s1)
           | Inr cmd \<Rightarrow> if spawns cmd then (Inr cmd, closeChildEnds s1) else (Inl SpawnFailed, stopLogging late s1)))"

section \<open>Every descriptor is closed\<close>

definition fds_of :: "logStream \<Rightarrow> fd set" where
  "fds_of st = {SinkFd (ls_id st), ReadEnd (ls_id st)} \<union> (if ls_childEnd st then {ChildEnd (ls_id st)} else {})"

text \<open>What is open and drained is what the streams of the process account for.\<close>

definition tidy :: "capture \<Rightarrow> bool" where
  "tidy s \<longleftrightarrow> cap_open s = (\<Union>st \<in> set (cap_streams s). fds_of st) \<and> cap_draining s = ls_id ` set (cap_streams s) \<and>
     distinct (map ls_id (cap_streams s)) \<and> (\<forall>st \<in> set (cap_streams s). ls_id st < cap_next s)"

lemma fd_simps [simp]:
  "cap_streams (close_fd d s) = cap_streams s" "cap_draining (close_fd d s) = cap_draining s" "cap_next (close_fd d s) = cap_next s"
  "cap_open (close_fd d s) = cap_open s - {d}" "cap_streams (open_fds ds s) = cap_streams s"
  "cap_draining (open_fds ds s) = cap_draining s" "cap_next (open_fds ds s) = cap_next s" "cap_open (open_fds ds s) = cap_open s \<union> ds"
  by (simp_all add: close_fd_def open_fds_def)

lemma stop_stream_simps [simp]:
  "cap_streams (stop_stream late st s) = cap_streams s" "cap_next (stop_stream late st s) = cap_next s"
  "cap_draining (stop_stream late st s) = cap_draining s - {ls_id st}" "cap_open (stop_stream late st s) = cap_open s - fds_of st"
  by (auto simp: stop_stream_def close_child_end_def fds_of_def Let_def)

lemma fold_stop:
  "cap_streams (fold (stop_stream late) sts s) = cap_streams s \<and> cap_next (fold (stop_stream late) sts s) = cap_next s \<and>
   cap_draining (fold (stop_stream late) sts s) = cap_draining s - ls_id ` set sts \<and>
   cap_open (fold (stop_stream late) sts s) = cap_open s - (\<Union>st \<in> set sts. fds_of st)"
  by (induction sts arbitrary: s) auto

lemma stopLogging_tidy:
  assumes "tidy s"
  shows "cap_open (stopLogging late s) = {} \<and> cap_draining (stopLogging late s) = {} \<and> cap_streams (stopLogging late s) = [] \<and>
    tidy (stopLogging late s)"
  using assms by (simp add: stopLogging_def tidy_def fold_stop)

lemma fold_close:
  "cap_streams (fold close_child_end sts s) = cap_streams s \<and> cap_next (fold close_child_end sts s) = cap_next s \<and>
   cap_draining (fold close_child_end sts s) = cap_draining s \<and>
   cap_open (fold close_child_end sts s) = cap_open s - {ChildEnd (ls_id st) | st. st \<in> set sts \<and> ls_childEnd st}"
  by (induction sts arbitrary: s) (auto simp: close_child_end_def)

lemma closeChildEnds_tidy:
  assumes "tidy s"
  shows "tidy (closeChildEnds s) \<and> (\<forall>n. ChildEnd n \<notin> cap_open (closeChildEnds s)) \<and>
    map ls_id (cap_streams (closeChildEnds s)) = map ls_id (cap_streams s)"
  using assms by (auto simp: tidy_def closeChildEnds_def fold_close fds_of_def image_image comp_def split: if_splits)

lemma addLogStream_tidy:
  assumes "tidy s"
  shows "tidy (snd (addLogStream outs path m b a s))"
    and "fst (addLogStream outs path m b a s) = Inr st \<Longrightarrow> ls_path st = path \<and> ls_childEnd st \<and> ls_maxBytes st = m \<and>
      ls_backups st = b \<and> ls_maxAge st = a \<and> ls_id st = cap_next s \<and>
      cap_streams (snd (addLogStream outs path m b a s)) = cap_streams s @ [st] \<and>
      cap_next (snd (addLogStream outs path m b a s)) = Suc (cap_next s)"
    and "outs path = Opens \<longleftrightarrow> (\<exists>st. fst (addLogStream outs path m b a s) = Inr st)"
proof -
  have fresh: "n \<ge> cap_next s \<Longrightarrow> SinkFd n \<notin> cap_open s" for n
    using assms by (fastforce simp: tidy_def fds_of_def split: if_splits)
  show "tidy (snd (addLogStream outs path m b a s))"
    using assms fresh [of "cap_next s"]
    by (cases "outs path") (auto simp: addLogStream_def Let_def tidy_def fds_of_def less_Suc_eq split: if_splits)
  show "fst (addLogStream outs path m b a s) = Inr st \<Longrightarrow> ls_path st = path \<and> ls_childEnd st \<and> ls_maxBytes st = m \<and>
      ls_backups st = b \<and> ls_maxAge st = a \<and> ls_id st = cap_next s \<and>
      cap_streams (snd (addLogStream outs path m b a s)) = cap_streams s @ [st] \<and>
      cap_next (snd (addLogStream outs path m b a s)) = Suc (cap_next s)"
    by (cases "outs path") (auto simp: addLogStream_def Let_def)
  show "outs path = Opens \<longleftrightarrow> (\<exists>st. fst (addLogStream outs path m b a s) = Inr st)"
    by (cases "outs path") (auto simp: addLogStream_def Let_def)
qed

text \<open>Which log each of the two streams of the child goes to.\<close>

definition goes_to_log :: "capture \<Rightarrow> string \<Rightarrow> fd option \<Rightarrow> bool" where
  "goes_to_log s path d \<longleftrightarrow>
     (case d of None \<Rightarrow> path = '''' | Some d \<Rightarrow> path \<noteq> '''' \<and> (\<exists>st \<in> set (cap_streams s). d = ChildEnd (ls_id st) \<and> ls_path st = path))"

definition wired :: "ProgramConfig \<Rightarrow> fd option \<Rightarrow> fd option \<Rightarrow> capture \<Rightarrow> bool" where
  "wired cfg stdout stderr s \<longleftrightarrow>
     goes_to_log s (pc_StdoutLogfile cfg) stdout \<and> goes_to_log s (pc_StderrLogfile cfg) stderr \<and>
     (stdout \<noteq> None \<and> stdout = stderr \<longleftrightarrow> pc_StdoutLogfile cfg \<noteq> '''' \<and> pc_StdoutLogfile cfg = pc_StderrLogfile cfg) \<and>
     (\<forall>st \<in> set (cap_streams s). Some (ChildEnd (ls_id st)) \<in> {stdout, stderr})"

lemma own_stream_cases:
  assumes "tidy s"
  obtains (none) "path = ''''" "own_stream outs path m b a s = (Inr None, s)"
    | (failed) e s' where "own_stream outs path m b a s = (Inl e, s')" "tidy s'"
    | (opened) st s' where "path \<noteq> ''''" "own_stream outs path m b a s = (Inr (Some (ChildEnd (cap_next s))), s')" "tidy s'"
        "cap_streams s' = cap_streams s @ [st]" "ls_id st = cap_next s" "ls_path st = path" "cap_next s' = Suc (cap_next s)"
proof (cases "path = ''''")
  case True
  then show ?thesis by (intro none) (simp_all add: own_stream_def)
next
  case False
  obtain r s' where r: "addLogStream outs path m b a s = (r, s')" by fastforce
  note add = addLogStream_tidy [OF assms, of outs path m b a, unfolded r, simplified]
  show ?thesis
  proof (cases r)
    case (Inl e)
    with r add False show ?thesis by (intro failed [of e s']) (simp_all add: own_stream_def)
  next
    case (Inr st)
    with r add False show ?thesis by (intro opened [of s' st]) (simp_all add: own_stream_def child_end_def)
  qed
qed

lemma startLogging_wired:
  assumes "tidy s" and "cap_streams s = []"
  shows "tidy (snd (startLogging outs cfg s))"
    and "fst (startLogging outs cfg s) = Inr (stdout, stderr) \<Longrightarrow> wired cfg stdout stderr (snd (startLogging outs cfg s))"
proof -
  let ?P = "\<lambda>r. tidy (snd r) \<and> (\<forall>stdout stderr. fst r = Inr (stdout, stderr) \<longrightarrow> wired cfg stdout stderr (snd r))"
  have "?P (startLogging outs cfg s)"
  proof (cases "pc_StdoutLogfile cfg \<noteq> '''' \<and> pc_StdoutLogfile cfg = pc_StderrLogfile cfg")
    case True
    let ?m = "max (pc_StdoutLogfileMaxBytes cfg) (pc_StderrLogfileMaxBytes cfg)"
      and ?b = "max (pc_StdoutLogfileBackups cfg) (pc_StderrLogfileBackups cfg)"
      and ?a = "max (pc_StdoutLogfileMaxAge cfg) (pc_StderrLogfileMaxAge cfg)"
    obtain r s' where r: "addLogStream outs (pc_StdoutLogfile cfg) ?m ?b ?a s = (r, s')" by fastforce
    note add = addLogStream_tidy [OF assms(1), of outs "pc_StdoutLogfile cfg" ?m ?b ?a, unfolded r, simplified]
    show ?thesis using True add r assms(2) by (cases r) (auto simp: startLogging_def wired_def goes_to_log_def child_end_def)
  next
    case False
    from assms(1) show ?thesis
    proof (cases rule: own_stream_cases [of s "pc_StdoutLogfile cfg" outs "pc_StdoutLogfileMaxBytes cfg" "pc_StdoutLogfileBackups cfg" "pc_StdoutLogfileMaxAge cfg"])
      case none
      from assms(1) show ?thesis
        by (cases rule: own_stream_cases [of s "pc_StderrLogfile cfg" outs "pc_StderrLogfileMaxBytes cfg" "pc_StderrLogfileBackups cfg" "pc_StderrLogfileMaxAge cfg"])
          (use False none assms in \<open>auto simp: startLogging_def wired_def goes_to_log_def\<close>)
    next
      case (failed e s')
      with False show ?thesis by (auto simp: startLogging_def)
    next
      case (opened st s')
      from opened(3) show ?thesis
        by (cases rule: own_stream_cases [of s' "pc_StderrLogfile cfg" outs "pc_StderrLogfileMaxBytes cfg" "pc_StderrLogfileBackups cfg" "pc_StderrLogfileMaxAge cfg"])
          (use False opened assms in \<open>auto simp: startLogging_def wired_def goes_to_log_def\<close>)
    qed
  qed
  then show "tidy (snd (startLogging outs cfg s))"
    "fst (startLogging outs cfg s) = Inr (stdout, stderr) \<Longrightarrow> wired cfg stdout stderr (snd (startLogging outs cfg s))" by blast+
qed

lemma buildCommand_streams:
  "buildCommand environ ord cfg stdout stderr = Inr cmd \<Longrightarrow> ec_Stdout cmd = stdout \<and> ec_Stderr cmd = stderr \<and> ec_Setpgid cmd"
  by (auto simp: buildCommand_def Let_def split: if_splits)

lemma closeChildEnds_wired: "wired cfg stdout stderr s \<Longrightarrow> wired cfg stdout stderr (closeChildEnds s)"
  by (auto simp: wired_def goes_to_log_def closeChildEnds_def split: option.splits)

text \<open>
  C30. A start that fails at any point, at the first log or the second, at the pipe, at the command or at the spawn, leaves no
  descriptor open and no goroutine behind; one that succeeds gives the child the pipe of the right log
  for each stream, one pipe when both go to the same file and \<^verbatim>\<open>/dev/null\<close> when there is none, keeps no write end in
  the daemon, so that the pipes can end, and \<open>stopLogging\<close> closes all that is left, late or not.
\<close>

theorem launch_closes_descriptors:
  assumes "tidy s" and "cap_streams s = []" and "launch outs late environ ord spawns cfg s = (res, s')"
  shows "case res of
      Inl e \<Rightarrow> cap_open s' = {} \<and> cap_draining s' = {} \<and> cap_streams s' = []
    | Inr cmd \<Rightarrow> wired cfg (ec_Stdout cmd) (ec_Stderr cmd) s' \<and> (\<forall>n. ChildEnd n \<notin> cap_open s') \<and>
        cap_open (stopLogging late' s') = {} \<and> cap_draining (stopLogging late' s') = {} \<and>
        cap_streams (stopLogging late' s') = [] \<and> tidy (stopLogging late' s')"
proof -
  obtain r s1 where r: "startLogging outs cfg s = (r, s1)" by fastforce
  have t: "tidy s1" and w: "r = Inr (stdout, stderr) \<Longrightarrow> wired cfg stdout stderr s1" for stdout stderr
    using startLogging_wired [OF assms(1,2), of outs cfg] r by auto
  note stopped = stopLogging_tidy [OF t, of late]
  have closed: "tidy (closeChildEnds s1)" "ChildEnd n \<notin> cap_open (closeChildEnds s1)" for n
    using closeChildEnds_tidy [OF t] by auto
  show ?thesis
  proof (cases res)
    case (Inl e)
    with assms(3) r stopped show ?thesis by (auto simp: launch_def split: sum.splits if_splits)
  next
    case (Inr cmd)
    with assms(3) r obtain stdout stderr where so: "r = Inr (stdout, stderr)"
      and cmd: "buildCommand environ ord cfg stdout stderr = Inr cmd" and s': "s' = closeChildEnds s1"
      by (auto simp: launch_def split: sum.splits if_splits)
    have "wired cfg (ec_Stdout cmd) (ec_Stderr cmd) s'"
      using closeChildEnds_wired [OF w [OF so]] buildCommand_streams [OF cmd] by (simp add: s')
    then show ?thesis using Inr closed stopLogging_tidy [OF closed(1), of late'] by (simp add: s')
  qed
qed

section \<open>Draining a pipe\<close>

definition maxLogLineBytes :: nat where
  "maxLogLineBytes = 64 * 1024"

lemma maxLogLineBytes_pos [simp]: "0 < maxLogLineBytes"
  by (simp add: maxLogLineBytes_def)

text \<open>
  What \<^verbatim>\<open>ReadSlice\<close> returns of the bytes that are still to come: up to the newline, or a full buffer, or the rest.
\<close>

fun first_line :: "string \<Rightarrow> string" where
  "first_line [] = []"
| "first_line (c # cs) = (if c = CHR 0x0A then [c] else c # first_line cs)"

definition ReadSlice :: "string \<Rightarrow> string" where
  "ReadSlice input = take maxLogLineBytes (first_line input)"

lemma first_line_prefix: "first_line input @ drop (length (first_line input)) input = input"
  by (induction input) auto

lemma first_line_newline: "CHR 0x0A \<notin> set (butlast (first_line input))"
  by (induction input) (auto split: if_splits)

lemma first_line_end: "first_line input = input \<or> (first_line input \<noteq> [] \<and> last (first_line input) = CHR 0x0A)"
  by (induction input) auto

lemma ReadSlice_prefix: "ReadSlice input @ drop (length (ReadSlice input)) input = input"
proof -
  obtain rest where "input = first_line input @ rest" using first_line_prefix [of input] by metis
  then have "take (length (ReadSlice input)) input = ReadSlice input"
    unfolding ReadSlice_def by (metis append_eq_conv_conj length_take take_append take_take min.commute min.left_idem diff_is_0_eq' min.cobounded1 take_0 append_Nil2)
  then show ?thesis by (metis append_take_drop_id)
qed

lemma butlast_take_subset: "set (butlast (take n xs)) \<subseteq> set (butlast xs)"
proof (induction xs arbitrary: n)
  case (Cons x xs)
  show ?case
  proof (cases n)
    case (Suc m)
    with Cons [of m] show ?thesis by auto
  qed simp
qed simp

lemma ReadSlice_shape:
  assumes "input \<noteq> []"
  shows "ReadSlice input \<noteq> [] \<and> length (ReadSlice input) \<le> maxLogLineBytes \<and> CHR 0x0A \<notin> set (butlast (ReadSlice input)) \<and>
    (last (ReadSlice input) = CHR 0x0A \<or> length (ReadSlice input) = maxLogLineBytes \<or> ReadSlice input = input)"
proof (intro conjI)
  have "first_line input \<noteq> []" using assms by (cases input) auto
  then show "ReadSlice input \<noteq> []" using maxLogLineBytes_pos by (simp add: ReadSlice_def)
  show "length (ReadSlice input) \<le> maxLogLineBytes" by (simp add: ReadSlice_def)
  show "CHR 0x0A \<notin> set (butlast (ReadSlice input))"
    using first_line_newline [of input] butlast_take_subset unfolding ReadSlice_def by fast
  show "last (ReadSlice input) = CHR 0x0A \<or> length (ReadSlice input) = maxLogLineBytes \<or> ReadSlice input = input"
    using first_line_end [of input] by (cases "length (first_line input) \<le> maxLogLineBytes") (auto simp: ReadSlice_def)
qed

datatype pipe_end = EndOfFile | FileClosed | ReadFails

datatype drain_error = SinkError | PipeError

text \<open>
  \<open>input\<close> is all that is read before the pipe ends as \<open>how\<close> says. The result is the error, the sink, and
  what was not taken from the pipe any more.
\<close>

function drainStream ::
  "(string \<Rightarrow> 'sink \<Rightarrow> bool \<times> 'sink) \<Rightarrow> pipe_end \<Rightarrow> string \<Rightarrow> 'sink \<Rightarrow> drain_error option \<times> 'sink \<times> string" where
  "drainStream put how input sink =
     (if input = [] then (if how = ReadFails then Some PipeError else None, sink, [])
      else (let line = ReadSlice input; rest = drop (length line) input
            in case put line sink of
                 (False, sink') \<Rightarrow> (Some SinkError, sink', rest)
               | (True, sink') \<Rightarrow> drainStream put how rest sink'))"
  by pat_completeness auto
termination
proof (relation "measure (\<lambda>(put, how, input, sink). length input)")
  show "((put, how, rest, sink'), put, how, input, sink) \<in> measure (\<lambda>(put, how, input, sink). length input)"
    if "input \<noteq> []" "line = ReadSlice input" "rest = drop (length line) input"
    for put :: "string \<Rightarrow> 'sink \<Rightarrow> bool \<times> 'sink" and how :: pipe_end and input line rest and sink sink' :: 'sink
    using ReadSlice_shape [OF that(1)] that by (cases input) (auto simp: diff_less)
qed simp

declare drainStream.simps [simp del]

text \<open>The pieces that are written when every write succeeds.\<close>

function pieces :: "string \<Rightarrow> string list" where
  "pieces input = (if input = [] then [] else ReadSlice input # pieces (drop (length (ReadSlice input)) input))"
  by pat_completeness auto
termination
  by (relation "measure length") (use ReadSlice_shape in \<open>auto simp: diff_less\<close>)

declare pieces.simps [simp del]

lemma pieces_Nil [simp]: "pieces [] = []"
  by (simp add: pieces.simps)

lemma pieces_concat: "concat (pieces input) = input"
proof (induction input rule: pieces.induct)
  case (1 input)
  then show ?case using ReadSlice_prefix [of input] by (cases "input = []") (simp_all add: pieces.simps [of input])
qed

definition whole_line :: "string \<Rightarrow> bool" where
  "whole_line p \<longleftrightarrow> last p = CHR 0x0A \<or> length p = maxLogLineBytes"

lemma pieces_shape:
  "(\<forall>p \<in> set (pieces input). p \<noteq> [] \<and> length p \<le> maxLogLineBytes \<and> CHR 0x0A \<notin> set (butlast p)) \<and>
   (\<forall>p \<in> set (butlast (pieces input)). whole_line p)"
proof (induction input rule: pieces.induct)
  case (1 input)
  show ?case
  proof (cases "input = []")
    case False
    let ?rest = "drop (length (ReadSlice input)) input"
    have "whole_line (ReadSlice input)" if "pieces ?rest \<noteq> []"
      using ReadSlice_shape [OF False] that by (auto simp: whole_line_def)
    then show ?thesis using 1 False ReadSlice_shape [OF False] by (auto simp: pieces.simps [of input])
  qed simp
qed

text \<open>Writing a list of pieces until one fails; the result counts those that did not.\<close>

fun feed :: "(string \<Rightarrow> 'sink \<Rightarrow> bool \<times> 'sink) \<Rightarrow> string list \<Rightarrow> 'sink \<Rightarrow> bool \<times> 'sink \<times> string list" where
  "feed put [] sink = (True, sink, [])"
| "feed put (p # ps) sink =
     (case put p sink of (False, sink') \<Rightarrow> (False, sink', ps) | (True, sink') \<Rightarrow> feed put ps sink')"

lemma drainStream_feed:
  "drainStream put how input sink =
     (case feed put (pieces input) sink of
        (ok, sink', rest) \<Rightarrow> (if \<not> ok then Some SinkError else if how = ReadFails then Some PipeError else None, sink', concat rest))"
proof (induction put how input sink rule: drainStream.induct)
  case (1 put how input sink)
  show ?case
  proof (cases "input = []")
    case True
    then show ?thesis by (simp add: drainStream.simps [of put how "[]"])
  next
    case False
    show ?thesis
    proof (cases "put (ReadSlice input) sink")
      case (Pair ok sink')
      then show ?thesis using False 1 [OF False refl refl] pieces_concat
        by (cases ok) (simp_all add: drainStream.simps [of put how input] pieces.simps [of input] Let_def)
    qed
  qed
qed

section \<open>Draining into a log\<close>

definition log_put :: "string \<Rightarrow> Writer \<times> fs \<Rightarrow> bool \<times> (Writer \<times> fs)" where
  "log_put p ws = (case Write p (fst ws) (snd ws) of ((n, err), w', s') \<Rightarrow> (err = None, (w', s')))"

text \<open>A log that holds \<open>d\<close>, with nothing refused.\<close>

definition working :: "Writer \<Rightarrow> fs \<Rightarrow> string \<Rightarrow> bool" where
  "working w s d \<longleftrightarrow> w_file w = OpenFile \<and> no_faults s \<and> no_dirs s \<and> (\<exists>e. log_file w s = Some e \<and> de_data e = d) \<and>
     w_size w = int (length d)"

text \<open>What it holds after one write, and after a list of them.\<close>

definition log_after :: "int \<Rightarrow> string \<Rightarrow> string \<Rightarrow> string" where
  "log_after limit d p = (if 0 < limit \<and> d \<noteq> [] \<and> int (length (d @ p)) > limit then p else d @ p)"

fun log_filled :: "int \<Rightarrow> string \<Rightarrow> string list \<Rightarrow> string" where
  "log_filled limit d [] = d"
| "log_filled limit d (p # ps) = log_filled limit (log_after limit d p) ps"

lemma write_file_working:
  assumes "working w s d" and "int (length d) + int (length p) < 2 ^ 63"
  shows "\<exists>w' s'. write_file p w s = ((length p, None), w', s') \<and> working w' s' (d @ p) \<and> w_path w' = w_path w \<and>
    w_maxBytes w' = w_maxBytes w"
proof -
  from assms(1) obtain e where e: "log_file w s = Some e" "de_data e = d" and ok: "no_faults s" "no_dirs s"
    "w_file w = OpenFile" "w_size w = int (length d)" by (auto simp: working_def)
  have "wrap64 (w_size w + int (length p)) = int (length (d @ p))"
    using ok(4) assms(2) by (subst wrap64_id) simp_all
  then have "write_file p w s = ((length p, None), w\<lparr>w_size := int (length (d @ p))\<rparr>, append_data (w_path w) p s)"
    using ok by (simp add: write_file_def no_faults_def Let_def)
  moreover have "no_dirs (append_data (w_path w) p s)" using ok(2) e(1) by (auto simp: no_dirs_def append_data_def)
  moreover have "no_faults (append_data (w_path w) p s)" using ok(1) e(1) by (simp add: no_faults_def append_data_def)
  ultimately show ?thesis using ok(3) e append_data_log [OF e(1)] by (simp add: working_def)
qed

lemma Write_working:
  assumes "working w s d" and "int (length d) + int (length p) < 2 ^ 63"
  shows "\<exists>w' s'. Write p w s = ((length p, None), w', s') \<and> working w' s' (log_after (w_maxBytes w) d p) \<and> w_path w' = w_path w \<and>
    w_maxBytes w' = w_maxBytes w"
proof -
  from assms(1) obtain e where e: "log_file w s = Some e" "de_data e = d" and ok: "no_faults s" "no_dirs s"
    "w_file w = OpenFile" "w_size w = int (length d)" by (auto simp: working_def)
  have wrap: "wrap64 (w_size w + int (length p)) = int (length (d @ p))"
    using ok(4) assms(2) by (subst wrap64_id) simp_all
  show ?thesis
  proof (cases "0 < w_maxBytes w \<and> d \<noteq> [] \<and> int (length (d @ p)) > w_maxBytes w")
    case False
    then have "Write p w s = write_file p w s" using ok(3,4) wrap by (auto simp: Write_def)
    moreover have "log_after (w_maxBytes w) d p = d @ p" unfolding log_after_def using False by simp
    ultimately show ?thesis using write_file_working [OF assms] by simp
  next
    case True
    obtain s1 where shift: "shiftBackups (w\<lparr>w_file := NilFile\<rparr>) s = (None, s1)" "no_faults s1" "no_dirs s1" "log_file w s1 = None"
      using shiftBackups_frees [OF ok(1,2), of "w\<lparr>w_file := NilFile\<rparr>" e] e(1) by auto
    define s2 where "s2 = prune (w\<lparr>w_size := 0\<rparr>) (fresh_log w s1)"
    have "rotate w s = (None, w\<lparr>w_size := 0\<rparr>, s2)"
      using rotate_ok [OF ok(3,1) shift(1,2,4)] by (simp add: s2_def)
    with True ok(3,4) wrap have W: "Write p w s = write_file p (w\<lparr>w_size := 0\<rparr>) s2" by (simp add: Write_def)
    have "no_faults s2" "no_dirs s2"
      using fresh_log_ok [of w s1] shift(2) fresh_log_dirs [OF shift(3), of w]
      by (auto simp: s2_def no_faults_def no_dirs_def split: if_splits)
    moreover have "log_file w s2 = Some \<lparr>de_dir = False, de_data = [], de_mtime = now s1\<rparr>"
      by (simp add: s2_def prune_log fresh_log_lookup del: prune_lookup)
    ultimately have "working (w\<lparr>w_size := 0\<rparr>) s2 []" using ok(3) by (simp add: working_def)
    from write_file_working [OF this] assms(2) W have "\<exists>w' s'. Write p w s = ((length p, None), w', s') \<and>
        working w' s' p \<and> w_path w' = w_path w \<and> w_maxBytes w' = w_maxBytes w" by simp
    moreover have "log_after (w_maxBytes w) d p = p" unfolding log_after_def using True by simp
    ultimately show ?thesis by simp
  qed
qed

lemma log_filled_shape:
  assumes "\<forall>p \<in> set ps. length p \<le> m" and "0 < limit \<Longrightarrow> length d \<le> max (nat limit) m"
  shows "(\<exists>old. old @ log_filled limit d ps = d @ concat ps) \<and> (0 < limit \<longrightarrow> length (log_filled limit d ps) \<le> max (nat limit) m) \<and>
    (\<exists>kept. suffix kept ps \<and> (log_filled limit d ps = concat kept \<or> kept = ps \<and> log_filled limit d ps = d @ concat ps))"
  using assms
proof (induction ps arbitrary: d)
  case (Cons p ps)
  let ?d = "log_after limit d p"
  have "length ?d \<le> max (nat limit) m" if "0 < limit"
    using Cons.prems(1) that by (auto simp: log_after_def)
  then have IH: "\<exists>old. old @ log_filled limit ?d ps = ?d @ concat ps" "0 < limit \<longrightarrow> length (log_filled limit ?d ps) \<le> max (nat limit) m"
    "\<exists>kept. suffix kept ps \<and> (log_filled limit ?d ps = concat kept \<or> kept = ps \<and> log_filled limit ?d ps = ?d @ concat ps)"
    using Cons.IH [of ?d] Cons.prems(1) by auto
  show ?case
  proof (cases "0 < limit \<and> d \<noteq> [] \<and> int (length (d @ p)) > limit")
    case True
    then have d: "?d = p" "log_filled limit d (p # ps) = log_filled limit p ps" by (simp_all add: log_after_def)
    from IH(1) obtain old where "old @ log_filled limit p ps = p @ concat ps" unfolding d by blast
    then have "(d @ old) @ log_filled limit p ps = d @ concat (p # ps)" by simp
    moreover from IH(3) have "\<exists>kept. suffix kept (p # ps) \<and> log_filled limit p ps = concat kept"
      unfolding d by (metis concat.simps(2) suffix_ConsI suffix_order.refl)
    ultimately show ?thesis using IH(2) unfolding d by blast
  next
    case False
    then have d: "?d = d @ p" "log_filled limit d (p # ps) = log_filled limit (d @ p) ps"
      unfolding log_filled.simps log_after_def by (simp_all only: if_False)
    from IH(3) have "\<exists>kept. suffix kept (p # ps) \<and> (log_filled limit (d @ p) ps = concat kept \<or>
        kept = p # ps \<and> log_filled limit (d @ p) ps = d @ concat (p # ps))"
      unfolding d by (metis append.assoc concat.simps(2) suffix_ConsI suffix_order.refl)
    then show ?thesis using IH(1,2) unfolding d by simp
  qed
qed simp

lemma feed_log:
  assumes "working w s d" and "int (length d) + int (length (concat ps)) < 2 ^ 63"
  shows "\<exists>w' s'. feed log_put ps (w, s) = (True, (w', s'), []) \<and> working w' s' (log_filled (w_maxBytes w) d ps)"
  using assms
proof (induction ps arbitrary: w s d)
  case (Cons p ps)
  have "int (length d) + int (length p) < 2 ^ 63" using Cons.prems(2) by simp
  from Write_working [OF Cons.prems(1) this] obtain w1 s1 where one: "Write p w s = ((length p, None), w1, s1)"
    "working w1 s1 (log_after (w_maxBytes w) d p)" "w_maxBytes w1 = w_maxBytes w" by blast
  have "length (log_after (w_maxBytes w) d p) \<le> length d + length p" by (simp add: log_after_def)
  then have "int (length (log_after (w_maxBytes w) d p)) + int (length (concat ps)) < 2 ^ 63" using Cons.prems(2) by simp
  from Cons.IH [OF one(2) this] show ?case using one by (simp add: log_put_def)
qed simp



text \<open>A program with a log for its output.\<close>

definition sample_logged :: ProgramConfig where
  "sample_logged = sample_config\<lparr>pc_Command := ''sh run'', pc_StdoutLogfile := ''a.log'', pc_StderrLogfile := ''b.log''\<rparr>"

definition sample_capture :: capture where
  "sample_capture = \<lparr>cap_streams = [], cap_open = {}, cap_draining = {}, cap_next = 0\<rparr>"

text \<open>The second log cannot be opened: the first is closed again.\<close>

theorem launch_closes_descriptors_witness:
  "cap_open (snd (launch (\<lambda>path. if path = ''a.log'' then Opens else SinkFails) (\<lambda>_. False) [] [] (\<lambda>_. True) sample_logged sample_capture)) = {}"
proof -
  let ?l = "launch (\<lambda>path. if path = ''a.log'' then Opens else SinkFails) (\<lambda>_. False) [] [] (\<lambda>_. True) sample_logged sample_capture"
  have start: "tidy sample_capture" "cap_streams sample_capture = []" by (simp_all add: tidy_def sample_capture_def)
  have "fst ?l = Inl (LogFileFailed ''b.log'')"
    by (simp add: launch_def startLogging_def own_stream_def addLogStream_def sample_logged_def Let_def child_end_def)
  then obtain s' where l: "?l = (Inl (LogFileFailed ''b.log''), s')" by (cases ?l) simp
  with launch_closes_descriptors [OF start l] show ?thesis by simp
qed

section \<open>A program and its pipe\<close>

text \<open>What a pipe holds before a write to it blocks.\<close>

definition pipeCapacity :: nat where
  "pipeCapacity = 64 * 1024"

record 'sink flow =
  fl_written :: string    \<comment> \<open>all that the program has written\<close>
  fl_pipe :: string
  fl_buffer :: string     \<comment> \<open>read and not yet in the log\<close>
  fl_sink :: 'sink
  fl_draining :: bool     \<comment> \<open>the goroutine of the drain has not returned\<close>

datatype flow_label = ProgramWrites string | DrainReads nat | DrainPuts

fun flow_exec :: "(string \<Rightarrow> 'sink \<Rightarrow> bool \<times> 'sink) \<Rightarrow> flow_label \<Rightarrow> 'sink flow \<Rightarrow> 'sink flow option" where
  "flow_exec put (ProgramWrites d) s =
     (if length (fl_pipe s) + length d \<le> pipeCapacity
      then Some (s\<lparr>fl_written := fl_written s @ d, fl_pipe := fl_pipe s @ d\<rparr>) else None)"
| "flow_exec put (DrainReads n) s =
     (if fl_draining s \<and> length (fl_buffer s) + n \<le> maxLogLineBytes
      then Some (s\<lparr>fl_buffer := fl_buffer s @ take n (fl_pipe s), fl_pipe := drop n (fl_pipe s)\<rparr>) else None)"
| "flow_exec put DrainPuts s =
     (if fl_draining s \<and> fl_buffer s \<noteq> [] \<and> whole_line (ReadSlice (fl_buffer s))
      then (let line = ReadSlice (fl_buffer s); res = put line (fl_sink s)
            in Some (s\<lparr>fl_buffer := drop (length line) (fl_buffer s), fl_sink := snd res, fl_draining := fst res\<rparr>))
      else None)"

inductive flow_step :: "(string \<Rightarrow> 'sink \<Rightarrow> bool \<times> 'sink) \<Rightarrow> 'sink flow \<Rightarrow> flow_label \<Rightarrow> 'sink flow \<Rightarrow> bool" for put where
  flow_stepI: "flow_exec put l s = Some s' \<Longrightarrow> flow_step put s l s'"

inductive_simps flow_step_iff: "flow_step put s l s'"

lemma undrained_step:
  assumes "flow_step put s l s'" and "\<not> fl_draining s"
  shows "\<not> fl_draining s' \<and> fl_sink s' = fl_sink s \<and> length (fl_pipe s') \<le> max pipeCapacity (length (fl_pipe s)) \<and>
    (\<exists>d. fl_written s' = fl_written s @ d \<and> fl_pipe s' = fl_pipe s @ d)"
  using assms by (cases l) (auto simp: flow_step_iff split: if_splits)

lemma undrained_runs:
  "runs (flow_step put) s ls s' \<Longrightarrow> \<not> fl_draining s \<Longrightarrow> length (fl_pipe s) \<le> pipeCapacity \<Longrightarrow>
   \<not> fl_draining s' \<and> fl_sink s' = fl_sink s \<and> length (fl_pipe s') \<le> pipeCapacity \<and>
   (\<exists>d. fl_written s' = fl_written s @ d \<and> fl_pipe s' = fl_pipe s @ d)"
proof (induction rule: runs.induct)
  case (runs_more s ls s' l s'')
  then show ?case using undrained_step [OF runs_more.hyps(2)] by fastforce
qed simp

text \<open>
  One write to the log that fails ends the capture, whatever the reason and however long it lasts: nothing reads
  the pipe any more, so that the log stays as it is and the program can write no more than the pipe
  holds before it blocks in its next write, for as long as it runs.
\<close>

theorem failed_write_blocks_program:
  assumes "flow_step put s DrainPuts s'" and "\<not> fst (put (ReadSlice (fl_buffer s)) (fl_sink s))"
    and "length (fl_pipe s) \<le> pipeCapacity" and "runs (flow_step put) s' ls s''"
  shows "fl_sink s'' = fl_sink s' \<and> (\<exists>more. fl_written s'' = fl_written s @ more \<and> length more \<le> pipeCapacity) \<and>
    (\<forall>d s3. length (fl_pipe s'') + length d > pipeCapacity \<longrightarrow> \<not> flow_step put s'' (ProgramWrites d) s3)"
proof -
  have "\<not> fl_draining s'" "fl_pipe s' = fl_pipe s" "fl_written s' = fl_written s"
    using assms(1,2) by (auto simp: flow_step_iff Let_def split: if_splits)
  with undrained_runs [OF assms(4)] assms(3) obtain more where r: "fl_sink s'' = fl_sink s'" "length (fl_pipe s'') \<le> pipeCapacity"
    "fl_written s'' = fl_written s @ more" "fl_pipe s'' = fl_pipe s @ more" by auto
  then show ?thesis by (auto simp: flow_step_iff)
qed

text \<open>A log that cannot be closed for a rotation, once.\<close>

definition sample_flow :: "(Writer \<times> fs) flow" where
  "sample_flow = \<lparr>fl_written = ''bye'' @ [CHR 0x0A], fl_pipe = [], fl_buffer = ''bye'' @ [CHR 0x0A],
     fl_sink = (sample_writer, sample_fs\<lparr>faults := \<lambda>op _. op = OpClose\<rparr>), fl_draining = True\<rparr>"

theorem failed_write_blocks_program_witness:
  "\<exists>s'. flow_step log_put sample_flow DrainPuts s' \<and> (\<forall>d s3. length d > pipeCapacity \<longrightarrow> \<not> flow_step log_put s' (ProgramWrites d) s3)"
proof -
  have line: "ReadSlice (fl_buffer sample_flow) = ''bye'' @ [CHR 0x0A]"
    by (simp add: sample_flow_def ReadSlice_def maxLogLineBytes_def)
  have fails: "\<not> fst (log_put (ReadSlice (fl_buffer sample_flow)) (fl_sink sample_flow))"
    unfolding line by (simp add: sample_flow_def log_put_def Write_def rotate_def write_file_def sample_writer_def sample_fs_def wrap64_def)
  have "flow_exec log_put DrainPuts sample_flow \<noteq> None"
    using line by (simp add: whole_line_def sample_flow_def Let_def)
  then obtain s' where step: "flow_step log_put sample_flow DrainPuts s'" by (auto simp: flow_step_iff)
  have "fl_pipe s' = []" using step by (auto simp: flow_step_iff Let_def sample_flow_def split: if_splits)
  with failed_write_blocks_program [OF step fails _ runs_none] step show ?thesis by (auto simp: sample_flow_def)
qed

end
