(* ===== verification/Recorder.thy ===== *)
theory Recorder
  imports StateFile Server Machine
begin

text \<open>
  Who keeps the state file up to date: \<open>markStateDirty\<close>, \<open>recordStateChanges\<close>, \<open>saveState\<close> and
  \<open>clearStateFile\<close> of \<^verbatim>\<open>internal/server/state.go\<close> with the state change callback of \<^verbatim>\<open>server.go\<close>.

  The goroutine that saves, the programs and the processes of the machine run in parallel. A state is set in one
  step and its callback runs in a later one; the PID of a run is set by \<open>recordRun\<close>, which has no callback; and the
  loop of \<open>saveState\<close> reads the PID of a program before its state, and its start time with that. A run is recorded
  while its program is STARTING, as it is unless a stop comes in between (theory \<open>Supervision\<close>). \<open>rc_child\<close> and \<open>rc_past\<close> are not in the
  code: they say which process a recorded run is, and which there have been, by their start times.
\<close>

section \<open>The machine\<close>

datatype recorder_pc =
    Idle | Called
  | Scanning "string list" "childRecord list"
  | Judging string int "string list" "childRecord list"
  | Saving "childRecord list"
  | Left

record recorder =
  rc_path :: string
  rc_boot :: string
  rc_programs :: "(string, program) fmap"
  rc_callbacks :: nat                      \<comment> \<open>begun and not yet at the channel\<close>
  rc_dirty :: bool                         \<comment> \<open>the channel holds a token\<close>
  rc_pc :: recorder_pc
  rc_dir :: "(string, string) fmap"
  rc_failed :: bool                        \<comment> \<open>the last save was\<close>
  rc_stopping :: bool                      \<comment> \<open>\<^verbatim>\<open>stopChan\<close> is closed\<close>
  rc_table :: "(int, string) fmap"         \<comment> \<open>the start time of every process there is\<close>
  rc_child :: "(string, string) fmap"
  rc_past :: "(int \<times> string) set"

datatype recorder_label =
    Sets string State | Marks | RecordsRun string int
  | Reloads "(string, program) fmap"
  | Born int string | Dies int
  | Takes | BeginsScan "string list" | ReadsPID | ReadsState | EndsScan | Saves file_write bool bool
  | ClosesStop | Leaves | Clears bool

definition current_token :: "recorder \<Rightarrow> int \<Rightarrow> identity_error + string" where
  "current_token s pid = (case fmlookup (rc_table s) pid of None \<Rightarrow> Inl (NoProcessInfo '''') | Some t \<Rightarrow> Inr t)"

definition markStateDirty :: "recorder \<Rightarrow> recorder" where
  "markStateDirty s = s\<lparr>rc_dirty := True\<rparr>"

text \<open>\<open>setState\<close>, and the callback as far as it concerns the recorder.\<close>

fun program_run :: "recorder_label \<Rightarrow> recorder \<Rightarrow> recorder option" where
  "program_run (Sets n st) s =
     (case fmlookup (rc_programs s) n of
        None \<Rightarrow> None
      | Some p \<Rightarrow>
          Some (if GetState p = st then s
                else s\<lparr>rc_programs := fmupd n (p\<lparr>pg_proc := (pg_proc p)\<lparr>p_state := st\<rparr>\<rparr>) (rc_programs s),
                  rc_callbacks := Suc (rc_callbacks s)\<rparr>))"
| "program_run Marks s =
     (if 0 < rc_callbacks s then Some (markStateDirty (s\<lparr>rc_callbacks := rc_callbacks s - 1\<rparr>)) else None)"
| "program_run (RecordsRun n pid) s =
     (case fmlookup (rc_programs s) n of
        None \<Rightarrow> None
      | Some p \<Rightarrow>
          if GetState p = StateStarting
          then Some (s\<lparr>rc_programs := fmupd n (p\<lparr>pg_pid := pid\<rparr>) (rc_programs s),
            rc_child := (case fmlookup (rc_table s) pid of None \<Rightarrow> fmdrop n (rc_child s) | Some t \<Rightarrow> fmupd n t (rc_child s))\<rparr>)
          else None)"
| "program_run (Reloads ps) s =
     (case rc_pc s of
        Scanning _ _ \<Rightarrow> None
      | Judging _ _ _ _ \<Rightarrow> None
      | _ \<Rightarrow> if fmpred (\<lambda>n p. fmlookup (rc_programs s) n = Some p \<or> p = newProcess) ps
            then Some (s\<lparr>rc_programs := ps, rc_callbacks := Suc (rc_callbacks s)\<rparr>) else None)"
| "program_run _ s = None"

text \<open>A PID is used again, but never with the same start time.\<close>

fun machine_run :: "recorder_label \<Rightarrow> recorder \<Rightarrow> recorder option" where
  "machine_run (Born pid t) s =
     (if fmlookup (rc_table s) pid = None \<and> (pid, t) \<notin> rc_past s
      then Some (s\<lparr>rc_table := fmupd pid t (rc_table s), rc_past := insert (pid, t) (rc_past s)\<rparr>) else None)"
| "machine_run (Dies pid) s = Some (s\<lparr>rc_table := fmdrop pid (rc_table s)\<rparr>)"
| "machine_run _ s = None"

text \<open>\<open>recordStateChanges\<close> with \<open>saveState\<close>; \<open>ord\<close> is the order of the range over the processes.\<close>

fun recorder_run :: "(processState \<Rightarrow> string + string) \<Rightarrow> recorder_label \<Rightarrow> recorder \<Rightarrow> recorder option" where
  "recorder_run marshal Takes s =
     (if rc_pc s = Idle \<and> rc_dirty s
      then Some (s\<lparr>rc_dirty := False, rc_pc := (if rc_path s = '''' then Idle else Called)\<rparr>) else None)"
| "recorder_run marshal (BeginsScan ord) s =
     (if rc_pc s = Called \<and> ranges ord (rc_programs s) then Some (s\<lparr>rc_pc := Scanning ord []\<rparr>) else None)"
| "recorder_run marshal ReadsPID s =
     (case rc_pc s of
        Scanning (n # ns) acc \<Rightarrow>
          Some (case fmlookup (rc_programs s) n of
                  None \<Rightarrow> s\<lparr>rc_pc := Scanning ns acc\<rparr>
                | Some p \<Rightarrow> s\<lparr>rc_pc := Judging n (pg_pid p) ns acc\<rparr>)
      | _ \<Rightarrow> None)"
| "recorder_run marshal ReadsState s =
     (case rc_pc s of
        Judging n pid ns acc \<Rightarrow>
          Some (case fmlookup (rc_programs s) n of
                  None \<Rightarrow> s\<lparr>rc_pc := Scanning ns acc\<rparr>
                | Some p \<Rightarrow> s\<lparr>rc_pc := Scanning ns (acc @ child_record (current_token s) n (p\<lparr>pg_pid := pid\<rparr>))\<rparr>)
      | _ \<Rightarrow> None)"
| "recorder_run marshal EndsScan s = (case rc_pc s of Scanning [] acc \<Rightarrow> Some (s\<lparr>rc_pc := Saving acc\<rparr>) | _ \<Rightarrow> None)"
| "recorder_run marshal (Saves w renamed removed) s =
     (case rc_pc s of
        Saving records \<Rightarrow>
          (let res = writeStateFile marshal w renamed removed (rc_path s) (rc_boot s) records (rc_dir s)
           in Some (s\<lparr>rc_pc := Idle, rc_dir := last (snd res), rc_failed := (fst res \<noteq> Inr ())\<rparr>))
      | _ \<Rightarrow> None)"
| "recorder_run marshal Leaves s = (if rc_pc s = Idle \<and> rc_stopping s then Some (s\<lparr>rc_pc := Left\<rparr>) else None)"
| "recorder_run marshal _ s = None"

text \<open>What \<open>Stop\<close> does to it; \<open>clearStateFile\<close> may fail.\<close>

fun shutdown_run :: "recorder_label \<Rightarrow> recorder \<Rightarrow> recorder option" where
  "shutdown_run ClosesStop s = Some (s\<lparr>rc_stopping := True\<rparr>)"
| "shutdown_run (Clears ok) s =
     (if rc_stopping s then Some (if ok then s\<lparr>rc_dir := fmdrop (rc_path s) (rc_dir s)\<rparr> else s) else None)"
| "shutdown_run _ s = None"

inductive recorder_step :: "(processState \<Rightarrow> string + string) \<Rightarrow> recorder \<Rightarrow> recorder_label \<Rightarrow> recorder \<Rightarrow> bool" for marshal where
  rc_program: "program_run l s = Some s' \<Longrightarrow> recorder_step marshal s l s'"
| rc_machine: "machine_run l s = Some s' \<Longrightarrow> recorder_step marshal s l s'"
| rc_recorder: "recorder_run marshal l s = Some s' \<Longrightarrow> recorder_step marshal s l s'"
| rc_shutdown: "shutdown_run l s = Some s' \<Longrightarrow> recorder_step marshal s l s'"

text \<open>A server as \<open>New\<close> makes it, at any moment in the life of the machine.\<close>

definition new_recorder :: "recorder \<Rightarrow> bool" where
  "new_recorder s \<longleftrightarrow> fmpred (\<lambda>n p. p = newProcess) (rc_programs s) \<and> \<not> rc_dirty s \<and> rc_callbacks s = 0 \<and> rc_pc s = Idle \<and>
     \<not> rc_stopping s \<and> rc_child s = fmempty \<and> (\<forall>pid t. fmlookup (rc_table s) pid = Some t \<longrightarrow> (pid, t) \<in> rc_past s)"

section \<open>The state file follows the programs\<close>

definition is_recorded :: "string \<Rightarrow> int \<Rightarrow> string \<Rightarrow> childRecord list \<Rightarrow> bool" where
  "is_recorded n pid t rs \<longleftrightarrow> \<lparr>cr_Name = n, cr_StartToken = t, cr_PID = pid\<rparr> \<in> set rs"

definition file_has :: "(string \<Rightarrow> string + processState) \<Rightarrow> recorder \<Rightarrow> string \<Rightarrow> int \<Rightarrow> string \<Rightarrow> bool" where
  "file_has unmarshal s n pid t \<longleftrightarrow>
     (\<exists>rs. readStateFile unmarshal True (rc_path s) (rc_dir s) = Inr (Some \<lparr>ps_BootID = rc_boot s, ps_Children = rs\<rparr>) \<and>
        is_recorded n pid t rs)"

text \<open>The program \<open>n\<close> has a run past its start, whose process is still the one it was given.\<close>

definition up_and_known :: "recorder \<Rightarrow> string \<Rightarrow> program \<Rightarrow> string \<Rightarrow> bool" where
  "up_and_known s n p t \<longleftrightarrow> fmlookup (rc_programs s) n = Some p \<and> GetState p \<noteq> StateStarting \<and> \<not> IsStopped (GetState p) \<and>
     0 < pg_pid p \<and> fmlookup (rc_child s) n = Some t \<and> fmlookup (rc_table s) (pg_pid p) = Some t"

text \<open>It is in the file, or on its way there.\<close>

definition on_its_way :: "(string \<Rightarrow> string + processState) \<Rightarrow> recorder \<Rightarrow> string \<Rightarrow> int \<Rightarrow> string \<Rightarrow> bool" where
  "on_its_way unmarshal s n pid t \<longleftrightarrow> rc_dirty s \<or> 0 < rc_callbacks s \<or> rc_stopping s \<or> rc_path s = '''' \<or>
     (case rc_pc s of
        Idle \<Rightarrow> rc_failed s \<or> file_has unmarshal s n pid t
      | Called \<Rightarrow> True
      | Scanning ns acc \<Rightarrow> n \<in> set ns \<or> is_recorded n pid t acc
      | Judging m q ns acc \<Rightarrow> (m = n \<and> q = pid) \<or> n \<in> set ns \<or> is_recorded n pid t acc
      | Saving acc \<Rightarrow> is_recorded n pid t acc
      | Left \<Rightarrow> False)"

definition past_ok :: "recorder \<Rightarrow> bool" where
  "past_ok s \<longleftrightarrow> (\<forall>pid t. fmlookup (rc_table s) pid = Some t \<longrightarrow> (pid, t) \<in> rc_past s) \<and>
     (\<forall>n p t. fmlookup (rc_programs s) n = Some p \<longrightarrow> 0 < pg_pid p \<longrightarrow> fmlookup (rc_child s) n = Some t \<longrightarrow> (pg_pid p, t) \<in> rc_past s) \<and>
     (rc_pc s = Left \<longrightarrow> rc_stopping s)"

definition covered :: "(string \<Rightarrow> string + processState) \<Rightarrow> recorder \<Rightarrow> bool" where
  "covered unmarshal s \<longleftrightarrow> (\<forall>n p t. up_and_known s n p t \<longrightarrow> on_its_way unmarshal s n (pg_pid p) t)"

lemma past_child:
  "past_ok s \<Longrightarrow> fmlookup (rc_programs s) n = Some p \<Longrightarrow> 0 < pg_pid p \<Longrightarrow> fmlookup (rc_child s) n = Some t \<Longrightarrow> (pg_pid p, t) \<in> rc_past s"
  by (simp add: past_ok_def)

lemma past_kept:
  assumes "recorder_step marshal s l s'" and "past_ok s"
  shows "past_ok s'"
  using assms(1)
proof (cases rule: recorder_step.cases)
  case rc_program
  show ?thesis
  proof (cases l)
    case (Reloads ps)
    then have s': "s' = s\<lparr>rc_programs := ps, rc_callbacks := Suc (rc_callbacks s)\<rparr>"
      and ps: "fmlookup ps n = Some p \<Longrightarrow> fmlookup (rc_programs s) n = Some p \<or> p = newProcess" for n p
      using rc_program by (auto simp: fmpred_iff split: recorder_pc.splits if_splits)
    have "\<not> 0 < pg_pid newProcess" by (simp add: newProcess_def)
    then have "fmlookup ps n = Some p \<Longrightarrow> 0 < pg_pid p \<Longrightarrow> fmlookup (rc_child s) n = Some t \<Longrightarrow> (pg_pid p, t) \<in> rc_past s" for n p t
      using ps past_child [OF assms(2)] by blast
    with assms(2) show ?thesis unfolding past_ok_def by (simp add: s')
  qed (use rc_program assms(2) in \<open>auto simp: past_ok_def markStateDirty_def split: option.splits if_splits\<close>)
next
  case rc_machine
  with assms(2) show ?thesis by (cases l; clarsimp split: if_splits) (auto simp: past_ok_def)
next
  case rc_recorder
  with assms(2) show ?thesis
    by (cases l; clarsimp simp: Let_def split: option.splits if_splits recorder_pc.splits list.splits) (auto simp: past_ok_def)
next
  case rc_shutdown
  with assms(2) show ?thesis by (cases l; clarsimp split: if_splits) (auto simp: past_ok_def)
qed

lemma programs_keep_covered:
  assumes "program_run l s = Some s'" and "covered unmarshal s"
  shows "covered unmarshal s'"
proof (cases l)
  case (RecordsRun n pid)
  then obtain p where p: "fmlookup (rc_programs s) n = Some p" "GetState p = StateStarting"
    using assms(1) by (auto split: option.splits if_splits)
  have "up_and_known s m q t" if "up_and_known s' m q t" for m q t
    using that RecordsRun assms(1) p
    by (auto simp: up_and_known_def GetState_def split: if_splits option.splits)
  moreover have "on_its_way unmarshal s' m pid t \<longleftrightarrow> on_its_way unmarshal s m pid t" for m pid t
    using RecordsRun assms(1) p by (auto simp: on_its_way_def file_has_def split: recorder_pc.splits)
  ultimately show ?thesis using assms(2) by (auto simp: covered_def)
next
  case (Sets n st)
  then show ?thesis using assms
    by (auto simp: covered_def up_and_known_def on_its_way_def GetState_def split: option.splits if_splits)
qed (use assms in \<open>auto simp: covered_def up_and_known_def on_its_way_def markStateDirty_def split: if_splits recorder_pc.splits\<close>)

lemma machine_keeps_covered:
  assumes "machine_run l s = Some s'" and "covered unmarshal s" and "past_ok s"
  shows "covered unmarshal s'"
proof -
  have "up_and_known s m q t" if up: "up_and_known s' m q t" for m q t
  proof (cases l)
    case (Born pid t0)
    then have s': "s' = s\<lparr>rc_table := fmupd pid t0 (rc_table s), rc_past := insert (pid, t0) (rc_past s)\<rparr>"
      and "(pid, t0) \<notin> rc_past s" using assms(1) by (simp_all split: if_splits)
    moreover have "(pg_pid q, t) \<in> rc_past s" using up past_child [OF assms(3), of m q t] by (simp add: up_and_known_def s')
    ultimately show ?thesis using up by (auto simp: up_and_known_def split: if_splits)
  next
    case (Dies pid)
    then show ?thesis using up assms(1) by (auto simp: up_and_known_def split: if_splits)
  qed (use assms(1) in simp_all)
  moreover have "on_its_way unmarshal s' m pid t \<longleftrightarrow> on_its_way unmarshal s m pid t" for m pid t
    using assms(1) by (cases l) (auto simp: on_its_way_def file_has_def split: if_splits cong: recorder_pc.case_cong)
  ultimately show ?thesis using assms(2) unfolding covered_def by blast
qed

lemma is_recorded_append [simp]: "is_recorded n pid t (rs @ rs') \<longleftrightarrow> is_recorded n pid t rs \<or> is_recorded n pid t rs'"
  by (auto simp: is_recorded_def)

lemma recorded_now:
  "up_and_known s n p t \<Longrightarrow> is_recorded n (pg_pid p) t (child_record (current_token s) n (p\<lparr>pg_pid := pg_pid p\<rparr>))"
  by (auto simp: up_and_known_def is_recorded_def child_record_def current_token_def GetState_def)

lemma recorder_keeps_covered:
  assumes "recorder_run marshal l s = Some s'" and "covered unmarshal s" and "decodes marshal unmarshal"
  shows "covered unmarshal s'"
  unfolding covered_def
proof (intro allI impI)
  fix n p t
  assume "up_and_known s' n p t"
  then have up: "up_and_known s n p t"
    using assms(1) by (cases l) (auto simp: up_and_known_def Let_def split: if_splits recorder_pc.splits list.splits option.splits)
  then have way: "on_its_way unmarshal s n (pg_pid p) t" using assms(2) by (auto simp: covered_def)
  have prog: "fmlookup (rc_programs s) n = Some p" using up by (simp add: up_and_known_def)
  show "on_its_way unmarshal s' n (pg_pid p) t"
  proof (cases l)
    case (BeginsScan ord)
    then show ?thesis using assms(1) prog by (auto simp: on_its_way_def ranges_def fmdom'I split: if_splits)
  next
    case ReadsPID
    then show ?thesis using assms(1) way prog
      by (auto simp: on_its_way_def split: recorder_pc.splits list.splits option.splits)
  next
    case ReadsState
    then show ?thesis using assms(1) way prog recorded_now [OF up]
      by (auto simp: on_its_way_def split: recorder_pc.splits option.splits)
  next
    case (Saves w renamed removed)
    then obtain rs where rs: "rc_pc s = Saving rs"
      using assms(1) by (auto split: recorder_pc.splits)
    let ?res = "writeStateFile marshal w renamed removed (rc_path s) (rc_boot s) rs (rc_dir s)"
    have s': "s' = s\<lparr>rc_pc := Idle, rc_dir := last (snd ?res), rc_failed := (fst ?res \<noteq> Inr ())\<rparr>"
      using Saves rs assms(1) by (simp add: Let_def)
    show ?thesis
    proof (cases "fst ?res = Inr ()")
      case True
      then have "?res = (Inr (), snd ?res)" by (metis prod.collapse)
      from writeStateFile_read [OF assms(3) this] way show ?thesis
        by (auto simp: s' rs on_its_way_def file_has_def)
    qed (simp add: s' on_its_way_def)
  qed (use assms(1) way in \<open>auto simp: on_its_way_def file_has_def split: if_splits recorder_pc.splits list.splits\<close>)
qed

lemma shutdown_keeps_covered: "shutdown_run l s = Some s' \<Longrightarrow> covered unmarshal s \<Longrightarrow> covered unmarshal s'"
  by (cases l) (auto simp: covered_def up_and_known_def on_its_way_def split: if_splits)

lemma covered_kept:
  assumes "decodes marshal unmarshal" and "recorder_step marshal s l s'" and "past_ok s" and "covered unmarshal s"
  shows "covered unmarshal s'"
  using assms(2)
  by (cases rule: recorder_step.cases)
    (use assms programs_keep_covered machine_keeps_covered recorder_keeps_covered shutdown_keeps_covered in blast)+

lemma new_recorder_ok: "new_recorder s \<Longrightarrow> past_ok s \<and> covered unmarshal s"
  by (auto simp: new_recorder_def past_ok_def covered_def up_and_known_def)

interpretation recorder: inductive_invariant new_recorder "recorder_step marshal"
    "\<lambda>s. decodes marshal unmarshal \<longrightarrow> past_ok s \<and> covered unmarshal s" for marshal unmarshal
  by unfold_locales (use new_recorder_ok past_kept covered_kept in blast)+


section \<open>A run that is not in the file\<close>

definition recorder_exec :: "(processState \<Rightarrow> string + string) \<Rightarrow> recorder_label \<Rightarrow> recorder \<Rightarrow> recorder option" where
  "recorder_exec marshal l s =
     (case program_run l s of Some s' \<Rightarrow> Some s' | None \<Rightarrow>
     (case machine_run l s of Some s' \<Rightarrow> Some s' | None \<Rightarrow>
     (case recorder_run marshal l s of Some s' \<Rightarrow> Some s' | None \<Rightarrow> shutdown_run l s)))"

fun recorder_exec_all :: "(processState \<Rightarrow> string + string) \<Rightarrow> recorder_label list \<Rightarrow> recorder \<Rightarrow> recorder option" where
  "recorder_exec_all marshal [] s = Some s"
| "recorder_exec_all marshal (l # ls) s = Option.bind (recorder_exec marshal l s) (recorder_exec_all marshal ls)"

lemma recorder_exec_all_runs: "recorder_exec_all marshal ls s = Some s' \<Longrightarrow> runs (recorder_step marshal) s ls s'"
proof (induction ls arbitrary: s)
  case (Cons l ls)
  then obtain s1 where s1: "recorder_exec marshal l s = Some s1" "runs (recorder_step marshal) s1 ls s'"
    by (auto simp: bind_eq_Some_conv)
  then have "recorder_step marshal s l s1"
    by (auto simp: recorder_exec_def split: option.splits intro: recorder_step.intros)
  with s1(2) show ?case using runs_trans [OF s1(2) runs_one] by fastforce
qed (simp add: runs_none)

definition one_program :: "string \<Rightarrow> string \<Rightarrow> string \<Rightarrow> (string, string) fmap \<Rightarrow> recorder" where
  "one_program path boot n dir = \<lparr>rc_path = path, rc_boot = boot, rc_programs = fmap_of_list [(n, newProcess)], rc_callbacks = 0,
     rc_dirty = False, rc_pc = Idle, rc_dir = dir, rc_failed = False, rc_stopping = False, rc_table = fmempty,
     rc_child = fmempty, rc_past = {}\<rparr>"

lemma one_program_new: "new_recorder (one_program path boot n dir)"
  by (auto simp: new_recorder_def one_program_def fmpred_iff split: if_splits)

lemma one_program_runs:
  assumes "runs (recorder_step marshal) (one_program path boot n dir) ls s"
  shows "reachable new_recorder (recorder_step marshal) s"
  using assms by (rule runs_reachable) (rule reachable_initial, rule one_program_new)

definition start_unseen :: "string \<Rightarrow> int \<Rightarrow> string \<Rightarrow> recorder_label list" where
  "start_unseen n pid t = [Sets n StateStarting, Marks, Takes, BeginsScan [n], ReadsPID, ReadsState, EndsScan, Saves WriteDone True True,
     Born pid t, RecordsRun n pid]"

lemmas recorder_exec_defs = recorder_exec_def one_program_def newProcess_def NewProcess_def GetState_def IsStopped_def markStateDirty_def
  ranges_def child_record_def writeStateFile_def Let_def

text \<open>
  A run that is being started is not recorded: the change to STARTING is saved before there is a process, and
  \<open>recordRun\<close> asks for no save. Until the program, or another one, changes its state, the recorder is idle and its file says
  that nothing runs, so the daemon that starts after a crash leaves the process alone and starts the program again.
\<close>

theorem starting_run_unrecorded:
  assumes "decodes marshal unmarshal" and "marshal \<lparr>ps_BootID = boot, ps_Children = []\<rparr> = Inr data" and "path \<noteq> ''''"
  shows "\<exists>ls s p. runs (recorder_step marshal) (one_program path boot n dir) ls s \<and>
    rc_pc s = Idle \<and> \<not> rc_dirty s \<and> rc_callbacks s = 0 \<and> \<not> rc_failed s \<and>
    fmlookup (rc_programs s) n = Some p \<and> GetState p = StateStarting \<and> pg_pid p = pid \<and> fmlookup (rc_table s) pid = Some t \<and>
    (\<forall>token polls final. fst (reapOrphans token polls final path boot (readStateFile unmarshal True path (rc_dir s))) = [])"
proof -
  obtain s where s: "recorder_exec_all marshal (start_unseen n pid t) (one_program path boot n dir) = Some s"
    "rc_pc s = Idle" "\<not> rc_dirty s" "rc_callbacks s = 0" "\<not> rc_failed s"
    "rc_programs s = fmap_of_list [(n, newProcess\<lparr>pg_proc := NewProcess\<lparr>p_state := StateStarting\<rparr>, pg_pid := pid\<rparr>)]"
    "rc_table s = fmap_of_list [(pid, t)]" "fmlookup (rc_dir s) path = Some data"
    using assms(2,3) by (simp add: start_unseen_def recorder_exec_defs)
  have "unmarshal data = Inr \<lparr>ps_BootID = boot, ps_Children = []\<rparr>" using assms(1,2) by (simp add: decodes_def)
  then have "fst (reapOrphans token polls final path boot (readStateFile unmarshal True path (rc_dir s))) = []" for token polls final
    using s(8) by (simp add: readStateFile_def reapOrphans_def)
  with s recorder_exec_all_runs [OF s(1)] show ?thesis
    by (intro exI [of _ "start_unseen n pid t"] exI [of _ s]) (simp add: GetState_def newProcess_def NewProcess_def)
qed

text \<open>
  A save that is under way when the daemon stops is not waited for: the file that \<open>clearStateFile\<close> removed
  comes back, with the programs that were up when the save began.
\<close>

lemma cleared_file_comes_back:
  assumes "rc_pc s = Saving rs" and "marshal \<lparr>ps_BootID = rc_boot s, ps_Children = rs\<rparr> = Inr data"
  shows "\<exists>s'. runs (recorder_step marshal) s [ClosesStop, Clears True, Saves WriteDone True True] s' \<and>
    fmlookup (rc_dir s') (rc_path s') = Some data"
proof -
  obtain s' where "recorder_exec_all marshal [ClosesStop, Clears True, Saves WriteDone True True] s = Some s'"
    "fmlookup (rc_dir s') (rc_path s') = Some data"
    using assms by (simp add: recorder_exec_def writeStateFile_def Let_def)
  then show ?thesis using recorder_exec_all_runs by blast
qed

section \<open>Witnesses\<close>

text \<open>The database of theory \<open>StateFile\<close>, started as process 42; its record is saved when it is RUNNING.\<close>

definition recorded_run :: recorder where
  "recorded_run = the (recorder_exec_all sample_marshal (start_unseen ''db'' 42 ''4711'' @
     [Sets ''db'' StateRunning, Marks, Takes, BeginsScan [''db''], ReadsPID, ReadsState, EndsScan, Saves WriteDone True True])
     (one_program ''s'' ''b1'' ''db'' fmempty))"

lemma recorded_run_exec:
  "recorder_exec_all sample_marshal (start_unseen ''db'' 42 ''4711'' @
     [Sets ''db'' StateRunning, Marks, Takes, BeginsScan [''db''], ReadsPID, ReadsState, EndsScan, Saves WriteDone True True])
     (one_program ''s'' ''b1'' ''db'' fmempty) = Some recorded_run"
  and recorded_run_facts: "rc_pc recorded_run = Idle" "\<not> rc_dirty recorded_run" "rc_callbacks recorded_run = 0"
    "\<not> rc_failed recorded_run" "\<not> rc_stopping recorded_run" "rc_path recorded_run = ''s''" "rc_boot recorded_run = ''b1''"
  and recorded_run_up: "up_and_known recorded_run ''db'' (newProcess\<lparr>pg_proc := NewProcess\<lparr>p_state := StateRunning\<rparr>, pg_pid := 42\<rparr>) ''4711''"
  by (simp_all add: recorded_run_def start_unseen_def recorder_exec_defs sample_marshal_def sample_state_def current_token_def
      up_and_known_def)


theorem starting_run_unrecorded_witness:
  "\<exists>s. reachable new_recorder (recorder_step (\<lambda>st. if st = \<lparr>ps_BootID = ''b1'', ps_Children = []\<rparr> then Inr ''{}'' else Inl ''unknown'')) s \<and>
     rc_pc s = Idle \<and> \<not> rc_dirty s \<and> fmlookup (rc_table s) 42 = Some ''4711'' \<and>
     fst (reapOrphans sample_token [] (\<lambda>pid. None) ''s'' ''b1'' (readStateFile (\<lambda>data. Inr \<lparr>ps_BootID = ''b1'', ps_Children = []\<rparr>) True ''s'' (rc_dir s))) = []"
proof -
  let ?marshal = "\<lambda>st. if st = \<lparr>ps_BootID = ''b1'', ps_Children = []\<rparr> then Inr ''{}'' else Inl ''unknown''"
  let ?unmarshal = "\<lambda>data. Inr \<lparr>ps_BootID = ''b1'', ps_Children = []\<rparr>"
  have "decodes ?marshal ?unmarshal" by (simp add: decodes_def)
  from starting_run_unrecorded [OF this, of "''b1''" "''{}''" "''s''" "''db''" fmempty 42 "''4711''"]
  show ?thesis by (auto intro: one_program_runs)
qed

end
