(* ===== verification/Identity.thy ===== *)
theory Identity
  imports StateFile
begin

text \<open>
  The identity of a process on the other systems: \<^verbatim>\<open>internal/server/identity_darwin.go\<close> and \<^verbatim>\<open>identity_other.go\<close>.
  \<open>sysctl\<close> is \<^verbatim>\<open>unix.SysctlKinfoProc\<close>, as far as the start time, or \<^verbatim>\<open>unix.SysctlTimeval\<close>.
\<close>

record timeval =
  tv_Sec :: int
  tv_Usec :: int

text \<open>The verb \<^verbatim>\<open>%06d\<close> of \<^verbatim>\<open>fmt\<close>.\<close>

definition pad6 :: "int \<Rightarrow> string" where
  "pad6 n =
     (if n < 0 then CHR ''-'' # replicate (5 - length (itoa (- n))) CHR ''0'' @ itoa (- n)
      else replicate (6 - length (itoa n)) CHR ''0'' @ itoa n)"

definition timeval_text :: "timeval \<Rightarrow> string" where
  "timeval_text tv = itoa (tv_Sec tv) @ ''.'' @ pad6 (tv_Usec tv)"

definition processStartToken_darwin :: "(int \<Rightarrow> string + timeval) \<Rightarrow> int \<Rightarrow> identity_error + string" where
  "processStartToken_darwin sysctl pid =
     (case sysctl pid of Inl e \<Rightarrow> Inl (NoProcessInfo e) | Inr started \<Rightarrow> Inr (timeval_text started))"

definition bootID_darwin :: "string + timeval \<Rightarrow> identity_error + string" where
  "bootID_darwin sysctl = (case sysctl of Inl e \<Rightarrow> Inl (NoBootID e) | Inr booted \<Rightarrow> Inr (timeval_text booted))"

definition processStartToken_other :: "int \<Rightarrow> identity_error + string" where
  "processStartToken_other pid = Inl (NotAvailable ''process identity is not available on this platform'')"

definition bootID_other :: "identity_error + string" where
  "bootID_other = Inl (NotAvailable ''boot identity is not available on this platform'')"

section \<open>Two processes with one number are told apart\<close>

lemma digits_val_zeros: "digits_val (replicate k CHR ''0'' @ s) = digits_val s"
  by (induction k) (simp_all add: digits_val_def digit_val_eq)

lemma pad6_reads: "0 \<le> n \<Longrightarrow> digits_val (pad6 n) = n"
  by (simp add: pad6_def digits_val_zeros itoa_def)

lemma itoa_digits: "0 \<le> n \<Longrightarrow> list_all is_digit (itoa n)"
  by (simp add: itoa_def nat_digits_digits)

lemma timeval_text_split:
  assumes "0 \<le> tv_Sec tv"
  shows "takeWhile is_digit (timeval_text tv) = itoa (tv_Sec tv)"
    and "drop 1 (dropWhile is_digit (timeval_text tv)) = pad6 (tv_Usec tv)"
  using itoa_digits [OF assms]
  by (simp_all add: timeval_text_def list_all_iff takeWhile_append2 dropWhile_append2 is_digit_def)

text \<open>
  The text of a start time is that of no other time, so a process that was given the number of a recorded one is
  told from it.
\<close>

lemma timeval_text_inj:
  assumes "0 \<le> tv_Sec a" "0 \<le> tv_Usec a" "0 \<le> tv_Sec b" "0 \<le> tv_Usec b" and "timeval_text a = timeval_text b"
  shows "a = b"
proof -
  have "itoa (tv_Sec a) = itoa (tv_Sec b)" "pad6 (tv_Usec a) = pad6 (tv_Usec b)"
    using timeval_text_split [of a] timeval_text_split [of b] assms by simp_all
  then have "digits_val (itoa (tv_Sec a)) = digits_val (itoa (tv_Sec b))" "tv_Usec a = tv_Usec b"
    using pad6_reads assms by metis+
  with assms show ?thesis by (simp add: itoa_def)
qed

section \<open>A system without identities\<close>

text \<open>Nothing is recorded there, so there is nothing for the next daemon to report, to stop or to remove.\<close>

lemma other_records_nothing:
  assumes "decodes marshal unmarshal"
    and "writeStateFile marshal written renamed removed path boot (live_records processStartToken_other ord s) dir = (Inr (), dirs)"
  shows "live_records processStartToken_other ord s = []"
    and "reapOrphans token polls final path boot' (readStateFile unmarshal True path (last dirs)) = ([], False)"
proof -
  show none: "live_records processStartToken_other ord s = []"
    by (auto simp: live_records_def child_record_def processStartToken_other_def split: option.splits)
  show "reapOrphans token polls final path boot' (readStateFile unmarshal True path (last dirs)) = ([], False)"
    unfolding writeStateFile_read [OF assms] by (simp add: none reapOrphans_def)
qed

end
