(* ===== verification/Daemon.thy ===== *)
theory Daemon
  imports Ipc Listener StateFile PidLock
begin

text \<open>
  The life of the daemon: \<open>Start\<close>, \<open>Stop\<close>, \<open>handleSignals\<close> and the PID file calls of
  \<^verbatim>\<open>internal/server/server.go\<close>, the loop of \<^verbatim>\<open>internal/server/reconcile.go\<close>, and the start of the program,
  \<^verbatim>\<open>cmd/supavisor/main.go\<close>.

  The goroutines are the loop of the reconciler, the actions it started, \<open>Stop\<close>, and everybody else: programs, callers
  and reloads, which may make any other server of the one they find. A pass over the programs is cut between one
  program and the next, and stopping everything between one tier and the next.
\<close>

section \<open>Signals\<close>

datatype signal = SIGHUP | SIGINT | SIGTERM

datatype signal_effect = Reloads | BeginsStop | ExitsInterrupted

text \<open>What the handler does with the signals it reads, in their order. Nothing is read after the exit.\<close>

fun handleSignals :: "bool \<Rightarrow> signal list \<Rightarrow> signal_effect list" where
  "handleSignals shuttingDown [] = []"
| "handleSignals shuttingDown (sig # sigs) =
     (case sig of
        SIGHUP \<Rightarrow> Reloads # handleSignals shuttingDown sigs
      | _ \<Rightarrow> if shuttingDown then [ExitsInterrupted] else BeginsStop # handleSignals True sigs)"

definition signalBuffer :: nat where
  "signalBuffer = 4"

text \<open>A signal that finds the channel full is lost.\<close>

definition notify :: "signal \<Rightarrow> signal list \<Rightarrow> signal list" where
  "notify sig pending = (if length pending < signalBuffer then pending @ [sig] else pending)"

section \<open>The daemon\<close>

datatype loop_pc = Not_started | Passing "string list" | Selecting | Loop_over

datatype life =
    Down | Up
  | Awaiting_reconciler | Awaiting_actions
  | Stopping_tiers "string list list"
  | Stopping_ipc | Clearing_state | Releasing_lock
  | Ended

record daemon =
  dm_server :: server
  dm_running :: bool
  dm_locked :: bool
  dm_reaping :: bool
  dm_orphans_gone :: bool
  dm_ipc :: bool
  dm_loop :: loop_pc
  dm_reconcileNow :: bool      \<comment> \<open>the channel holds a request\<close>
  dm_reconcileDone :: bool
  dm_stopChan :: bool
  dm_actions :: "(string \<times> action) list"
  dm_life :: life
  dm_stopped :: "(string \<times> program) list"    \<comment> \<open>the processes that \<open>stopAllProcesses\<close> stopped\<close>
  dm_state_file :: bool

definition new_daemon :: "server \<Rightarrow> daemon" where
  "new_daemon s = \<lparr>dm_server = s, dm_running = False, dm_locked = False, dm_reaping = False, dm_orphans_gone = False,
     dm_ipc = False, dm_loop = Not_started, dm_reconcileNow = False, dm_reconcileDone = False, dm_stopChan = False,
     dm_actions = [], dm_life = Down, dm_stopped = [], dm_state_file = True\<rparr>"

datatype daemon_error = AlreadyUp | LockRefused lock_error | IpcFailed start_error

definition pid_file :: "daemon \<Rightarrow> string" where
  "pid_file d = cfg_PidFile (Supavisor (sv_config (dm_server d)))"

text \<open>\<open>lock\<close> is the outcome of \<open>acquirePIDLock\<close>, theory \<open>PidLock\<close>.\<close>

definition lockPIDFile :: "lock_error option \<Rightarrow> daemon \<Rightarrow> daemon_error + daemon" where
  "lockPIDFile lock d =
     (if pid_file d = '''' then Inr d
      else case lock of Some e \<Rightarrow> Inl (LockRefused e) | None \<Rightarrow> Inr (d\<lparr>dm_locked := True\<rparr>))"

definition releasePIDFile :: "daemon \<Rightarrow> daemon" where
  "releasePIDFile d = (if \<not> dm_locked d then d else d\<lparr>dm_locked := False\<rparr>)"

text \<open>\<open>ipc\<close> is the outcome of starting the control socket, theory \<open>Listener\<close>. The loop begins with a pass.\<close>

definition Start_daemon :: "lock_error option \<Rightarrow> start_error option \<Rightarrow> string list \<Rightarrow> daemon \<Rightarrow> daemon_error option \<times> daemon" where
  "Start_daemon lock ipc ord d =
     (if dm_running d then (Some AlreadyUp, d)
      else case lockPIDFile lock d of
        Inl e \<Rightarrow> (Some e, d)
      | Inr d1 \<Rightarrow>
          (let d2 = d1\<lparr>dm_reaping := True, dm_orphans_gone := True, dm_running := True\<rparr>
           in case ipc of
                Some e \<Rightarrow> (Some (IpcFailed e), (releasePIDFile d2)\<lparr>dm_running := False\<rparr>)
              | None \<Rightarrow> (None, d2\<lparr>dm_ipc := True, dm_life := Up, dm_loop := Passing (programNames ord (dm_server d2))\<rparr>)))"

section \<open>Steps\<close>

definition shutdown_tiers :: "string list \<Rightarrow> string list \<Rightarrow> string list \<Rightarrow> server \<Rightarrow> string list list" where
  "shutdown_tiers ordN ordD ord s =
     rev (case Tiers ordN ordD (sv_graph s) of Inl _ \<Rightarrow> [programNames ord s] | Inr tiers \<Rightarrow> tiers)"

definition found :: "server \<Rightarrow> string \<Rightarrow> (string \<times> program) list" where
  "found s name = (case fmlookup (sv_processes s) name of None \<Rightarrow> [] | Some p \<Rightarrow> [(name, p)])"

datatype daemon_label =
    Considers | EndsPass
  | SelectsRequest "string list" | SelectsTick "string list" | SelectsStop    \<comment> \<open>with the range over the programs\<close>
  | ActionEnds "string \<times> action"
  | Requests
  | World server
  | StopBegins | SeesReconciler | SeesActions "string list" "string list" "string list"
  | StopsTier | TiersDone | StopsIpc | ClearsState | ReleasesLock

fun loop_run :: "daemon_label \<Rightarrow> daemon \<Rightarrow> daemon option" where
  "loop_run Considers d =
     (case dm_loop d of
        Passing (name # names) \<Rightarrow>
          (let res = reconcile_one name (dm_server d)
           in Some (d\<lparr>dm_server := snd res, dm_loop := Passing names,
                dm_actions := dm_actions d @ (case fst res of None \<Rightarrow> [] | Some a \<Rightarrow> [(name, a)])\<rparr>))
      | _ \<Rightarrow> None)"
| "loop_run EndsPass d = (if dm_loop d = Passing [] then Some (d\<lparr>dm_loop := Selecting\<rparr>) else None)"
| "loop_run (SelectsRequest ord) d =
     (if dm_loop d = Selecting \<and> dm_reconcileNow d
      then Some (d\<lparr>dm_reconcileNow := False, dm_loop := Passing (programNames ord (dm_server d))\<rparr>) else None)"
| "loop_run (SelectsTick ord) d =
     (if dm_loop d = Selecting then Some (d\<lparr>dm_loop := Passing (programNames ord (dm_server d))\<rparr>) else None)"
| "loop_run SelectsStop d =
     (if dm_loop d = Selecting \<and> dm_stopChan d then Some (d\<lparr>dm_loop := Loop_over, dm_reconcileDone := True\<rparr>) else None)"
| "loop_run _ d = None"

fun others_run :: "daemon_label \<Rightarrow> daemon \<Rightarrow> daemon option" where
  "others_run (ActionEnds a) d =
     (if a \<in> set (dm_actions d)
      then Some (d\<lparr>dm_actions := remove1 a (dm_actions d), dm_server := action_done (fst a) (dm_server d)\<rparr>) else None)"
| "others_run Requests d = Some (d\<lparr>dm_reconcileNow := True\<rparr>)"
| "others_run (World s) d =
     (if cfg_PidFile (Supavisor (sv_config s)) = pid_file d then Some (d\<lparr>dm_server := s\<rparr>) else None)"
| "others_run _ d = None"

fun stop_run :: "daemon_label \<Rightarrow> daemon \<Rightarrow> daemon option" where
  "stop_run StopBegins d =
     (if dm_life d = Up \<and> dm_running d
      then Some (d\<lparr>dm_running := False, dm_stopChan := True, dm_life := Awaiting_reconciler\<rparr>) else None)"
| "stop_run SeesReconciler d =
     (if dm_life d = Awaiting_reconciler \<and> dm_reconcileDone d then Some (d\<lparr>dm_life := Awaiting_actions\<rparr>) else None)"
| "stop_run (SeesActions ordN ordD ord) d =
     (if dm_life d = Awaiting_actions \<and> dm_actions d = []
      then Some (d\<lparr>dm_life := Stopping_tiers (shutdown_tiers ordN ordD ord (dm_server d))\<rparr>) else None)"
| "stop_run StopsTier d =
     (case dm_life d of
        Stopping_tiers (names # rest) \<Rightarrow>
          Some (d\<lparr>dm_stopped := dm_stopped d @ concat (map (found (dm_server d)) names), dm_life := Stopping_tiers rest\<rparr>)
      | _ \<Rightarrow> None)"
| "stop_run TiersDone d = (if dm_life d = Stopping_tiers [] then Some (d\<lparr>dm_life := Stopping_ipc\<rparr>) else None)"
| "stop_run StopsIpc d = (if dm_life d = Stopping_ipc then Some (d\<lparr>dm_ipc := False, dm_life := Clearing_state\<rparr>) else None)"
| "stop_run ClearsState d =
     (if dm_life d = Clearing_state then Some (d\<lparr>dm_state_file := dm_state_file d \<and> stateFilePath (pid_file d) = '''', dm_life := Releasing_lock\<rparr>) else None)"
| "stop_run ReleasesLock d = (if dm_life d = Releasing_lock then Some ((releasePIDFile d)\<lparr>dm_life := Ended\<rparr>) else None)"
| "stop_run _ d = None"

inductive daemon_step :: "daemon \<Rightarrow> daemon_label \<Rightarrow> daemon \<Rightarrow> bool" where
  loop_steps: "loop_run l d = Some d' \<Longrightarrow> daemon_step d l d'"
| others_step: "others_run l d = Some d' \<Longrightarrow> daemon_step d l d'"
| stop_steps: "stop_run l d = Some d' \<Longrightarrow> daemon_step d l d'"

definition started_daemon :: "daemon \<Rightarrow> bool" where
  "started_daemon d \<longleftrightarrow> (\<exists>s lock ipc ord. d = snd (Start_daemon lock ipc ord (new_daemon s)))"

section \<open>What the daemon keeps to\<close>

definition lock_held :: "daemon \<Rightarrow> bool" where
  "lock_held d \<longleftrightarrow> (dm_locked d \<longleftrightarrow> pid_file d \<noteq> '''')"

definition guarded :: "daemon \<Rightarrow> bool" where
  "guarded d \<longleftrightarrow> lock_held d \<and> dm_orphans_gone d"

definition quiet :: "daemon \<Rightarrow> bool" where
  "quiet d \<longleftrightarrow> dm_loop d = Loop_over \<and> dm_actions d = []"

definition daemon_inv :: "daemon \<Rightarrow> bool" where
  "daemon_inv d \<longleftrightarrow> (dm_reconcileDone d \<longleftrightarrow> dm_loop d = Loop_over) \<and> (dm_loop d = Not_started \<longleftrightarrow> dm_life d = Down) \<and> (dm_running d \<longleftrightarrow> dm_life d = Up) \<and>
     (dm_stopChan d \<longleftrightarrow> dm_life d \<noteq> Down \<and> dm_life d \<noteq> Up) \<and>
     (case dm_life d of
        Down \<Rightarrow> \<not> dm_locked d \<and> dm_loop d = Not_started \<and> dm_actions d = []
      | Up \<Rightarrow> guarded d
      | Awaiting_reconciler \<Rightarrow> guarded d
      | Awaiting_actions \<Rightarrow> guarded d \<and> dm_loop d = Loop_over
      | Ended \<Rightarrow> \<not> dm_locked d \<and> quiet d
      | _ \<Rightarrow> guarded d \<and> quiet d)"

lemmas daemon_inv_defs = daemon_inv_def guarded_def quiet_def lock_held_def pid_file_def

lemma reconcile_one_config: "sv_config (snd (reconcile_one name s)) = sv_config s" "sv_config (action_done name s) = sv_config s"
  by (simp_all add: action_done_def)

lemma loop_run_keeps: "daemon_inv d \<Longrightarrow> loop_run l d = Some d' \<Longrightarrow> daemon_inv d'"
  by (cases l; clarsimp split: if_split_asm loop_pc.split_asm list.split_asm)
    (auto simp: daemon_inv_defs reconcile_one_config Let_def split: life.splits)

lemma others_run_keeps: "daemon_inv d \<Longrightarrow> others_run l d = Some d' \<Longrightarrow> daemon_inv d'"
  by (cases l; clarsimp split: if_split_asm) (auto simp: daemon_inv_defs reconcile_one_config split: life.splits)

lemma stop_run_keeps: "daemon_inv d \<Longrightarrow> stop_run l d = Some d' \<Longrightarrow> daemon_inv d'"
  by (cases l; clarsimp split: if_split_asm life.split_asm list.split_asm)
    (auto simp: daemon_inv_defs releasePIDFile_def)

lemma Start_daemon_inv: "daemon_inv (snd (Start_daemon lock ipc ord (new_daemon s)))"
  by (auto simp: Start_daemon_def lockPIDFile_def releasePIDFile_def new_daemon_def daemon_inv_defs Let_def split: option.splits)

interpretation daemon: inductive_invariant started_daemon daemon_step daemon_inv
proof
  show "daemon_inv d" if "started_daemon d" for d
    using that Start_daemon_inv by (auto simp: started_daemon_def)
  show "daemon_inv d'" if "daemon_inv d" "daemon_step d l d'" for d l d'
    using that(2,1) by (cases rule: daemon_step.cases) (blast intro: loop_run_keeps others_run_keeps stop_run_keeps)+
qed

section \<open>Signals and shutdown\<close>

lemma loop_over_adds_nothing:
  assumes "daemon_step d l d'" and "quiet d"
  shows "dm_actions d' = []"
  using assms(1)
proof (cases rule: daemon_step.cases)
  case loop_steps
  with assms(2) show ?thesis by (cases l) (auto simp: quiet_def)
next
  case others_step
  with assms(2) show ?thesis by (cases l) (auto simp: quiet_def split: if_splits)
next
  case stop_steps
  with assms(2) show ?thesis
    by (cases l) (auto simp: quiet_def releasePIDFile_def split: if_splits life.splits list.splits)
qed

lemma runs_Cons: "daemon_step d l d1 \<Longrightarrow> runs daemon_step d1 ls d' \<Longrightarrow> runs daemon_step d (l # ls) d'"
  using runs_trans [OF _ runs_one, of daemon_step d1 ls d' d l] by simp

text \<open>Steps of the daemon alone: the world does nothing but end the actions that were begun.\<close>

definition without_world :: "daemon_label list \<Rightarrow> bool" where
  "without_world ls \<longleftrightarrow> (\<forall>s. World s \<notin> set ls)"

lemma loop_leaves:
  "dm_loop d = Passing names \<or> (dm_loop d = Selecting \<and> names = []) \<Longrightarrow> dm_stopChan d \<Longrightarrow>
     \<exists>ls d'. runs daemon_step d ls d' \<and> without_world ls \<and> dm_loop d' = Loop_over \<and> dm_reconcileDone d' \<and> dm_life d' = dm_life d"
proof (induction names arbitrary: d)
  case Nil
  let ?d1 = "d\<lparr>dm_loop := Selecting\<rparr>"
  let ?d2 = "d\<lparr>dm_loop := Loop_over, dm_reconcileDone := True\<rparr>"
  have leave: "runs daemon_step e [SelectsStop] ?d2" if "e = ?d1 \<or> (e = d \<and> dm_loop d = Selecting)" for e
    using that Nil.prems(2) by (intro runs_one loop_steps) auto
  show ?case
  proof (cases "dm_loop d = Selecting")
    case True
    then show ?thesis using leave [of d] by (intro exI [of _ "[SelectsStop]"] exI [of _ ?d2]) (simp add: without_world_def)
  next
    case False
    then have "daemon_step d EndsPass ?d1" using Nil.prems(1) by (intro loop_steps) simp
    from runs_Cons [OF this leave] show ?thesis
      by (intro exI [of _ "[EndsPass, SelectsStop]"] exI [of _ ?d2]) (simp add: without_world_def)
  qed
next
  case (Cons name names)
  then have "dm_loop d = Passing (name # names)" by simp
  then obtain d1 where d1: "loop_run Considers d = Some d1" "dm_loop d1 = Passing names" "dm_stopChan d1" "dm_life d1 = dm_life d"
    using Cons.prems(2) by (simp add: Let_def)
  from Cons.IH [of d1] d1 obtain ls d' where "runs daemon_step d1 ls d'" "without_world ls" "dm_loop d' = Loop_over"
    "dm_reconcileDone d'" "dm_life d' = dm_life d" by auto
  then show ?case using runs_Cons [OF loop_steps [OF d1(1)]]
    by (intro exI [of _ "Considers # ls"] exI [of _ d']) (simp add: without_world_def)
qed

lemma actions_end:
  "dm_actions d = as \<Longrightarrow> \<exists>ls d'. runs daemon_step d ls d' \<and> without_world ls \<and> dm_actions d' = [] \<and> dm_life d' = dm_life d \<and>
     dm_loop d' = dm_loop d"
proof (induction as arbitrary: d)
  case Nil
  then show ?case by (intro exI [of _ "[]"] exI [of _ d]) (simp add: runs_none without_world_def)
next
  case (Cons a as)
  let ?d1 = "d\<lparr>dm_actions := as, dm_server := action_done (fst a) (dm_server d)\<rparr>"
  have "daemon_step d (ActionEnds a) ?d1" by (rule others_step) (simp add: Cons.prems)
  moreover obtain ls d' where "runs daemon_step ?d1 ls d'" "without_world ls" "dm_actions d' = []" "dm_life d' = dm_life d" "dm_loop d' = dm_loop d"
    using Cons.IH [of ?d1] by auto
  ultimately show ?case using runs_Cons
    by (intro exI [of _ "ActionEnds a # ls"] exI [of _ d']) (auto simp: without_world_def)
qed

definition can_end :: "daemon \<Rightarrow> bool" where
  "can_end d \<longleftrightarrow> (\<exists>ls d'. runs daemon_step d ls d' \<and> without_world ls \<and> dm_life d' = Ended)"

lemma can_end_runs: "runs daemon_step d ls d1 \<Longrightarrow> without_world ls \<Longrightarrow> can_end d1 \<Longrightarrow> can_end d"
proof -
  assume d1: "runs daemon_step d ls d1" "without_world ls" and "can_end d1"
  then obtain ms d' where "runs daemon_step d1 ms d'" "without_world ms" "dm_life d' = Ended" by (auto simp: can_end_def)
  then show "can_end d"
    using runs_trans [OF _ d1(1), of ms d'] d1(2) unfolding can_end_def
    by (intro exI [of _ "ls @ ms"] exI [of _ d']) (auto simp: without_world_def)
qed

lemma can_end_stop: "stop_run l d = Some d1 \<Longrightarrow> can_end d1 \<Longrightarrow> can_end d"
  by (rule can_end_runs [where ls = "[l]"], rule runs_one, erule stop_steps) (cases l; simp add: without_world_def)

lemma ends_from_ipc: "dm_life d \<in> {Stopping_ipc, Clearing_state, Releasing_lock, Ended} \<Longrightarrow> can_end d"
proof -
  have ended: "can_end e" if "dm_life e = Ended" for e
    using that by (auto simp: can_end_def without_world_def intro!: exI [of _ "[]"] runs_none)
  have lock: "can_end e" if "dm_life e = Releasing_lock" for e
    by (rule can_end_stop [of ReleasesLock], use that in simp, rule ended, simp)
  have clear: "can_end e" if "dm_life e = Clearing_state" for e
    by (rule can_end_stop [of ClearsState], use that in simp, rule lock, simp)
  have "can_end e" if "dm_life e = Stopping_ipc" for e
    by (rule can_end_stop [of StopsIpc], use that in simp, rule clear, simp)
  then show "dm_life d \<in> {Stopping_ipc, Clearing_state, Releasing_lock, Ended} \<Longrightarrow> can_end d"
    using ended lock clear by blast
qed

lemma ends_from_tiers: "dm_life d = Stopping_tiers tiers \<Longrightarrow> can_end d"
proof (induction tiers arbitrary: d)
  case Nil
  show ?case by (rule can_end_stop [of TiersDone], use Nil in simp, rule ends_from_ipc, simp)
next
  case (Cons names tiers)
  show ?case by (rule can_end_stop [of StopsTier], use Cons.prems in simp, rule Cons.IH, simp)
qed

lemma ends_from_actions:
  assumes "dm_life d = Awaiting_actions"
  shows "can_end d"
proof -
  obtain ls d1 where d1: "runs daemon_step d ls d1" "without_world ls" "dm_actions d1 = []" "dm_life d1 = Awaiting_actions"
    using actions_end [OF refl, of d] assms by auto
  have "can_end d1" by (rule can_end_stop [of "SeesActions [] [] []"], use d1 in simp, rule ends_from_tiers, simp)
  with d1(1,2) show ?thesis by (rule can_end_runs)
qed

lemma shutdown_can_end:
  assumes "daemon_inv d" and "dm_life d \<noteq> Down" and "dm_life d \<noteq> Up"
  shows "can_end d"
proof (cases "dm_life d")
  case Awaiting_reconciler
  have seen: "can_end e" if "dm_life e = Awaiting_reconciler" "dm_reconcileDone e" for e
    by (rule can_end_stop [of SeesReconciler], use that in simp, rule ends_from_actions, simp)
  have stop: "dm_stopChan d" "dm_loop d \<noteq> Not_started" "dm_reconcileDone d \<longleftrightarrow> dm_loop d = Loop_over"
    using assms(1) Awaiting_reconciler by (auto simp: daemon_inv_def)
  show ?thesis
  proof (cases "dm_loop d = Loop_over")
    case False
    then obtain names where "dm_loop d = Passing names \<or> (dm_loop d = Selecting \<and> names = [])"
      using stop(2) by (cases "dm_loop d") auto
    from loop_leaves [OF this stop(1)] show ?thesis using seen Awaiting_reconciler can_end_runs by metis
  qed (use seen Awaiting_reconciler stop in simp)
qed (use assms ends_from_actions ends_from_tiers ends_from_ipc in auto)

definition stops_programs :: "life \<Rightarrow> bool" where
  "stops_programs l \<longleftrightarrow> (\<exists>tiers. l = Stopping_tiers tiers) \<or> l \<in> {Stopping_ipc, Clearing_state, Releasing_lock, Ended}"



definition is_stop :: "signal \<Rightarrow> bool" where
  "is_stop sig \<longleftrightarrow> sig \<noteq> SIGHUP"

lemma handleSignals_down:
  "BeginsStop \<notin> set (handleSignals True sigs) \<and> (ExitsInterrupted \<in> set (handleSignals True sigs) \<longleftrightarrow> (\<exists>sig \<in> set sigs. is_stop sig)) \<and>
   ExitsInterrupted \<notin> set (butlast (handleSignals True sigs)) \<and>
   length (filter ((=) Reloads) (handleSignals True sigs)) = length (takeWhile (\<lambda>sig. \<not> is_stop sig) sigs)"
  by (induction sigs) (auto simp: is_stop_def split: signal.splits)

text \<open>
  However the signals come, the daemon begins to stop once, at the first stop signal; it exits at once at the
  second and at no other, and that is the last thing it does; and it reloads for every SIGHUP up to then.
\<close>

theorem handleSignals_once:
  "let effs = handleSignals False sigs;
       first = takeWhile (\<lambda>sig. \<not> is_stop sig) sigs; later = dropWhile (\<lambda>sig. \<not> is_stop sig) sigs
   in length (filter ((=) BeginsStop) effs) = (if \<exists>sig \<in> set sigs. is_stop sig then 1 else 0) \<and>
     (ExitsInterrupted \<in> set effs \<longleftrightarrow> 2 \<le> length (filter is_stop sigs)) \<and> ExitsInterrupted \<notin> set (butlast effs) \<and>
     length (filter ((=) Reloads) effs) = length first + length (takeWhile (\<lambda>sig. \<not> is_stop sig) (tl later))"
proof (induction sigs)
  case (Cons sig sigs)
  show ?case
  proof (cases "is_stop sig")
    case True
    have "filter ((=) BeginsStop) (handleSignals True sigs) = []"
      using handleSignals_down [of sigs] by (auto simp: filter_empty_conv)
    moreover have "1 \<le> length (filter is_stop sigs) \<longleftrightarrow> (\<exists>sig \<in> set sigs. is_stop sig)"
      by (induction sigs) auto
    moreover have "handleSignals False (sig # sigs) = BeginsStop # handleSignals True sigs"
      using True by (cases sig) (simp_all add: is_stop_def)
    ultimately show ?thesis using True handleSignals_down [of sigs] by (auto simp: Let_def)
  next
    case False
    then have "handleSignals False (sig # sigs) = Reloads # handleSignals False sigs"
      by (cases sig) (simp_all add: is_stop_def)
    with False Cons show ?thesis by (auto simp: Let_def)
  qed
qed simp

section \<open>A shutdown in the middle of a reload\<close>

lemma tiers_run:
  "dm_life d = Stopping_tiers tiers \<Longrightarrow>
   \<exists>ls d'. runs daemon_step d ls d' \<and> dm_life d' = Ended \<and> dm_server d' = dm_server d \<and>
     set (dm_stopped d') \<subseteq> set (dm_stopped d) \<union> {(m, q). fmlookup (sv_processes (dm_server d)) m = Some q} \<and>
     (pid_file d \<noteq> '''' \<longrightarrow> \<not> dm_state_file d')"
proof (induction tiers arbitrary: d)
  case Nil
  let ?d1 = "d\<lparr>dm_life := Stopping_ipc\<rparr>" and ?d2 = "d\<lparr>dm_ipc := False, dm_life := Clearing_state\<rparr>"
  let ?d3 = "?d2\<lparr>dm_state_file := dm_state_file d \<and> stateFilePath (pid_file d) = '''', dm_life := Releasing_lock\<rparr>"
  let ?d4 = "(releasePIDFile ?d3)\<lparr>dm_life := Ended\<rparr>"
  have "runs daemon_step ?d3 [ReleasesLock] ?d4" by (rule runs_one, rule stop_steps) simp
  then have "runs daemon_step ?d2 [ClearsState, ReleasesLock] ?d4"
    by (rule runs_Cons [rotated]) (rule stop_steps, simp add: pid_file_def)
  then have "runs daemon_step ?d1 [StopsIpc, ClearsState, ReleasesLock] ?d4"
    by (rule runs_Cons [rotated]) (rule stop_steps, simp)
  then have "runs daemon_step d [TiersDone, StopsIpc, ClearsState, ReleasesLock] ?d4"
    by (rule runs_Cons [rotated]) (rule stop_steps, simp add: Nil)
  moreover have "stateFilePath (pid_file d) \<noteq> ''''" if "pid_file d \<noteq> ''''" using that by (simp add: stateFilePath_def)
  ultimately show ?case
    by (intro exI [of _ "[TiersDone, StopsIpc, ClearsState, ReleasesLock]"] exI [of _ ?d4]) (auto simp: releasePIDFile_def)
next
  case (Cons names tiers)
  let ?d1 = "d\<lparr>dm_stopped := dm_stopped d @ concat (map (found (dm_server d)) names), dm_life := Stopping_tiers tiers\<rparr>"
  have "daemon_step d StopsTier ?d1" by (rule stop_steps) (simp add: Cons.prems)
  moreover obtain ls d' where "runs daemon_step ?d1 ls d'" "dm_life d' = Ended" "dm_server d' = dm_server d"
    "set (dm_stopped d') \<subseteq> set (dm_stopped ?d1) \<union> {(m, q). fmlookup (sv_processes (dm_server d)) m = Some q}"
    "pid_file d \<noteq> '''' \<longrightarrow> \<not> dm_state_file d'"
    using Cons.IH [of ?d1] by (auto simp: pid_file_def)
  moreover have "set (concat (map (found (dm_server d)) names)) \<subseteq> {(m, q). fmlookup (sv_processes (dm_server d)) m = Some q}"
    by (auto simp: found_def split: option.splits)
  ultimately show ?case by (intro exI [of _ "StopsTier # ls"] exI [of _ d']) (auto intro: runs_Cons)
qed

text \<open>The daemon while a reload waits for the programs it is about to drop or replace; the reconciler is between two passes.\<close>

definition waiting_daemon :: "server \<Rightarrow> daemon" where
  "waiting_daemon s = (new_daemon s)\<lparr>dm_running := True, dm_locked := pid_file (new_daemon s) \<noteq> '''', dm_reaping := True,
     dm_orphans_gone := True, dm_ipc := True, dm_loop := Selecting, dm_reconcileNow := True, dm_life := Up\<rparr>"

lemma Reload_pid_file:
  "cfg_PidFile (Supavisor (sv_config (snd (Reload parsed ords ords2 mkdirAll fs (\<lambda>t. t) s)))) = cfg_PidFile (Supavisor (sv_config s))"
proof (cases "check_reload parsed ords mkdirAll fs s")
  case (Inr newCfg)
  then have "changedDaemonSetting (Supavisor (sv_config s)) (Supavisor newCfg) = ''''"
    by (auto simp: check_reload_def Let_def split: sum.splits if_splits)
  then have "cfg_PidFile (Supavisor newCfg) = cfg_PidFile (Supavisor (sv_config s))"
    by (simp add: changedDaemonSetting_def split: if_splits)
  then show ?thesis by (simp add: Reload_def Inr Let_def applyPrograms_def)
qed (simp add: Reload_def)

lemma shutdown_run:
  assumes "cfg_PidFile (Supavisor (sv_config after)) = cfg_PidFile (Supavisor (sv_config s))"
  shows "\<exists>ls d. runs daemon_step (waiting_daemon s) ls d \<and> World after \<in> set ls \<and> dm_life d = Ended \<and>
    set (dm_stopped d) \<subseteq> {(m, q). fmlookup (sv_processes after) m = Some q} \<and> (pid_file d \<noteq> '''' \<longrightarrow> \<not> dm_state_file d)"
proof -
  let ?d0 = "waiting_daemon s"
  let ?d1 = "?d0\<lparr>dm_running := False, dm_stopChan := True, dm_life := Awaiting_reconciler\<rparr>"
  let ?d2 = "?d1\<lparr>dm_loop := Loop_over, dm_reconcileDone := True\<rparr>"
  let ?d3 = "?d2\<lparr>dm_server := after\<rparr>"
  let ?d4 = "?d3\<lparr>dm_life := Awaiting_actions\<rparr>"
  let ?d5 = "?d4\<lparr>dm_life := Stopping_tiers (shutdown_tiers [] [] [] after)\<rparr>"
  obtain ls d where run: "runs daemon_step ?d5 ls d" "dm_life d = Ended" "dm_server d = dm_server ?d5"
    "set (dm_stopped d) \<subseteq> set (dm_stopped ?d5) \<union> {(m, q). fmlookup (sv_processes (dm_server ?d5)) m = Some q}"
    "pid_file ?d5 \<noteq> '''' \<longrightarrow> \<not> dm_state_file d"
    using tiers_run [of ?d5 "shutdown_tiers [] [] [] after"] by (auto simp del: daemon.simps simp: daemon.select_convs daemon.update_convs)
  have "runs daemon_step ?d4 (SeesActions [] [] [] # ls) d"
    by (rule runs_Cons [OF _ run(1)], rule stop_steps) (simp add: waiting_daemon_def new_daemon_def)
  then have "runs daemon_step ?d3 (SeesReconciler # SeesActions [] [] [] # ls) d"
    by (rule runs_Cons [rotated]) (rule stop_steps, simp)
  then have "runs daemon_step ?d2 (World after # SeesReconciler # SeesActions [] [] [] # ls) d"
    by (rule runs_Cons [rotated]) (rule others_step, simp add: assms pid_file_def waiting_daemon_def new_daemon_def)
  then have "runs daemon_step ?d1 (SelectsStop # World after # SeesReconciler # SeesActions [] [] [] # ls) d"
    by (rule runs_Cons [rotated]) (rule loop_steps, simp add: waiting_daemon_def)
  then have "runs daemon_step ?d0 (StopBegins # SelectsStop # World after # SeesReconciler # SeesActions [] [] [] # ls) d"
    by (rule runs_Cons [rotated]) (rule stop_steps, simp add: waiting_daemon_def)
  moreover have "set (dm_stopped d) \<subseteq> {(m, q). fmlookup (sv_processes after) m = Some q}"
    using run(4) by (simp add: waiting_daemon_def new_daemon_def)
  moreover have "pid_file d \<noteq> '''' \<longrightarrow> \<not> dm_state_file d" using run(3,5) by (simp add: pid_file_def)
  ultimately show ?thesis using run(2)
    by (intro exI [of _ "StopBegins # SelectsStop # World after # SeesReconciler # SeesActions [] [] [] # ls"] exI [of _ d]) simp
qed

text \<open>
  When the daemon is told to stop while a reload waits for a program that is still running, the wait ends at once,
  the reload drops or replaces the program all the same, and the shutdown can end without having
  stopped it: its process is no longer among those the server has, and the record that would let the next
  daemon find it is removed with the state file.
\<close>

theorem shutdown_abandons_reloaded:
  assumes "check_reload parsed ords mkdirAll fs s = Inr newCfg"
    and "ranges (fst ords2) (Programs newCfg)" and "ranges (snd ords2) (Programs (sv_config s))"
    and "name \<in> fmdom' (Programs (sv_config s))" and "fmlookup (Programs newCfg) name \<noteq> fmlookup (Programs (sv_config s)) name"
    and "fmlookup (sv_processes s) name = Some p" and "GetState p = StateRunning"
    and "plan = diffPrograms (fst ords2) (snd ords2) (Programs (sv_config s)) (Programs newCfg)"
    and "asked = stopForReload (rr_Removed plan @ rr_Changed plan) s"
  shows "awaitState asked name (\<lambda>q. GetState q = StateStopped)
      [\<lparr>poll_program = p, poll_server = asked, poll_wake = Shutdown\<rparr>] = Some (Inl ShuttingDown) \<and>
    (\<exists>ls d. runs daemon_step (waiting_daemon asked) ls d \<and>
      World (snd (Reload parsed ords ords2 mkdirAll fs (\<lambda>t. t) s)) \<in> set ls \<and> dm_life d = Ended \<and>
      (name, p) \<notin> set (dm_stopped d) \<and> (pid_file d \<noteq> '''' \<longrightarrow> \<not> dm_state_file d))"
proof -
  note sets = diffPrograms_sets [OF assms(2,3), folded assms(8)]
  have named: "name \<in> set (rr_Removed plan @ rr_Changed plan)"
    using assms(4,5) by (auto simp: sets in_dom_iff)
  have not_wanted: "\<not> wantsToRun asked name"
    using named assms(6) by (simp add: wantsToRun_def assms(9) stopForReload_desired)
  have proc: "fmlookup (sv_processes asked) name = Some p" using assms(6) by (simp add: assms(9))
  have wait: "awaitState asked name (\<lambda>q. GetState q = StateStopped)
      [\<lparr>poll_program = p, poll_server = asked, poll_wake = Shutdown\<rparr>] = Some (Inl ShuttingDown)"
    using proc not_wanted assms(7) by (simp add: awaitState_def)
  define after where "after = snd (Reload parsed ords ords2 mkdirAll fs (\<lambda>t. t) s)"
  have "\<not> Empty plan"
    using diffPrograms_empty_iff [OF assms(2,3)] assms(5,8) by auto
  then have after: "after = applyPrograms ords newCfg (sv_desired s) plan asked"
    using assms(1,8,9) by (simp add: after_def Reload_def Let_def)
  have gone: "fmlookup (sv_processes after) name = map_option (\<lambda>_. newProcess) (fmlookup (Programs newCfg) name)"
    using applyPrograms_plan [OF assms(2,3), where n = name and ords = ords and prev = "sv_desired s" and s = asked] assms(5,8)
    by (simp add: after)
  have "p \<noteq> newProcess" using assms(7) by (auto simp: newProcess_def GetState_def NewProcess_def)
  with gone have lost: "fmlookup (sv_processes after) name \<noteq> Some p" by auto
  have "cfg_PidFile (Supavisor (sv_config after)) = cfg_PidFile (Supavisor (sv_config asked))"
    by (simp add: after_def Reload_pid_file assms(9))
  from shutdown_run [OF this] obtain ls d where "runs daemon_step (waiting_daemon asked) ls d" "World after \<in> set ls"
    "dm_life d = Ended" "set (dm_stopped d) \<subseteq> {(m, q). fmlookup (sv_processes after) m = Some q}"
    "pid_file d \<noteq> '''' \<longrightarrow> \<not> dm_state_file d" by blast
  with wait lost show ?thesis unfolding after_def by blast
qed

text \<open>The sample server with both programs running, asked to drop \<^verbatim>\<open>api\<close>.\<close>

definition sample_serving :: server where
  "sample_serving = sample_running\<lparr>sv_processes :=
     fmap_of_list [(''db'', sample_program_in StateRunning), (''api'', sample_program_in StateRunning)]\<rparr>"

definition sample_reload_orders :: orders where
  "sample_reload_orders = sample_orders\<lparr>o_validate := [''db''], o_build := [''db''], o_nodes := [''db''], o_degrees := [''db'']\<rparr>"

lemma sample_check_reload:
  "check_reload (\<lambda>path. Inr sample_new_cfg) sample_reload_orders (\<lambda>dir fs. Inr fs) () sample_serving = Inr sample_new_cfg"
  by code_simp

theorem shutdown_abandons_reloaded_witness:
  "\<exists>s ls d. runs daemon_step (waiting_daemon s) ls d \<and> dm_life d = Ended \<and>
    (''api'', sample_program_in StateRunning) \<notin> set (dm_stopped d)"
proof -
  let ?old = "Programs (sv_config sample_serving)"
  have old: "?old = Programs (sample_validate [(''db'', []), (''api'', [''db''])])"
    by (simp add: sample_serving_def sample_running_config)
  have "ranges (fst ([''db''], [''api'', ''db''])) (Programs sample_new_cfg)" "ranges (snd ([''db''], [''api'', ''db''])) ?old"
    by (auto simp: old ranges_def sample_new_cfg_def sample_validate_def)
  moreover have "''api'' \<in> fmdom' ?old" "fmlookup (Programs sample_new_cfg) ''api'' \<noteq> fmlookup ?old ''api''"
    by (simp_all add: old sample_new_cfg_def sample_validate_def)
  moreover have "fmlookup (sv_processes sample_serving) ''api'' = Some (sample_program_in StateRunning)"
    by (simp add: sample_serving_def)
  moreover have "GetState (sample_program_in StateRunning) = StateRunning" by (simp add: GetState_def sample_program_in_def)
  ultimately show ?thesis
    using shutdown_abandons_reloaded [OF sample_check_reload, where ?ords2.0 = "([''db''], [''api'', ''db''])"
        and name = "''api''" and p = "sample_program_in StateRunning"] by blast
qed

end
