(* ===== verification/Startup.thy ===== *)
theory Startup
  imports Daemon
begin

text \<open>
  The start of the program, \<^verbatim>\<open>cmd/supavisor/main.go\<close>, with \<^verbatim>\<open>internal/version/version.go\<close>: the flags, the
  configuration, where the log goes, the level, the server and its start. \<open>parsed\<close> is \<open>ParseConfig\<close> on the
  files of the machine, theory \<open>Convert\<close>; \<open>dir\<close>, \<open>mkdirAll\<close> and \<open>openLog\<close> are \<^verbatim>\<open>filepath.Dir\<close>,
  \<^verbatim>\<open>os.MkdirAll\<close> and \<^verbatim>\<open>os.OpenFile\<close> for appending. \<^verbatim>\<open>Fprintf\<close> with no destination and the handlers of
  \<^verbatim>\<open>log/slog\<close> are left out, but for the file, format and level they are given.
\<close>

section \<open>Version\<close>

record build =
  Version :: string
  Commit :: string
  Date :: string

definition unreleased :: build where
  "unreleased = \<lparr>Version = ''dev'', Commit = ''none'', Date = ''unknown''\<rparr>"

definition version_String :: "build \<Rightarrow> string \<Rightarrow> string" where
  "version_String b name = name @ '' '' @ Version b @ '' ('' @ Commit b @ '', '' @ Date b @ '')''"

section \<open>Logging\<close>

datatype log_level = LevelDebug | LevelInfo | LevelWarn | LevelError

definition parseLogLevel :: "string \<Rightarrow> string + log_level" where
  "parseLogLevel level =
     (let l = ToLower (TrimSpace level)
      in if l = ''debug'' then Inr LevelDebug
         else if l = ''info'' then Inr LevelInfo
         else if l = ''warn'' then Inr LevelWarn
         else if l = ''error'' then Inr LevelError
         else Inl (''invalid log level '' @ level @ '': must be debug, info, warn, or error''))"

datatype log_output = LogTo string | LogToStdout | LogDiscarded

datatype log_handler = JSONHandler | TextHandler

record logging =
  lg_output :: log_output
  lg_handler :: log_handler
  lg_level :: log_level

section \<open>The program\<close>

record flags =
  fl_config :: string
  fl_logfile :: string
  fl_version :: bool

definition default_flags :: flags where
  "default_flags = \<lparr>fl_config = ''/etc/supavisor/supavisor.yml'', fl_logfile = '''', fl_version = False\<rparr>"

datatype main_error =
    ConfigPathRequired | ConfigUnparsed config_error
  | LogDirectoryFailed string | LogFileFailed string | LogLevelInvalid string
  | ServerNotCreated new_error | ServerNotStarted daemon_error

datatype main_outcome =
    Banner string                        \<comment> \<open>printed, and the program ends with code 0\<close>
  | Fails main_error "logging option"    \<comment> \<open>the program ends with code 1; said on the error stream, or in the log given\<close>
  | Serves logging daemon

definition logFilePath :: "flags \<Rightarrow> Config \<Rightarrow> string" where
  "logFilePath fl cfg =
     (if fl_logfile fl = '''' \<and> cfg_LogFile (Supavisor cfg) \<noteq> '''' then cfg_LogFile (Supavisor cfg) else fl_logfile fl)"

definition open_log ::
  "(string \<Rightarrow> string) \<Rightarrow> (string \<Rightarrow> 'fs \<Rightarrow> string + 'fs) \<Rightarrow> (string \<Rightarrow> 'fs \<Rightarrow> string + 'fs) \<Rightarrow> bool \<Rightarrow> string \<Rightarrow> 'fs \<Rightarrow>
   main_error + log_output \<times> 'fs" where
  "open_log dir mkdirAll openLog isTTY path fs =
     (if path \<noteq> '''' then
        (case if dir path \<noteq> '''' \<and> dir path \<noteq> ''.'' then mkdirAll (dir path) fs else Inr fs of
           Inl e \<Rightarrow> Inl (LogDirectoryFailed e)
         | Inr fs1 \<Rightarrow>
        (case openLog path fs1 of
           Inl e \<Rightarrow> Inl (LogFileFailed e)
         | Inr fs2 \<Rightarrow> Inr (LogTo path, fs2)))
      else if isTTY then Inr (LogToStdout, fs)
      else Inr (LogDiscarded, fs))"

definition slog_handler :: "string \<Rightarrow> log_handler" where
  "slog_handler format = (if format = ''json'' then JSONHandler else TextHandler)"

text \<open>\<open>lock\<close>, \<open>ipc\<close> and \<open>ord\<close> are those of \<open>Start_daemon\<close>; \<open>ords\<close> those of \<open>New\<close>.\<close>

definition main_program ::
  "build \<Rightarrow> (string \<Rightarrow> config_error + Config) \<Rightarrow> (string \<Rightarrow> string) \<Rightarrow> (string \<Rightarrow> 'fs \<Rightarrow> string + 'fs) \<Rightarrow>
   (string \<Rightarrow> 'fs \<Rightarrow> string + 'fs) \<Rightarrow> bool \<Rightarrow> orders \<Rightarrow> lock_error option \<Rightarrow> start_error option \<Rightarrow> string list \<Rightarrow>
   flags \<Rightarrow> 'fs \<Rightarrow> main_outcome" where
  "main_program b parsed dir mkdirAll openLog isTTY ords lock ipc ord fl fs =
     (if fl_version fl then Banner (version_String b ''supavisor'')
      else if fl_config fl = '''' then Fails ConfigPathRequired None
      else case parsed (fl_config fl) of
        Inl e \<Rightarrow> Fails (ConfigUnparsed e) None
      | Inr cfg \<Rightarrow>
     (case open_log dir mkdirAll openLog isTTY (logFilePath fl cfg) fs of
        Inl e \<Rightarrow> Fails e None
      | Inr (out, fs1) \<Rightarrow>
     (case parseLogLevel (cfg_LogLevel (Supavisor cfg)) of
        Inl e \<Rightarrow> Fails (LogLevelInvalid e) None
      | Inr level \<Rightarrow>
     (let lg = \<lparr>lg_output = out, lg_handler = slog_handler (cfg_LogFormat (Supavisor cfg)), lg_level = level\<rparr>
      in case New mkdirAll ords cfg fs1 of
           Inl e \<Rightarrow> Fails (ServerNotCreated e) (Some lg)
         | Inr (s, fs2) \<Rightarrow>
        (case Start_daemon lock ipc ord (new_daemon s) of
           (Some e, d) \<Rightarrow> Fails (ServerNotStarted e) (Some lg)
         | (None, d) \<Rightarrow> Serves lg d)))))"

section \<open>What the start amounts to\<close>

lemma parseLogLevel_cases:
  "(\<exists>l. parseLogLevel level = Inr l) \<longleftrightarrow> ToLower (TrimSpace level) \<in> {''debug'', ''info'', ''warn'', ''error''}"
  by (simp add: parseLogLevel_def Let_def)

text \<open>The program serves with the settings and the configuration it read, as the only holder of its PID file.\<close>

lemma main_serves:
  assumes "main_program b parsed dir mkdirAll openLog isTTY ords lock ipc ord fl fs = Serves lg d"
  shows "\<exists>cfg. parsed (fl_config fl) = Inr cfg \<and> Validate (o_validate ords) cfg = Inr () \<and> sv_config (dm_server d) = cfg \<and>
    parseLogLevel (cfg_LogLevel (Supavisor cfg)) = Inr (lg_level lg) \<and>
    lg_output lg = (if logFilePath fl cfg \<noteq> '''' then LogTo (logFilePath fl cfg) else if isTTY then LogToStdout else LogDiscarded) \<and>
    started_daemon d \<and> dm_life d = Up \<and> lock_held d \<and> (lock \<noteq> None \<longrightarrow> cfg_PidFile (Supavisor cfg) = '''')"
proof -
  from assms obtain cfg out fs1 s fs2 where main: "parsed (fl_config fl) = Inr cfg"
    "open_log dir mkdirAll openLog isTTY (logFilePath fl cfg) fs = Inr (out, fs1)"
    "parseLogLevel (cfg_LogLevel (Supavisor cfg)) = Inr (lg_level lg)" "lg_output lg = out"
    "New mkdirAll ords cfg fs1 = Inr (s, fs2)" "Start_daemon lock ipc ord (new_daemon s) = (None, d)"
    by (auto simp: main_program_def Let_def split: if_splits sum.splits prod.splits option.splits)
  have new: "Validate (o_validate ords) cfg = Inr ()" "sv_config s = cfg"
    using main(5) by (auto simp: New_def Let_def split: sum.splits)
  have "out = (if logFilePath fl cfg \<noteq> '''' then LogTo (logFilePath fl cfg) else if isTTY then LogToStdout else LogDiscarded)"
    using main(2) by (auto simp: open_log_def split: if_splits sum.splits)
  moreover have "started_daemon d" unfolding started_daemon_def by (metis main(6) snd_conv)
  moreover have "sv_config (dm_server d) = cfg" "dm_life d = Up \<and> lock_held d \<and> (lock \<noteq> None \<longrightarrow> cfg_PidFile (Supavisor cfg) = '''')"
    using main(6) new(2)
    by (auto simp: Start_daemon_def lockPIDFile_def new_daemon_def lock_held_def pid_file_def Let_def split: if_splits option.splits)
  ultimately show ?thesis using main new by blast
qed

text \<open>With no log file and no terminal, what goes wrong in creating or starting the server is said nowhere.\<close>

lemma main_fails_silently:
  assumes "main_program b parsed dir mkdirAll openLog False ords lock ipc ord fl fs = Fails e (Some lg)"
    and "parsed (fl_config fl) = Inr cfg" and "logFilePath fl cfg = ''''"
  shows "lg_output lg = LogDiscarded"
  using assms by (auto simp: main_program_def open_log_def Let_def split: if_splits sum.splits prod.splits option.splits)

lemma version_String_unreleased: "version_String unreleased ''sctl'' = ''sctl dev (none, unknown)''"
  by code_simp

section \<open>From the files to a daemon that serves\<close>

lemma New_validated: "New mkdirAll ords c fs = Inr res \<Longrightarrow> Validate (o_validate ords) c = Inr ()"
  by (auto simp: New_def Let_def split: sum.splits)

lemma Serves_parts:
  assumes "main_program b parsed dir mkdirAll openLog isTTY ords lock ipc ord fl fs = Serves lg d"
  obtains cfg fs1 fs2 where "parsed (fl_config fl) = Inr cfg" "New mkdirAll ords cfg fs1 = Inr (dm_server d, fs2)"
proof -
  from assms obtain cfg fs1 s fs2 where "parsed (fl_config fl) = Inr cfg" "New mkdirAll ords cfg fs1 = Inr (s, fs2)"
    "Start_daemon lock ipc ord (new_daemon s) = (None, d)"
    by (auto simp: main_program_def Let_def split: if_splits sum.splits prod.splits option.splits)
  moreover from this(3) have "dm_server d = s"
    by (auto simp: Start_daemon_def lockPIDFile_def new_daemon_def pid_file_def Let_def split: if_splits option.splits)
  ultimately show ?thesis using that by blast
qed

text \<open>
  C34. A daemon that comes to serve is well-formed all the way from its files: every program of its configuration has a
  command and settings in range under its own name, the dependencies have no cycle and every one names a program, the
  server has exactly one STOPPED process for each program, its graph is that of the configuration, and
  the PID file is locked if there is one.
\<close>

theorem main_well_formed:
  assumes "main_program b (ParseConfig lib parse_raw rord fragments) dir mkdirAll openLog isTTY ords lock ipc ord fl fs = Serves lg d"
    and "\<And>path content. parse_raw path = Inr content \<Longrightarrow> ranges (rord path) (cf_Programs content)"
    and "\<And>name. set (field_order lib name) = {''startsecs'', ''stopwaitsecs'', ''max_restarts''}"
    and "\<And>cfg. ParseConfig lib parse_raw rord fragments (fl_config fl) = Inr cfg \<Longrightarrow> orders_ok ords cfg"
  shows "server_ok (dm_server d) \<and> closed_deps (sv_config (dm_server d)) \<and>
    acyclic (leads_to (sv_config (dm_server d))) \<and>
    (\<forall>name pc. fmlookup (Programs (sv_config (dm_server d))) name = Some pc \<longrightarrow>
       pc_Name pc = name \<and> program_ok pc \<and> fmlookup (sv_processes (dm_server d)) name = Some newProcess) \<and>
    reachable started_daemon daemon_step d \<and> dm_life d = Up \<and> lock_held d"
proof -
  obtain cfg fs1 fs2 where cfg: "ParseConfig lib parse_raw rord fragments (fl_config fl) = Inr cfg"
    and new: "New mkdirAll ords cfg fs1 = Inr (dm_server d, fs2)"
    using Serves_parts [OF assms(1)] .
  note ok = assms(4) [OF cfg]
  note made = New_result [OF ok new]
  from Validate_accepts [OF _ New_validated [OF new]] ok show ?thesis
    using made main_serves [OF assms(1)] ParseConfig_programs_ok [OF cfg assms(2,3)]
    by (auto simp: orders_ok_def intro: reachable_initial)
qed

text \<open>The files of theory \<open>Convert\<close>, with the one program that they define.\<close>

definition loaded_orders :: orders where
  "loaded_orders = sample_orders\<lparr>o_validate := [''db''], o_build := [''db''], o_nodes := [''db''], o_degrees := [''db'']\<rparr>"

definition sample_parse :: "string \<Rightarrow> config_error + Config" where
  "sample_parse = ParseConfig sample_lib sample_read sample_ord (\<lambda>_. Inr [''a.d/b.yml''])"

definition sample_main :: main_outcome where
  "sample_main = main_program unreleased sample_parse (\<lambda>_. ''.'') (\<lambda>dir fs. Inr fs) (\<lambda>path fs. Inr fs) True loaded_orders
     None None [''db''] (default_flags\<lparr>fl_config := ''a.yml''\<rparr>) ()"

lemma loaded_new: "\<exists>s. New (\<lambda>dir fs. Inr fs) loaded_orders sample_loaded () = Inr (s, ())"
proof -
  have "(case New (\<lambda>dir fs. Inr fs) loaded_orders sample_loaded () of Inr _ \<Rightarrow> True | Inl _ \<Rightarrow> False)" by code_simp
  then show ?thesis by (auto split: sum.splits)
qed

lemma sample_serves: "\<exists>lg d. sample_main = Serves lg d"
proof -
  have cfg: "sample_parse ''a.yml'' = Inr sample_loaded" by (simp add: sample_parse_def sample_loads)
  obtain s where new: "New (\<lambda>dir fs. Inr fs) loaded_orders sample_loaded () = Inr (s, ())" using loaded_new by blast
  have "cfg_LogFile (Supavisor sample_loaded) = ''''" "parseLogLevel (cfg_LogLevel (Supavisor sample_loaded)) = Inr LevelInfo"
    by code_simp+
  with cfg new show ?thesis
    by (auto simp: sample_main_def main_program_def default_flags_def open_log_def logFilePath_def Start_daemon_def lockPIDFile_def
        new_daemon_def Let_def split: sum.splits option.splits)
qed

theorem main_well_formed_witness: "\<exists>lg d. sample_main = Serves lg d \<and> server_ok (dm_server d) \<and> lock_held d"
proof -
  obtain lg d where run: "sample_main = Serves lg d" using sample_serves by blast
  have "ranges (sample_ord path) (cf_Programs content)" if "sample_read path = Inr content" for path content
    using that by (auto simp: sample_read_def sample_ord_def ranges_def split: if_splits)
  moreover have "set (field_order sample_lib name) = {''startsecs'', ''stopwaitsecs'', ''max_restarts''}" for name
    by (auto simp: sample_lib_def)
  moreover have "orders_ok loaded_orders cfg" if "ParseConfig sample_lib sample_read sample_ord (\<lambda>_. Inr [''a.d/b.yml'']) ''a.yml'' = Inr cfg" for cfg
    using that sample_loads by (auto simp: orders_ok_def ranges_def loaded_orders_def sample_orders_def sample_loaded_def)
  ultimately show ?thesis
    using run main_well_formed [OF run [unfolded sample_main_def sample_parse_def]]
    by (intro exI [of _ lg] exI [of _ d]) (simp add: default_flags_def)
qed

end
