(* ===== verification/ReapLoop.thy ===== *)
theory ReapLoop
  imports Reaper
begin

text \<open>
  The goroutine of the reaper, \<open>run\<close> and \<open>reapAll\<close> of \<^verbatim>\<open>internal/process/reaper.go\<close>, cut where others can
  move: the notification of SIGCHLD and the channel it goes through, the lock, the call of \<^verbatim>\<open>wait4\<close>, which
  frees the number of the child, the section in which its waiter is dropped, and the delivery.

  Theory \<open>Reaper\<close> takes a round of the loop as one step. Here that is proved to be right: seen from
  outside, a child that has been taken but not been dispatched is one that has been dispatched.
\<close>

section \<open>The loop\<close>

text \<open>
  \<open>AtWait4\<close> is the head of the loop, under the lock; \<open>Took\<close> has a number and a status from \<^verbatim>\<open>wait4\<close>, \<open>Dropped\<close>
  the channel of the waiter that was dropped. At \<open>AtUnlock\<close> the last \<^verbatim>\<open>wait4\<close> has found nothing; children may exit
  before the loop is back at its \<open>select\<close>.
\<close>

datatype run_pc = InSelect | AtLock | AtWait4 | Took int WaitStatus | Dropped "nat option" WaitStatus | AtUnlock

text \<open>
  \<open>rl_raised\<close>: a SIGCHLD is pending, of which there is at most one; \<open>rl_sigChan\<close>: the channel, which has
  room for one signal, holds one.
\<close>

record reap_sys =
  rl_sys :: reaper_sys
  rl_pc :: run_pc
  rl_raised :: bool
  rl_sigChan :: bool

definition StartReaping :: reap_sys where
  "StartReaping = \<lparr>rl_sys = new_reaper, rl_pc = InSelect, rl_raised = False, rl_sigChan = False\<rparr>"

text \<open>A signal is put in the channel of \<^verbatim>\<open>signal.Notify\<close>, or dropped when the channel is full.\<close>

definition signal_reaper :: "reap_sys \<Rightarrow> reap_sys" where
  "signal_reaper s = s\<lparr>rl_raised := False, rl_sigChan := True\<rparr>"

definition wait4_takes :: "int \<Rightarrow> reaper_sys \<Rightarrow> reaper_sys" where
  "wait4_takes pid s = s\<lparr>children := fmdrop pid (children s)\<rparr>"

definition take_waiter :: "int \<Rightarrow> reaper_sys \<Rightarrow> nat option \<times> reaper_sys" where
  "take_waiter pid s = (fmlookup (waiters s) pid, s\<lparr>waiters := fmdrop pid (waiters s)\<rparr>)"

definition dispatch :: "nat option \<Rightarrow> WaitStatus \<Rightarrow> reaper_sys \<Rightarrow> reaper_sys" where
  "dispatch exited status s = (case exited of None \<Rightarrow> s | Some ch \<Rightarrow> deliver ch status s)"

text \<open>What others do: the starts of programs, and the kernel.\<close>

fun from_outside :: "reaper_label \<Rightarrow> bool" where
  "from_outside (Fork pid) = True"
| "from_outside (Register pid) = True"
| "from_outside (Exit pid status) = True"
| "from_outside (Orphan pid) = True"
| "from_outside _ = False"

fun is_exit :: "reaper_label \<Rightarrow> bool" where
  "is_exit (Exit pid status) = True"
| "is_exit _ = False"

datatype run_label = World reaper_label | Notified | OnSignal | OnTick | Locks | Waits int | Drops | Sends | FindsNone | Unlocks

inductive run_step :: "reap_sys \<Rightarrow> run_label \<Rightarrow> reap_sys \<Rightarrow> bool" where
  world: "from_outside l \<Longrightarrow> reaper_step (rl_sys s) l sys \<Longrightarrow>
    run_step s (World l) (s\<lparr>rl_sys := sys, rl_raised := rl_raised s \<or> is_exit l\<rparr>)"
| notified: "rl_raised s \<Longrightarrow> run_step s Notified (signal_reaper s)"
| on_signal: "rl_pc s = InSelect \<Longrightarrow> rl_sigChan s \<Longrightarrow> run_step s OnSignal (s\<lparr>rl_pc := AtLock, rl_sigChan := False\<rparr>)"
| on_tick: "rl_pc s = InSelect \<Longrightarrow> run_step s OnTick (s\<lparr>rl_pc := AtLock\<rparr>)"
| locks: "rl_pc s = AtLock \<Longrightarrow> \<not> reaping (rl_sys s) \<Longrightarrow> forked (rl_sys s) = fmempty \<Longrightarrow>
    run_step s Locks (s\<lparr>rl_pc := AtWait4, rl_sys := (rl_sys s)\<lparr>reaping := True\<rparr>\<rparr>)"
| waits: "rl_pc s = AtWait4 \<Longrightarrow> fmlookup (children (rl_sys s)) pid = Some c \<Longrightarrow> ch_state c = Zombie status \<Longrightarrow>
    run_step s (Waits pid) (s\<lparr>rl_pc := Took pid status, rl_sys := wait4_takes pid (rl_sys s)\<rparr>)"
| drops: "rl_pc s = Took pid status \<Longrightarrow> take_waiter pid (rl_sys s) = (exited, sys) \<Longrightarrow>
    run_step s Drops (s\<lparr>rl_pc := Dropped exited status, rl_sys := sys\<rparr>)"
| sends: "rl_pc s = Dropped exited status \<Longrightarrow>
    run_step s Sends (s\<lparr>rl_pc := AtWait4, rl_sys := dispatch exited status (rl_sys s)\<rparr>)"
| finds_none: "rl_pc s = AtWait4 \<Longrightarrow> no_zombie (rl_sys s) \<Longrightarrow> run_step s FindsNone (s\<lparr>rl_pc := AtUnlock\<rparr>)"
| unlocks: "rl_pc s = AtUnlock \<Longrightarrow>
    run_step s Unlocks (s\<lparr>rl_pc := InSelect, rl_sys := (rl_sys s)\<lparr>reaping := False\<rparr>\<rparr>)"

inductive_cases run_stepE: "run_step s l s'"

abbreviation run_reachable :: "reap_sys \<Rightarrow> bool" where
  "run_reachable \<equiv> reachable (\<lambda>s. s = StartReaping) run_step"

section \<open>Refinement of the reaper\<close>

text \<open>The reaper as others see it: what was taken has been dispatched.\<close>

definition settle :: "reap_sys \<Rightarrow> reaper_sys" where
  "settle s = (case rl_pc s of
       Took pid status \<Rightarrow> (case take_waiter pid (rl_sys s) of (exited, sys) \<Rightarrow> dispatch exited status sys)
     | Dropped exited status \<Rightarrow> dispatch exited status (rl_sys s)
     | _ \<Rightarrow> rl_sys s)"

text \<open>The step of the reaper that a step of the loop amounts to, if any.\<close>

fun seen_as :: "run_label \<Rightarrow> reaper_label option" where
  "seen_as (World l) = Some l"
| "seen_as Locks = Some BeginReap"
| "seen_as (Waits pid) = Some (Wait4 pid)"
| "seen_as Unlocks = Some EndReap"
| "seen_as _ = None"

definition collecting :: "run_pc \<Rightarrow> bool" where
  "collecting c \<longleftrightarrow> (case c of InSelect \<Rightarrow> False | AtLock \<Rightarrow> False | _ \<Rightarrow> True)"

text \<open>
  The lock is held while the loop collects, and an exit that has not been collected is announced, or the
  loop will still call \<^verbatim>\<open>wait4\<close>.
\<close>

definition reap_loop_ok :: "reap_sys \<Rightarrow> bool" where
  "reap_loop_ok s \<longleftrightarrow> reaper_inv (settle s) \<and> (reaping (rl_sys s) \<longleftrightarrow> collecting (rl_pc s)) \<and>
     (zombies (rl_sys s) \<noteq> {} \<longrightarrow> rl_raised s \<or> rl_sigChan s \<or> rl_pc s \<notin> {InSelect, AtUnlock})"

lemma dispatch_frame [simp]:
  "children (dispatch e st s) = children s" "waiters (dispatch e st s) = waiters s" "forked (dispatch e st s) = forked s"
  "reaping (dispatch e st s) = reaping s" "exits (dispatch e st s) = exits s"
  "next_incarnation (dispatch e st s) = next_incarnation s"
  by (simp_all add: dispatch_def deliver_def split: option.splits)

lemma settle_frame [simp]:
  "children (settle s) = children (rl_sys s)" "forked (settle s) = forked (rl_sys s)"
  "reaping (settle s) = reaping (rl_sys s)" "exits (settle s) = exits (rl_sys s)"
  "next_incarnation (settle s) = next_incarnation (rl_sys s)"
  by (simp_all add: settle_def take_waiter_def split: run_pc.splits)

lemma collect_parts: "collect pid st s = (case take_waiter pid (wait4_takes pid s) of (e, sys) \<Rightarrow> dispatch e st sys)"
  by (simp add: collect_def take_waiter_def wait4_takes_def dispatch_def Let_def split: option.splits)

text \<open>The kernel's part of a reaper is not looked at when a status is dispatched.\<close>

lemma settle_kernel:
  "settle (s\<lparr>rl_sys := (rl_sys s)\<lparr>children := k, next_incarnation := n\<rparr>, rl_raised := b\<rparr>) =
     (settle s)\<lparr>children := k, next_incarnation := n\<rparr>"
  "settle (s\<lparr>rl_sys := (rl_sys s)\<lparr>children := k, exits := x\<rparr>, rl_raised := b\<rparr>) = (settle s)\<lparr>children := k, exits := x\<rparr>"
  by (simp_all add: settle_def take_waiter_def dispatch_def deliver_def split: run_pc.splits option.splits)

lemma settle_idle: "\<not> collecting (rl_pc s) \<Longrightarrow> settle s = rl_sys s"
  by (simp add: settle_def collecting_def split: run_pc.splits)

lemma settle_signalled: "settle (signal_reaper s) = settle s"
  by (cases "rl_pc s") (simp_all add: settle_def signal_reaper_def)

lemma world_seen:
  assumes ok: "reap_loop_ok s" and l: "from_outside l" "reaper_step (rl_sys s) l sys"
  shows "reaper_step (settle s) l (settle (s\<lparr>rl_sys := sys, rl_raised := b\<rparr>))"
proof -
  have idle: "settle s = rl_sys s \<and> settle (s\<lparr>rl_sys := sys, rl_raised := b\<rparr>) = sys" if "\<not> reaping (rl_sys s)"
    using ok that by (simp add: reap_loop_ok_def settle_idle)
  have nofork: "forked (rl_sys s) = fmempty" if "reaping (rl_sys s)"
    using ok that unfolding reap_loop_ok_def reaper_inv_def forks_ok_def by simp
  from l(2) show ?thesis
  proof (cases rule: reaper_step.cases)
    case (fork pid)
    with l(2) idle show ?thesis by simp
  next
    case (register pid i)
    then have "\<not> reaping (rl_sys s)" using nofork by auto
    with l(2) idle show ?thesis by simp
  next
    case (exit pid c status)
    have "settle (s\<lparr>rl_sys := sys, rl_raised := b\<rparr>) = child_exits pid status c (settle s)"
      using settle_kernel(2) exit(2) by (simp add: child_exits_def)
    with exit show ?thesis by (simp add: reaper_step.exit)
  next
    case (orphan pid)
    have "settle (s\<lparr>rl_sys := sys, rl_raised := b\<rparr>) = new_child pid (settle s)"
      using settle_kernel(1) orphan(2) by (simp add: new_child_def)
    with orphan show ?thesis by (simp add: reaper_step.orphan)
  qed (use l(1) in simp_all)
qed

lemma step_seen:
  assumes "reap_loop_ok s" and "run_step s l s'"
  shows "case seen_as l of None \<Rightarrow> settle s' = settle s | Some l' \<Rightarrow> reaper_step (settle s) l' (settle s')"
  using assms(2)
proof (cases rule: run_step.cases)
  case (world l' sys)
  with world_seen [OF assms(1)] show ?thesis by simp
next
  case (waits pid c status)
  then have "settle s' = collect pid status (settle s)"
    by (simp add: settle_def collect_parts)
  moreover have "reaping (settle s)" using assms(1) waits by (simp add: reap_loop_ok_def collecting_def)
  ultimately show ?thesis using waits by (simp add: reaper_step.wait4)
next
  case locks
  then have "settle s' = (settle s)\<lparr>reaping := True\<rparr>" by (simp add: settle_def)
  with locks show ?thesis by (simp add: reaper_step.begin_reap)
next
  case unlocks
  then have "settle s' = (settle s)\<lparr>reaping := False\<rparr>" by (simp add: settle_def)
  moreover have "reaping (settle s)" using assms(1) unlocks by (simp add: reap_loop_ok_def collecting_def)
  ultimately show ?thesis using unlocks by (simp add: reaper_step.end_reap)
next
  case notified
  then show ?thesis by (simp add: settle_signalled)
qed (simp_all add: settle_def)

lemma zombies_wait [simp]: "zombies (wait4_takes pid s) = zombies s - {pid}"
  by (auto simp: zombies_def wait4_takes_def)

lemma zombies_frame [simp]:
  "zombies (dispatch e st s) = zombies s" "zombies (s\<lparr>reaping := b\<rparr>) = zombies s" "zombies (s\<lparr>waiters := w\<rparr>) = zombies s"
  by (simp_all add: zombies_def)

lemma outside_zombies:
  "from_outside l \<Longrightarrow> reaper_step s l s' \<Longrightarrow> zombies s' \<noteq> {} \<Longrightarrow> \<not> is_exit l \<Longrightarrow> zombies s \<noteq> {}"
  by (erule reaper_step.cases)
    (auto simp: zombies_def fork_child_def new_child_def register_def split: if_splits)

lemma outside_reaping: "from_outside l \<Longrightarrow> reaper_step s l s' \<Longrightarrow> reaping s' = reaping s"
  by (erule reaper_step.cases) (auto simp: fork_child_def new_child_def register_def child_exits_def)

lemma run_step_ok:
  assumes ok: "reap_loop_ok s" and step: "run_step s l s'"
  shows "reap_loop_ok s'"
proof -
  have inv: "reaper_inv (settle s')"
    using step_seen [OF assms] ok reaper_step_inv by (auto simp: reap_loop_ok_def split: option.splits)
  have lock: "reaping (rl_sys s') \<longleftrightarrow> collecting (rl_pc s')"
    using step ok by (cases rule: run_step.cases)
      (auto simp: reap_loop_ok_def collecting_def signal_reaper_def wait4_takes_def take_waiter_def dest: outside_reaping)
  have "zombies (rl_sys s') \<noteq> {} \<longrightarrow> rl_raised s' \<or> rl_sigChan s' \<or> rl_pc s' \<notin> {InSelect, AtUnlock}"
    using step ok
    by (cases rule: run_step.cases)
      (auto simp: reap_loop_ok_def signal_reaper_def no_zombie_iff dest!: outside_zombies)
  with inv lock show ?thesis by (simp add: reap_loop_ok_def)
qed

lemma StartReaping_ok: "reap_loop_ok StartReaping"
  by (simp add: reap_loop_ok_def StartReaping_def settle_def new_reaper_inv collecting_def)
    (simp add: new_reaper_def zombies_def)

interpretation reap_goroutine: inductive_invariant "\<lambda>s. s = StartReaping" run_step reap_loop_ok
  by unfold_locales (auto simp: StartReaping_ok run_step_ok)

interpretation loop_as_reaper: simulation "\<lambda>s. s = StartReaping" run_step "\<lambda>s. s = new_reaper" reaper_step settle
proof
  show "settle s = settle s' \<or> (\<exists>m. reaper_step (settle s') m (settle s))" if "run_reachable s'" "run_step s' l s" for s s' l
    using step_seen [OF reap_goroutine.inv_reachable [OF that(1)] that(2)] by (auto split: option.splits)
qed (simp add: StartReaping_def settle_def)

text \<open>
  C17. Taking a round of the loop as one step is right: seen with every status that was taken as delivered,
  each step of the goroutine is the step of the reaper it stands for, or none, so that every state it
  reaches is one that the reaper reaches, and each channel has the status of its own child or none.
\<close>

theorem reap_loop_refines:
  assumes "run_reachable s" and "run_step s l s'"
  shows "reaper_reachable (settle s) \<and>
    (case seen_as l of None \<Rightarrow> settle s' = settle s | Some l' \<Rightarrow> reaper_step (settle s) l' (settle s'))"
  using loop_as_reaper.abs_reachable [OF assms(1)] step_seen [OF reap_goroutine.inv_reachable [OF assms(1)] assms(2)] by blast

section \<open>Every exit is noticed\<close>

text \<open>The steps of the goroutine and of the signals it is sent, without the ticker that backs them up.\<close>

fun own_label :: "run_label \<Rightarrow> bool" where
  "own_label (World l) = False"
| "own_label OnTick = False"
| "own_label _ = True"

definition own_step :: "reap_sys \<Rightarrow> run_label \<Rightarrow> reap_sys \<Rightarrow> bool" where
  "own_step s l s' \<longleftrightarrow> own_label l \<and> run_step s l s'"

text \<open>An exit that has not reached the one who waits for it.\<close>

definition owed :: "reap_sys \<Rightarrow> bool" where
  "owed s \<longleftrightarrow> zombies (rl_sys s) \<noteq> {} \<or> (\<exists>pid status. rl_pc s = Took pid status) \<or> (\<exists>e status. rl_pc s = Dropped e status)"

fun pc_rank :: "run_pc \<Rightarrow> nat" where
  "pc_rank AtUnlock = 5"
| "pc_rank InSelect = 4"
| "pc_rank AtLock = 3"
| "pc_rank (Took pid status) = 2"
| "pc_rank (Dropped e status) = 1"
| "pc_rank AtWait4 = 0"

definition work :: "reap_sys \<Rightarrow> nat" where
  "work s = 3 * card (zombies (rl_sys s)) + pc_rank (rl_pc s) + (if rl_raised s then 1 else 0)"

lemma finite_zombies: "finite (zombies s)"
proof -
  have "zombies s \<subseteq> fmdom' (children s)" by (auto simp: zombies_def intro: fmdom'I)
  then show ?thesis by (rule finite_subset) simp
qed

lemma own_step_works:
  assumes "reap_loop_ok s" and "own_step s l s'" and "owed s"
  shows "work s' < work s"
proof -
  from assms(2) have "run_step s l s'" "own_label l" by (simp_all add: own_step_def)
  then show ?thesis
  proof (cases rule: run_step.cases)
    case (waits pid c status)
    then have "pid \<in> zombies (rl_sys s)" by (auto simp: zombies_def)
    then have "card (zombies (rl_sys s) - {pid}) < card (zombies (rl_sys s))"
      using finite_zombies by (intro psubset_card_mono) auto
    with waits show ?thesis by (simp add: work_def)
  next
    case (drops pid status exited sys)
    then have "zombies sys = zombies (rl_sys s)" by (auto simp: take_waiter_def)
    with drops show ?thesis by (simp add: work_def)
  next
    case finds_none
    with assms(3) show ?thesis by (simp add: owed_def no_zombie_iff)
  qed (simp_all add: work_def signal_reaper_def)
qed

lemma own_stepI: "run_step s l s' \<Longrightarrow> own_label l \<Longrightarrow> \<exists>l s'. own_step s l s'"
  by (auto simp: own_step_def)

lemma own_step_enabled:
  assumes ok: "reap_loop_ok s" and owed: "owed s" and idle: "forked (rl_sys s) = fmempty"
  shows "\<exists>l s'. own_step s l s'"
proof (cases "rl_pc s")
  case InSelect
  with owed ok have "rl_raised s \<or> rl_sigChan s" by (auto simp: owed_def reap_loop_ok_def)
  then show ?thesis
    using own_stepI [OF run_step.notified] own_stepI [OF run_step.on_signal [OF InSelect]] by auto
next
  case AtLock
  moreover from this have "\<not> reaping (rl_sys s)" using ok by (simp add: reap_loop_ok_def collecting_def)
  ultimately show ?thesis using own_stepI [OF run_step.locks] idle by simp
next
  case AtWait4
  with owed obtain pid c status where "fmlookup (children (rl_sys s)) pid = Some c" "ch_state c = Zombie status"
    by (auto simp: owed_def zombies_def)
  then show ?thesis using own_stepI [OF run_step.waits [OF AtWait4]] by simp
next
  case (Took pid status)
  obtain e sys where "take_waiter pid (rl_sys s) = (e, sys)" by fastforce
  then show ?thesis using own_stepI [OF run_step.drops [OF Took]] by simp
next
  case (Dropped e status)
  then show ?thesis using own_stepI [OF run_step.sends [OF Dropped]] by simp
next
  case AtUnlock
  then show ?thesis using own_stepI [OF run_step.unlocks [OF AtUnlock]] by simp
qed

lemma own_step_forked: "own_step s l s' \<Longrightarrow> forked (rl_sys s') = forked (rl_sys s)"
  unfolding own_step_def
  by (elim conjE, erule run_step.cases) (auto simp: signal_reaper_def wait4_takes_def take_waiter_def)

lemma own_steps_finish:
  assumes "reap_loop_ok s" and "forked (rl_sys s) = fmempty"
  shows "\<exists>ls s'. runs own_step s ls s' \<and> length ls \<le> work s \<and> reap_loop_ok s' \<and> \<not> owed s'"
  using assms
proof (induction "work s" arbitrary: s rule: less_induct)
  case less
  show ?case
  proof (cases "owed s")
    case True
    then obtain l s1 where step: "own_step s l s1" using own_step_enabled less.prems by blast
    then have "reap_loop_ok s1" "forked (rl_sys s1) = fmempty" "work s1 < work s"
      using own_step_forked own_step_works [OF less.prems(1) step True] run_step_ok less.prems
      by (auto simp: own_step_def)
    from less.hyps [OF this(3,1,2)] obtain ls s' where
      "runs own_step s1 ls s'" "length ls \<le> work s1" "reap_loop_ok s'" "\<not> owed s'" by blast
    moreover have "runs own_step s [l] s1" by (rule runs_one) (rule step)
    then have "runs own_step s ([l] @ ls) s'" by (rule runs_trans [OF calculation(1)])
    ultimately show ?thesis using \<open>work s1 < work s\<close>
      by (intro exI [of _ "[l] @ ls"] exI [of _ s']) simp
  next
    case False
    with less.prems show ?thesis by (intro exI [of _ "[]"] exI [of _ s]) (simp add: runs_none)
  qed
qed

lemma settled_when_paid: "\<not> owed s \<Longrightarrow> settle s = rl_sys s"
  by (auto simp: owed_def settle_def split: run_pc.splits)

text \<open>
  C18. No exit waits for the ticker: while one is owed and no start is between its fork and its registration,
  a step of the goroutine or of a signal on its way to it is possible, each such step brings the
  loop closer to its end, and when none is owed any more every channel either belongs to a child that is
  still running or has been given the status its child ended with.
\<close>

theorem exit_reported_without_backstop:
  assumes "run_reachable s" and "forked (rl_sys s) = fmempty"
  shows "(owed s \<longrightarrow> (\<exists>l s'. own_step s l s')) \<and> (\<forall>l s'. own_step s l s' \<and> owed s \<longrightarrow> work s' < work s) \<and>
    (\<exists>ls s'. runs own_step s ls s' \<and> length ls \<le> work s \<and> \<not> owed s' \<and>
       (\<forall>ch c. fmlookup (chans (rl_sys s')) ch = Some c \<longrightarrow>
          (\<exists>pid k. fmlookup (children (rl_sys s')) pid = Some k \<and> ch_state k = Running \<and> ch_incarnation k = owner c) \<or>
          (closed c \<and> (\<exists>status. sent c = [status] \<and> fmlookup (exits (rl_sys s')) (owner c) = Some status))))"
proof -
  have ok: "reap_loop_ok s" using reap_goroutine.inv_reachable [OF assms(1)] .
  obtain ls s' where run: "runs own_step s ls s'" "length ls \<le> work s" "reap_loop_ok s'" "\<not> owed s'"
    using own_steps_finish [OF ok assms(2)] by blast
  have inv: "reaper_inv (rl_sys s')" using run(3,4) settled_when_paid by (metis reap_loop_ok_def)
  have "(\<exists>pid k. fmlookup (children (rl_sys s')) pid = Some k \<and> ch_state k = Running \<and> ch_incarnation k = owner c) \<or>
      (closed c \<and> (\<exists>status. sent c = [status] \<and> fmlookup (exits (rl_sys s')) (owner c) = Some status))"
    if c: "fmlookup (chans (rl_sys s')) ch = Some c" for ch c
  proof (cases "\<exists>pid. fmlookup (waiters (rl_sys s')) pid = Some ch")
    case True
    then obtain pid k where k: "fmlookup (children (rl_sys s')) pid = Some k" "ch_incarnation k = owner c"
      using inv c unfolding reaper_inv_def waits_ok_def incarnation_of_def by fastforce
    moreover have "ch_state k = Running" using run(4) k(1) by (cases "ch_state k") (auto simp: owed_def zombies_def)
    ultimately show ?thesis by blast
  next
    case False
    with served_chan [OF inv c] show ?thesis by blast
  qed
  with run own_step_enabled [OF ok _ assms(2)] own_step_works [OF ok] show ?thesis by blast
qed

section \<open>A sample run\<close>

text \<open>A start, its exit, which is announced and taken, and an orphan that is given the number.\<close>

definition loop_exited :: reap_sys where
  "loop_exited = \<lparr>rl_sys = sample_exited, rl_pc = InSelect, rl_raised = True, rl_sigChan = False\<rparr>"

definition loop_took :: reap_sys where
  "loop_took = \<lparr>rl_sys = wait4_takes 7 (sample_exited\<lparr>reaping := True\<rparr>), rl_pc = Took 7 (exited_status 3),
     rl_raised = False, rl_sigChan = False\<rparr>"

definition loop_reused :: reap_sys where
  "loop_reused = loop_took\<lparr>rl_sys := new_child 7 (rl_sys loop_took)\<rparr>"

lemma reach_by: "run_reachable s \<Longrightarrow> run_step s l s' \<Longrightarrow> s' = t \<Longrightarrow> run_reachable t"
  by (blast intro: reachable_step)

lemma exit_of_7: "reaper_step sample_started (Exit 7 (exited_status 3)) sample_exited"
  unfolding sample_exited_def by (rule reaper_step.exit) (simp_all add: sample_run)

lemma orphan_gets_7: "run_step loop_took (World (Orphan 7)) loop_reused"
proof -
  have "reaper_step (rl_sys loop_took) (Orphan 7) (new_child 7 (rl_sys loop_took))"
    by (rule reaper_step.orphan) (simp_all add: loop_took_def wait4_takes_def)
  then have "run_step loop_took (World (Orphan 7)) (loop_took\<lparr>rl_sys := new_child 7 (rl_sys loop_took),
      rl_raised := rl_raised loop_took \<or> is_exit (Orphan 7)\<rparr>)"
    by (intro run_step.world) simp_all
  then show ?thesis by (simp add: loop_reused_def loop_took_def)
qed

lemma loop_exited_reachable: "run_reachable loop_exited"
proof -
  have "run_reachable StartReaping" by (simp add: reachable_initial)
  then have "run_reachable (StartReaping\<lparr>rl_sys := fork_child 7 new_reaper\<rparr>)"
    by (rule reach_by [OF _ run_step.world [where l = "Fork 7"]])
      (auto simp: StartReaping_def new_reaper_def intro: reaper_step.fork)
  then have "run_reachable (StartReaping\<lparr>rl_sys := sample_started\<rparr>)"
    unfolding sample_started_def
    by (rule reach_by [OF _ run_step.world [where l = "Register 7"]])
      (auto simp: StartReaping_def fork_child_def new_child_def new_reaper_def intro: reaper_step.register)
  then show ?thesis
    by (rule reach_by [OF _ run_step.world [where l = "Exit 7 (exited_status 3)" and sys = sample_exited]])
      (simp_all add: StartReaping_def loop_exited_def exit_of_7)
qed

lemma loop_took_reachable: "run_reachable loop_took"
proof -
  have "run_reachable (signal_reaper loop_exited)"
    by (rule reach_by [OF loop_exited_reachable run_step.notified]) (simp_all add: loop_exited_def)
  then have "run_reachable (loop_exited\<lparr>rl_pc := AtLock, rl_raised := False\<rparr>)"
    by (rule reach_by [OF _ run_step.on_signal]) (simp_all add: loop_exited_def signal_reaper_def)
  then have "run_reachable (loop_exited\<lparr>rl_pc := AtWait4, rl_raised := False, rl_sys := sample_exited\<lparr>reaping := True\<rparr>\<rparr>)"
    by (rule reach_by [OF _ run_step.locks]) (simp_all add: loop_exited_def sample_run)
  then show ?thesis unfolding loop_took_def
    by (rule reach_by [OF _ run_step.waits [where pid = 7 and c = "\<lparr>ch_state = Zombie (exited_status 3), ch_incarnation = 0\<rparr>"
            and status = "exited_status 3"]])
      (simp_all add: loop_exited_def sample_run)
qed

lemma loop_reused_reachable: "run_reachable loop_reused"
  by (rule reach_by [OF loop_took_reachable orphan_gets_7 refl])

theorem reap_loop_refines_witness: "reaper_step (settle loop_took) (Orphan 7) (settle loop_reused)"
  using reap_loop_refines [OF loop_took_reachable orphan_gets_7] by simp

theorem exit_reported_without_backstop_witness: "owed loop_exited \<and> (\<exists>l s'. own_step loop_exited l s')"
proof -
  have "owed loop_exited" by (auto simp: owed_def zombies_def loop_exited_def sample_run)
  moreover have "forked (rl_sys loop_exited) = fmempty" by (simp add: loop_exited_def sample_run)
  ultimately show ?thesis using exit_reported_without_backstop [OF loop_exited_reachable] by blast
qed

section \<open>The check before a signal\<close>

lemma dispatch_chan: "fmlookup (chans (dispatch e st s)) ch = Some c \<Longrightarrow> sent c = [] \<Longrightarrow> fmlookup (chans s) ch = Some c"
  by (auto simp: dispatch_def deliver_def split: option.splits if_splits)

lemma settle_waiters:
  "waiters (settle s) = (case rl_pc s of Took pid status \<Rightarrow> fmdrop pid (waiters (rl_sys s)) | _ \<Rightarrow> waiters (rl_sys s))"
  by (simp add: settle_def take_waiter_def split: run_pc.splits)

lemma settle_chan: "fmlookup (chans (settle s)) ch = Some c \<Longrightarrow> sent c = [] \<Longrightarrow> fmlookup (chans (rl_sys s)) ch = Some c"
  by (auto simp: settle_def take_waiter_def dest: dispatch_chan split: run_pc.splits)

text \<open>
  C20. \<open>signalGroupIfUnreaped\<close> sends only to a registered number, and the process that has the number is then the
  very child it was registered for, with one exception: between the return of \<^verbatim>\<open>wait4\<close> for that number and
  the section in which its waiter is dropped.
\<close>

theorem signal_check_window:
  assumes "run_reachable s" and "signalGroupIfUnreaped pid (rl_sys s) = Some target"
  shows "target = pid \<and> 0 < pid \<and>
    ((\<exists>k ch c. fmlookup (children (rl_sys s)) pid = Some k \<and> fmlookup (waiters (rl_sys s)) pid = Some ch \<and>
        fmlookup (chans (rl_sys s)) ch = Some c \<and> owner c = ch_incarnation k \<and> sent c = []) \<or>
     (\<exists>status. rl_pc s = Took pid status))"
proof -
  obtain ch where t: "target = pid" "0 < pid" and ch: "fmlookup (waiters (rl_sys s)) pid = Some ch"
    using assms(2) by (auto simp: signalGroupIfUnreaped_def split: if_splits)
  have "\<exists>k c. fmlookup (children (rl_sys s)) pid = Some k \<and> fmlookup (chans (rl_sys s)) ch = Some c \<and>
      owner c = ch_incarnation k \<and> sent c = []" if "\<nexists>status. rl_pc s = Took pid status"
  proof -
    have "fmlookup (waiters (settle s)) pid = Some ch"
      using ch that by (auto simp: settle_waiters split: run_pc.splits)
    moreover have "reaper_inv (settle s)" using reap_goroutine.inv_reachable [OF assms(1)] by (simp add: reap_loop_ok_def)
    ultimately obtain c where c: "fmlookup (chans (settle s)) ch = Some c" "sent c = []"
      "incarnation_of (settle s) pid = Some (owner c)"
      unfolding reaper_inv_def waits_ok_def by blast
    then show ?thesis using settle_chan [OF c(1,2)] by (auto simp: incarnation_of_def)
  qed
  with t ch show ?thesis by blast
qed

theorem signal_check_window_witness: "\<exists>k. fmlookup (children sample_exited) 7 = Some k"
proof -
  have "signalGroupIfUnreaped 7 (rl_sys loop_exited) = Some 7"
    by (simp add: signalGroupIfUnreaped_def loop_exited_def sample_run)
  from signal_check_window [OF loop_exited_reachable this] show ?thesis by (auto simp: loop_exited_def)
qed

text \<open>
  The exception is real: after \<^verbatim>\<open>wait4\<close> has taken the child 0 of number 7, and before its waiter is dropped,
  an orphan is given the number, and its group is signalled.
\<close>

theorem reaped_number_signalled:
  "run_reachable loop_reused \<and> signalGroupIfUnreaped 7 (rl_sys loop_reused) = Some 7 \<and>
   incarnation_of (rl_sys loop_reused) 7 = Some 1 \<and> fmlookup (waiters (rl_sys loop_reused)) 7 = Some 0 \<and>
   map_option owner (fmlookup (chans (rl_sys loop_reused)) 0) = Some 0"
  using loop_reused_reachable
  by (simp add: signalGroupIfUnreaped_def loop_reused_def loop_took_def wait4_takes_def incarnation_of_def sample_run)

end
