(* ===== verification/Reaped.thy ===== *)
theory Reaped
  imports Supervision
begin

text \<open>
  A managed process with the reaper and the kernel: what the process machine takes as one event, the exit
  of a child that the monitor learns of, is here a child of the kernel that ends, is collected and whose
  status is delivered, while its number may be used again.

  The state joins the one of \<open>Process\<close> with the one of \<open>Reaper\<close>. The steps of both are taken as they are, and those
  in which they meet are taken together: \<open>spawn\<close> forks and registers, and the delivery of a status is what the
  machine knows as the exit of a run. Other programs, probes and orphans go on at the same time.
\<close>

section \<open>The composed machine\<close>

text \<open>
  What \<open>spawn\<close> returns for a run: its number and the channel. The incarnation says which child it was and
  is for the statements only.
\<close>

record spawned =
  sp_pid :: int
  sp_exited :: nat
  sp_child :: nat

text \<open>
  A signal that was sent to a group: the run it was meant for, whether the status of that run was still
  to be delivered, and the child that had the number.
\<close>

record hit =
  hit_run :: nat
  hit_kill :: bool
  hit_owed :: bool
  hit_child :: "nat option"

record host =
  ho_proc :: psys
  ho_reaper :: reaper_sys
  ho_runs :: "(nat, spawned) fmap"
  ho_forked :: "(nat, int) fmap"    \<comment> \<open>the goroutines between fork and registration\<close>
  ho_hits :: "hit list"

definition new_host :: "RestartPolicy \<Rightarrow> int \<Rightarrow> host" where
  "new_host pol m = \<lparr>ho_proc = new_psys pol m, ho_reaper = new_reaper, ho_runs = fmempty, ho_forked = fmempty, ho_hits = []\<rparr>"

text \<open>The steps of the reaper and the kernel, as a function.\<close>

fun reaper_exec :: "reaper_label \<Rightarrow> reaper_sys \<Rightarrow> reaper_sys option" where
  "reaper_exec (Fork pid) s =
     (if \<not> reaping s \<and> 0 < pid \<and> fmlookup (children s) pid = None then Some (fork_child pid s) else None)"
| "reaper_exec (Register pid) s = map_option (\<lambda>i. register pid i s) (fmlookup (forked s) pid)"
| "reaper_exec (Exit pid status) s =
     (case fmlookup (children s) pid of
        None \<Rightarrow> None
      | Some c \<Rightarrow> if ch_state c = Running then Some (child_exits pid status c s) else None)"
| "reaper_exec (Orphan pid) s = (if 0 < pid \<and> fmlookup (children s) pid = None then Some (new_child pid s) else None)"
| "reaper_exec BeginReap s = (if \<not> reaping s \<and> forked s = fmempty then Some (s\<lparr>reaping := True\<rparr>) else None)"
| "reaper_exec (Wait4 pid) s =
     (if reaping s then map_option (\<lambda>status. collect pid status s) (wait_status s pid) else None)"
| "reaper_exec EndReap s = (if reaping s then Some (s\<lparr>reaping := False\<rparr>) else None)"

text \<open>
  Labels: the process machine takes a step of its own; a goroutine of the program forks in \<open>spawn\<close>, and
  registers; the reaper collects the child of a run; anything else that the reaper, the kernel or other
  programs do.
\<close>

datatype host_label = Acts label | Forks nat int | Registers nat | Collects nat | Elsewhere reaper_label

definition at_spawn :: "psys \<Rightarrow> nat \<Rightarrow> bool" where
  "at_spawn s t \<longleftrightarrow> (case fmlookup (pcs s) t of Some (StartSpawn k c) \<Rightarrow> True | _ \<Rightarrow> False)"

text \<open>\<open>killLingeringGroup\<close> sends nothing while a process has the number.\<close>

definition lingers :: "host \<Rightarrow> nat \<Rightarrow> bool" where
  "lingers s t \<longleftrightarrow> (case fmlookup (pcs (ho_proc s)) t of
       Some (MonLinger r c) \<Rightarrow> (case fmlookup (ho_runs s) r of
          None \<Rightarrow> False
        | Some k \<Rightarrow> fmlookup (children (ho_reaper s)) (sp_pid k) \<noteq> None)
     | _ \<Rightarrow> False)"

text \<open>
  The steps that are the process machine's alone: not the fork, which is taken with the kernel, and not the
  exit of a child, which is delivered by the reaper; a goroutine inside \<open>spawn\<close> does nothing else.
\<close>

fun alone_label :: "host \<Rightarrow> label \<Rightarrow> bool" where
  "alone_label s (Go t ch) = (t \<notin> fmdom' (ho_forked s) \<and> \<not> (ch = Proceed \<and> (at_spawn (ho_proc s) t \<or> lingers s t)))"
| "alone_label s (ChildExits r status) = False"
| "alone_label s _ = True"

definition hits_of :: "host \<Rightarrow> psys \<Rightarrow> hit list" where
  "hits_of s p = map (\<lambda>(r, kill). \<lparr>hit_run = r, hit_kill = kill, hit_owed = run_flag run_alive r (ho_proc s),
       hit_child = (case fmlookup (ho_runs s) r of None \<Rightarrow> None | Some k \<Rightarrow> incarnation_of (ho_reaper s) (sp_pid k))\<rparr>)
     (drop (length (signals (ho_proc s))) (signals p))"

definition begin_spawn :: "nat \<Rightarrow> int \<Rightarrow> host \<Rightarrow> host option" where
  "begin_spawn t pid s =
     (if at_spawn (ho_proc s) t \<and> t \<notin> fmdom' (ho_forked s)
      then map_option (\<lambda>r. s\<lparr>ho_reaper := r, ho_forked := fmupd t pid (ho_forked s)\<rparr>) (reaper_exec (Fork pid) (ho_reaper s))
      else None)"

definition end_spawn :: "nat \<Rightarrow> host \<Rightarrow> host option" where
  "end_spawn t s =
     (case fmlookup (ho_forked s) t of
        None \<Rightarrow> None
      | Some pid \<Rightarrow> (case (fmlookup (forked (ho_reaper s)) pid, exec (Go t Proceed) (ho_proc s)) of
          (Some i, Some p) \<Rightarrow> Some (s\<lparr>ho_proc := p, ho_reaper := register pid i (ho_reaper s), ho_forked := fmdrop t (ho_forked s),
             ho_runs := fmupd (next_id (ho_proc s)) \<lparr>sp_pid = pid, sp_exited = next_chan (ho_reaper s), sp_child = i\<rparr> (ho_runs s)\<rparr>)
        | _ \<Rightarrow> None))"

definition collect_run :: "nat \<Rightarrow> host \<Rightarrow> host option" where
  "collect_run r s =
     (case fmlookup (ho_runs s) r of
        None \<Rightarrow> None
      | Some k \<Rightarrow>
          if fmlookup (waiters (ho_reaper s)) (sp_pid k) = Some (sp_exited k)
          then (case (wait_status (ho_reaper s) (sp_pid k), reaper_exec (Wait4 (sp_pid k)) (ho_reaper s)) of
              (Some status, Some sys) \<Rightarrow> map_option (\<lambda>p. s\<lparr>ho_proc := p, ho_reaper := sys\<rparr>) (exec (ChildExits r status) (ho_proc s))
            | _ \<Rightarrow> None)
          else None)"

text \<open>What goes on elsewhere leaves the children of the program to it.\<close>

fun elsewhere :: "host \<Rightarrow> reaper_label \<Rightarrow> bool" where
  "elsewhere s (Register pid) = (pid \<notin> fmran' (ho_forked s))"
| "elsewhere s (Wait4 pid) = (case fmlookup (waiters (ho_reaper s)) pid of
       None \<Rightarrow> True
     | Some ch \<Rightarrow> (\<forall>k \<in> fmran' (ho_runs s). sp_exited k \<noteq> ch))"
| "elsewhere s l = True"

fun host_exec :: "host_label \<Rightarrow> host \<Rightarrow> host option" where
  "host_exec (Acts l) s =
     (if alone_label s l then map_option (\<lambda>p. s\<lparr>ho_proc := p, ho_hits := ho_hits s @ hits_of s p\<rparr>) (exec l (ho_proc s)) else None)"
| "host_exec (Forks t pid) s = begin_spawn t pid s"
| "host_exec (Registers t) s = end_spawn t s"
| "host_exec (Collects r) s = collect_run r s"
| "host_exec (Elsewhere l) s =
     (if elsewhere s l then map_option (\<lambda>sys. s\<lparr>ho_reaper := sys\<rparr>) (reaper_exec l (ho_reaper s)) else None)"

definition host_step :: "host \<Rightarrow> host_label \<Rightarrow> host \<Rightarrow> bool" where
  "host_step s l s' \<longleftrightarrow> host_exec l s = Some s'"

text \<open>Calls are made one at a time, as in \<open>OneChild\<close>.\<close>

fun host_calm :: "host \<Rightarrow> host_label \<Rightarrow> bool" where
  "host_calm s (Acts l) = calm (ho_proc s) l"
| "host_calm s _ = True"

definition host_calm_step :: "host \<Rightarrow> host_label \<Rightarrow> host \<Rightarrow> bool" where
  "host_calm_step s l s' \<longleftrightarrow> host_calm s l \<and> host_step s l s'"

abbreviation host_reachable :: "RestartPolicy \<Rightarrow> int \<Rightarrow> host \<Rightarrow> bool" where
  "host_reachable pol m \<equiv> reachable (\<lambda>s. s = new_host pol m) host_step"

abbreviation host_calm_reachable :: "RestartPolicy \<Rightarrow> int \<Rightarrow> host \<Rightarrow> bool" where
  "host_calm_reachable pol m \<equiv> reachable (\<lambda>s. s = new_host pol m) host_calm_step"

section \<open>Both parts are what they were\<close>

lemma wait_status_Some:
  "wait_status s pid = Some status \<longleftrightarrow> (\<exists>c. fmlookup (children s) pid = Some c \<and> ch_state c = Zombie status)"
  by (auto simp: wait_status_def split: option.splits dest: status_of_Some)

lemma reaper_exec_step: "reaper_exec l s = Some s' \<Longrightarrow> reaper_step s l s'"
  by (cases l) (auto simp: wait_status_Some intro: reaper_step.intros split: if_splits option.splits)

lemma calm_spawn: "at_spawn s t \<Longrightarrow> calm s (Go t Proceed)"
  by (auto simp: at_spawn_def split: option.splits pc.splits)

text \<open>The parts a step moves, and the step that each of them takes.\<close>

lemma collect_runE:
  assumes "collect_run r s = Some s'"
  obtains k status sys p where "fmlookup (ho_runs s) r = Some k"
    "fmlookup (waiters (ho_reaper s)) (sp_pid k) = Some (sp_exited k)"
    "wait_status (ho_reaper s) (sp_pid k) = Some status" "reaping (ho_reaper s)"
    "exec (ChildExits r status) (ho_proc s) = Some p"
    "s' = s\<lparr>ho_proc := p, ho_reaper := collect (sp_pid k) status (ho_reaper s)\<rparr>"
  using assms unfolding collect_run_def by (auto split: option.splits if_splits simp del: exec.simps)

lemma end_spawnE:
  assumes "end_spawn t s = Some s'"
  obtains pid i p where "fmlookup (ho_forked s) t = Some pid" "fmlookup (forked (ho_reaper s)) pid = Some i"
    "exec (Go t Proceed) (ho_proc s) = Some p"
    "s' = s\<lparr>ho_proc := p, ho_reaper := register pid i (ho_reaper s), ho_forked := fmdrop t (ho_forked s),
       ho_runs := fmupd (next_id (ho_proc s)) \<lparr>sp_pid = pid, sp_exited = next_chan (ho_reaper s), sp_child = i\<rparr> (ho_runs s)\<rparr>"
  using assms unfolding end_spawn_def by (auto split: option.splits simp del: exec.simps)

lemma begin_spawnE:
  assumes "begin_spawn t pid s = Some s'"
  obtains "at_spawn (ho_proc s) t" "t \<notin> fmdom' (ho_forked s)" "\<not> reaping (ho_reaper s)" "0 < pid"
    "fmlookup (children (ho_reaper s)) pid = None"
    "s' = s\<lparr>ho_reaper := fork_child pid (ho_reaper s), ho_forked := fmupd t pid (ho_forked s)\<rparr>"
  using assms unfolding begin_spawn_def by (auto split: if_splits)

lemma host_reaper_step:
  assumes "host_step s l s'"
  shows "ho_reaper s' = ho_reaper s \<or> (\<exists>m. reaper_step (ho_reaper s) m (ho_reaper s'))"
proof (cases l)
  case (Forks t pid)
  with assms obtain "\<not> reaping (ho_reaper s)" "0 < pid" "fmlookup (children (ho_reaper s)) pid = None"
    "ho_reaper s' = fork_child pid (ho_reaper s)" by (auto simp: host_step_def elim: begin_spawnE)
  then show ?thesis by (auto intro: reaper_step.fork)
next
  case (Registers t)
  with assms obtain pid i where "fmlookup (forked (ho_reaper s)) pid = Some i" "ho_reaper s' = register pid i (ho_reaper s)"
    by (auto simp: host_step_def elim: end_spawnE)
  then show ?thesis by (auto intro: reaper_step.register)
next
  case (Collects r)
  with assms have "collect_run r s = Some s'" by (simp add: host_step_def)
  then show ?thesis by (rule collect_runE) (auto simp: wait_status_Some intro: reaper_step.wait4)
next
  case (Elsewhere m)
  with assms show ?thesis by (auto simp: host_step_def split: if_splits dest: reaper_exec_step)
qed (use assms in \<open>auto simp: host_step_def split: if_splits\<close>)

lemma host_proc_step:
  assumes "host_step s l s'"
  shows "ho_proc s' = ho_proc s \<or> (\<exists>m. process_step (ho_proc s) m (ho_proc s') \<and> (host_calm s l \<longrightarrow> calm (ho_proc s) m))"
proof (cases l)
  case (Acts m)
  with assms show ?thesis by (auto simp: host_step_def process_step_def simp del: exec.simps split: if_splits)
next
  case (Registers t)
  with assms obtain p where p: "exec (Go t Proceed) (ho_proc s) = Some p" "ho_proc s' = p"
    by (auto simp: host_step_def simp del: exec.simps elim: end_spawnE)
  have "calm (ho_proc s) (Go t Proceed)" by (simp split: option.splits pc.splits)
  with p show ?thesis unfolding process_step_def by blast
next
  case (Collects r)
  with assms obtain status p where "exec (ChildExits r status) (ho_proc s) = Some p" "ho_proc s' = p"
    by (auto simp: host_step_def simp del: exec.simps elim: collect_runE)
  then show ?thesis unfolding process_step_def by (metis calm.simps(4))
next
  case (Forks t pid)
  with assms show ?thesis by (auto simp: host_step_def elim: begin_spawnE)
next
  case (Elsewhere m)
  with assms show ?thesis by (auto simp: host_step_def split: if_splits)
qed

interpretation host_as_reaper: simulation "\<lambda>s. s = new_host pol m" host_step "\<lambda>s. s = new_reaper" reaper_step ho_reaper for pol m
  by unfold_locales (auto simp: new_host_def dest: host_reaper_step)

interpretation host_as_process: simulation "\<lambda>s. s = new_host pol m" host_step "\<lambda>s. s = new_psys pol m" process_step ho_proc for pol m
  by unfold_locales (auto simp: new_host_def dest: host_proc_step)

interpretation host_as_calm: simulation "\<lambda>s. s = new_host pol m" host_calm_step "\<lambda>s. s = new_psys pol m" calm_step ho_proc for pol m
  by unfold_locales (auto simp: new_host_def host_calm_step_def calm_step_def dest: host_proc_step)

section \<open>What ties them together\<close>

text \<open>What the process machine knows of the exit of a run.\<close>

definition run_view :: "psys \<Rightarrow> nat \<Rightarrow> (bool \<times> WaitStatus) option" where
  "run_view s r = map_option (\<lambda>x. (run_alive x, run_status x)) (fmlookup (the_runs s) r)"

lemma run_view_same [simp]:
  "run_view (goto t c s) r = run_view s r" "run_view (finish t s) r = run_view s r"
  "run_view (cancel_ctx x s) r = run_view s r" "run_view (set_state st s) r = run_view s r"
  "run_view (send_signal y kill s) r = run_view s r" "run_view (s\<lparr>the_proc := p\<rparr>) r = run_view s r"
  "run_view (s\<lparr>next_id := n\<rparr>) r = run_view s r" "run_view (s\<lparr>clock := i\<rparr>) r = run_view s r"
  by (simp_all add: run_view_def)

lemma run_view_upd [simp]:
  "(\<And>y. run_alive (g y) = run_alive y) \<Longrightarrow> (\<And>y. run_status (g y) = run_status y) \<Longrightarrow>
     run_view (upd_run x g s) r = run_view s r"
  by (auto simp: run_view_def upd_run_def split: option.splits)

lemma run_view_done [simp]:
  "run_view (monitor_done t r s) x = run_view s x" "run_view (start_ok k t s) x = run_view s x"
  "run_view (start_failed k t s) x = run_view s x" "run_view (begin_start k t s) x = run_view s x"
  by (simp_all add: monitor_done_def start_ok_def start_failed_def begin_start_def split: caller.split option.split)

text \<open>The numbers of the goroutines are all in use.\<close>

definition threads_ok :: "psys \<Rightarrow> bool" where
  "threads_ok s \<longleftrightarrow> (\<forall>t c. fmlookup (pcs s) t = Some c \<longrightarrow> t < next_id s)"

lemma alone_step:
  assumes c: "fmlookup (pcs s) t = Some c" and step: "thread_step t ch c s = Some s'"
    and alone: "\<not> (ch = Proceed \<and> at_spawn s t)"
  shows "run_view s' r = run_view s r \<and> fmdom' (the_runs s') = fmdom' (the_runs s)"
  using step alone c
  by (cases c) (auto simp: block_defs at_spawn_def split: if_splits option.splits caller.splits)

lemma step_threads:
  assumes ok: "threads_ok s" and c: "fmlookup (pcs s) t = Some c" and step: "thread_step t ch c s = Some s'"
  shows "next_id s \<le> next_id s' \<and> threads_ok s' \<and> (t' < next_id s \<and> t' \<noteq> t \<longrightarrow> fmlookup (pcs s') t' = fmlookup (pcs s) t')"
proof -
  have t: "t < next_id s" using ok c by (simp add: threads_ok_def)
  have less: "u < next_id s" if "fmlookup (pcs s) u = Some d" for u d using ok that by (simp add: threads_ok_def)
  have "next_id s \<le> next_id s'" and "t' < next_id s \<and> t' \<noteq> t \<longrightarrow> fmlookup (pcs s') t' = fmlookup (pcs s) t'"
    using step by (cases c; auto simp: block_defs split: if_splits option.splits caller.splits)+
  moreover have "u < next_id s'" if "fmlookup (pcs s') u = Some d" for u d
    using that step t less by (cases c) (auto simp: block_defs less_SucI split: if_splits option.splits caller.splits)
  ultimately show ?thesis by (auto simp: threads_ok_def)
qed

lemma exec_threads:
  assumes ok: "threads_ok s" and run: "exec l s = Some s'"
  shows "next_id s \<le> next_id s' \<and> threads_ok s' \<and>
    (t' < next_id s \<and> (\<forall>ch. l \<noteq> Go t' ch) \<longrightarrow> fmlookup (pcs s') t' = fmlookup (pcs s) t')"
proof (cases l)
  case (Go t ch)
  then show ?thesis using run step_threads [OF ok, of t _ ch s' t'] by (auto split: option.splits)
qed (use ok run in \<open>auto simp: threads_ok_def block_defs less_SucI split: if_splits option.splits caller.splits\<close>)

lemma alone_exec:
  assumes "alone_label s l" and run: "exec l (ho_proc s) = Some p"
  shows "run_view p r = run_view (ho_proc s) r \<and> fmdom' (the_runs p) = fmdom' (the_runs (ho_proc s))"
proof (cases l)
  case (Go t ch)
  then show ?thesis using assms alone_step [of "ho_proc s" t _ ch p r] by (auto split: option.splits)
qed (use assms in \<open>auto simp: run_view_def block_defs begin_stop_def stop_enter_def split: option.splits caller.splits\<close>)

text \<open>
  A run knows a channel that was made for its child. As long as the machine takes the child for alive the
  reaper waits for it; afterwards the channel has the status that the machine was given, and the child
  is gone.
\<close>

definition gone :: "reaper_sys \<Rightarrow> nat \<Rightarrow> bool" where
  "gone s i \<longleftrightarrow> (\<forall>pid. incarnation_of s pid \<noteq> Some i)"

definition run_linked :: "reaper_sys \<Rightarrow> spawned \<Rightarrow> (bool \<times> WaitStatus) option \<Rightarrow> bool" where
  "run_linked s k view \<longleftrightarrow> (\<exists>c alive status. fmlookup (chans s) (sp_exited k) = Some c \<and> owner c = sp_child k \<and>
     view = Some (alive, status) \<and>
     (if alive then fmlookup (waiters s) (sp_pid k) = Some (sp_exited k)
      else sent c = [status] \<and> gone s (sp_child k)))"

definition forks_linked :: "host \<Rightarrow> bool" where
  "forks_linked s \<longleftrightarrow>
     (\<forall>t pid. fmlookup (ho_forked s) t = Some pid \<longrightarrow>
        at_spawn (ho_proc s) t \<and> fmlookup (forked (ho_reaper s)) pid \<noteq> None) \<and>
     (\<forall>t t' pid. fmlookup (ho_forked s) t = Some pid \<and> fmlookup (ho_forked s) t' = Some pid \<longrightarrow> t = t')"

definition runs_linked :: "host \<Rightarrow> bool" where
  "runs_linked s \<longleftrightarrow> fmdom' (the_runs (ho_proc s)) = fmdom' (ho_runs s) \<and>
     (\<forall>r k. fmlookup (ho_runs s) r = Some k \<longrightarrow> r < next_id (ho_proc s) \<and> run_linked (ho_reaper s) k (run_view (ho_proc s) r)) \<and>
     (\<forall>r r' k k'. fmlookup (ho_runs s) r = Some k \<and> fmlookup (ho_runs s) r' = Some k' \<and> sp_exited k = sp_exited k' \<longrightarrow> r = r')"

definition hits_linked :: "host \<Rightarrow> bool" where
  "hits_linked s \<longleftrightarrow> (\<forall>h \<in> set (ho_hits s). hit_owed h \<longrightarrow>
     (\<exists>k. fmlookup (ho_runs s) (hit_run h) = Some k \<and> hit_child h = Some (sp_child k)))"

definition linked :: "host \<Rightarrow> bool" where
  "linked s \<longleftrightarrow> reaper_inv (ho_reaper s) \<and> threads_ok (ho_proc s) \<and> forks_linked s \<and> runs_linked s \<and> hits_linked s"

lemma linked_run:
  assumes "linked s" and "fmlookup (ho_runs s) r = Some k"
  shows "r < next_id (ho_proc s)" and "run_linked (ho_reaper s) k (run_view (ho_proc s) r)"
  using assms by (simp_all add: linked_def runs_linked_def)

lemma linked_fork:
  assumes "linked s" and "fmlookup (ho_forked s) t = Some pid"
  shows "at_spawn (ho_proc s) t" and "fmlookup (forked (ho_reaper s)) pid \<noteq> None"
  using assms by (simp_all add: linked_def forks_linked_def)

text \<open>The child of a run whose status was delivered had an end, and its number is an old one.\<close>

lemma ended_child:
  assumes inv: "reaper_inv s" and c: "fmlookup (chans s) ch = Some c" "sent c = [status]"
  shows "fmlookup (exits s) (owner c) = Some status" and "owner c < next_incarnation s" and "fmlookup (waiters s) pid \<noteq> Some ch"
proof -
  show w: "fmlookup (waiters s) pid \<noteq> Some ch" for pid using waiter_chan [OF inv, of pid ch] c by auto
  then show ex: "fmlookup (exits s) (owner c) = Some status" using served_chan [OF inv c(1)] c(2) by auto
  then show "owner c < next_incarnation s" using inv by (simp add: reaper_inv_def children_ok_def)
qed

lemma collect_look:
  "forked (collect pid st s) = forked s" "waiters (collect pid st s) = fmdrop pid (waiters s)"
  "fmlookup (waiters s) pid \<noteq> Some ch \<Longrightarrow> fmlookup (chans (collect pid st s)) ch = fmlookup (chans s) ch"
  by (auto simp: collect_def deliver_def Let_def split: option.splits)

text \<open>A step of the reaper leaves a run linked unless it takes its child.\<close>

lemma reaper_run_linked:
  assumes inv: "reaper_inv s" and step: "reaper_step s l s'" and k: "run_linked s k view"
    and other: "\<And>pid. l = Wait4 pid \<Longrightarrow> fmlookup (waiters s) pid \<noteq> Some (sp_exited k)"
  shows "run_linked s' k view"
proof -
  obtain c alive status where c: "fmlookup (chans s) (sp_exited k) = Some c" "owner c = sp_child k" "view = Some (alive, status)"
    "if alive then fmlookup (waiters s) (sp_pid k) = Some (sp_exited k) else sent c = [status] \<and> gone s (sp_child k)"
    using k unfolding run_linked_def by blast
  have old: "\<not> alive \<Longrightarrow> sp_child k < next_incarnation s" using ended_child(2) [OF inv c(1)] c(2,4) by auto
  have bound: "sp_exited k < next_chan s" using chan_bound [OF inv c(1)] .
  have w: "alive \<Longrightarrow> fmlookup (waiters s) (sp_pid k) = Some (sp_exited k)" using c(4) by simp
  from step show ?thesis
  proof (cases rule: reaper_step.cases)
    case (fork pid)
    with c old show ?thesis
      by (auto simp: run_linked_def fork_child_def new_child_def gone_def incarnation_of_def)
  next
    case (register pid i)
    then have "fmlookup (waiters s) pid = None" using inv by (auto simp: reaper_inv_def forks_ok_def)
    then have "alive \<Longrightarrow> sp_pid k \<noteq> pid" using w by auto
    with register c bound show ?thesis by (auto simp: run_linked_def register_def gone_def incarnation_of_def)
  next
    case (exit pid k' status')
    with c show ?thesis by (auto simp: run_linked_def child_exits_def gone_def incarnation_of_def split: if_splits)
  next
    case (orphan pid)
    with c old show ?thesis by (auto simp: run_linked_def new_child_def gone_def incarnation_of_def)
  next
    case (wait4 pid k' status')
    then have ne: "fmlookup (waiters s) pid \<noteq> Some (sp_exited k)" using other by simp
    then have "alive \<Longrightarrow> sp_pid k \<noteq> pid" using w by auto
    with wait4 c ne show ?thesis
      by (auto simp: run_linked_def collect_look gone_def incarnation_of_def)
  qed (use c in \<open>auto simp: run_linked_def gone_def incarnation_of_def\<close>)
qed

lemma reaper_forked:
  assumes "reaper_step s l s'" and "fmlookup (forked s) pid = Some i" and "l \<noteq> Register pid"
  shows "fmlookup (forked s') pid \<noteq> None"
  using assms by (cases rule: reaper_step.cases)
    (auto simp: fork_child_def new_child_def register_def child_exits_def collect_look)

lemma run_flag_view: "run_flag run_alive r s \<longleftrightarrow> (\<exists>status. run_view s r = Some (True, status))"
  by (auto simp: run_flag_def run_view_def split: option.splits)

lemma owed_child:
  assumes inv: "reaper_inv s" and k: "run_linked s k (Some (True, status))"
  shows "incarnation_of s (sp_pid k) = Some (sp_child k)"
  using assms unfolding run_linked_def reaper_inv_def waits_ok_def by fastforce

section \<open>Every step keeps the tie\<close>

lemma runs_view: "fmlookup (the_runs s) r \<noteq> None \<longleftrightarrow> run_view s r \<noteq> None"
  by (simp add: run_view_def)

lemma acts_linked:
  assumes ok: "linked s" and l: "alone_label s l" and run: "exec l (ho_proc s) = Some p"
  shows "linked (s\<lparr>ho_proc := p, ho_hits := ho_hits s @ hits_of s p\<rparr>)" (is "linked ?s'")
proof -
  have th: "next_id (ho_proc s) \<le> next_id p" "threads_ok p"
    "\<And>t. t < next_id (ho_proc s) \<Longrightarrow> (\<forall>ch. l \<noteq> Go t ch) \<Longrightarrow> fmlookup (pcs p) t = fmlookup (pcs (ho_proc s)) t"
    using exec_threads [OF _ run] ok unfolding linked_def by blast+
  have view: "run_view p r = run_view (ho_proc s) r" "fmdom' (the_runs p) = fmdom' (the_runs (ho_proc s))" for r
    using alone_exec [OF l run] by blast+
  have "at_spawn p t" if t: "fmlookup (ho_forked s) t = Some pid" for t pid
  proof -
    have "at_spawn (ho_proc s) t" using linked_fork [OF ok t] by simp
    moreover from this obtain d where "fmlookup (pcs (ho_proc s)) t = Some d" by (auto simp: at_spawn_def split: option.splits)
    then have "t < next_id (ho_proc s)" using ok by (auto simp: linked_def threads_ok_def)
    moreover have "t \<in> fmdom' (ho_forked s)" using t by (rule fmdom'I)
    then have "\<forall>ch. l \<noteq> Go t ch" using l by auto
    ultimately show ?thesis using th(3) by (simp add: at_spawn_def)
  qed
  then have "forks_linked ?s'" using ok by (simp add: linked_def forks_linked_def)
  moreover have "runs_linked ?s'" using ok th(1) view unfolding linked_def runs_linked_def by fastforce
  moreover have "\<exists>k. fmlookup (ho_runs s) (hit_run h) = Some k \<and> hit_child h = Some (sp_child k)"
    if h: "h \<in> set (hits_of s p)" "hit_owed h" for h
  proof -
    from h have alive: "run_flag run_alive (hit_run h) (ho_proc s)" by (auto simp: hits_of_def)
    then obtain status where st: "run_view (ho_proc s) (hit_run h) = Some (True, status)" by (auto simp: run_flag_view)
    then have "hit_run h \<in> fmdom' (the_runs (ho_proc s))" by (auto simp: run_view_def intro: fmdom'I)
    then have "hit_run h \<in> fmdom' (ho_runs s)" using ok by (simp add: linked_def runs_linked_def)
    then obtain k where k: "fmlookup (ho_runs s) (hit_run h) = Some k" by (auto simp: in_dom_iff)
    have "incarnation_of (ho_reaper s) (sp_pid k) = Some (sp_child k)"
      using owed_child linked_run(2) [OF ok k] ok st by (simp add: linked_def)
    with h(1) k show ?thesis by (auto simp: hits_of_def)
  qed
  then have "hits_linked ?s'" using ok by (auto simp: linked_def hits_linked_def)
  ultimately show ?thesis using ok th(2) by (simp add: linked_def)
qed

lemma reaper_linked:
  assumes ok: "linked s" and step: "reaper_step (ho_reaper s) l sys"
    and runs: "\<And>pid k r. l = Wait4 pid \<Longrightarrow> fmlookup (ho_runs s) r = Some k \<Longrightarrow> fmlookup (waiters (ho_reaper s)) pid \<noteq> Some (sp_exited k)"
  shows "runs_linked (s\<lparr>ho_reaper := sys\<rparr>)"
proof -
  have "run_linked sys k (run_view (ho_proc s) r)" if k: "fmlookup (ho_runs s) r = Some k" for r k
    using reaper_run_linked [OF _ step linked_run(2) [OF ok k]] runs k ok unfolding linked_def by blast
  then show ?thesis using ok by (auto simp: linked_def runs_linked_def)
qed

lemma begin_linked:
  assumes ok: "linked s" and run: "begin_spawn t pid s = Some s'"
  shows "linked s'"
  using run
proof (rule begin_spawnE)
  assume a: "at_spawn (ho_proc s) t" "t \<notin> fmdom' (ho_forked s)" "\<not> reaping (ho_reaper s)" "0 < pid"
    "fmlookup (children (ho_reaper s)) pid = None"
    and s': "s' = s\<lparr>ho_reaper := fork_child pid (ho_reaper s), ho_forked := fmupd t pid (ho_forked s)\<rparr>"
  have step: "reaper_step (ho_reaper s) (Fork pid) (fork_child pid (ho_reaper s))" using a by (simp add: reaper_step.fork)
  have inv: "reaper_inv (ho_reaper s)" using ok by (simp add: linked_def)
  have "fmlookup (forked (ho_reaper s)) pid = None" using no_child(2) [OF inv a(5)] .
  then have "fmlookup (ho_forked s) u \<noteq> Some pid" for u using linked_fork(2) [OF ok] by blast
  then have "forks_linked s'"
    using ok a(1) unfolding linked_def forks_linked_def s'
    by (auto simp: fork_child_def new_child_def split: if_splits)
  moreover have "runs_linked s'" using reaper_linked [OF ok step] by (simp add: s' runs_linked_def)
  ultimately show ?thesis using ok reaper_step_inv [OF inv step] by (simp add: linked_def s' hits_linked_def)
qed

lemma elsewhere_linked:
  assumes ok: "linked s" and l: "elsewhere s l" and run: "reaper_exec l (ho_reaper s) = Some sys"
  shows "linked (s\<lparr>ho_reaper := sys\<rparr>)"
proof -
  have step: "reaper_step (ho_reaper s) l sys" using reaper_exec_step [OF run] .
  have "fmlookup (forked sys) pid \<noteq> None" if t: "fmlookup (ho_forked s) t = Some pid" for t pid
  proof -
    have "pid \<in> fmran' (ho_forked s)" using t by (rule fmran'I)
    then have "l \<noteq> Register pid" using l by auto
    then show ?thesis using reaper_forked [OF step] linked_fork(2) [OF ok t] by blast
  qed
  then have "forks_linked (s\<lparr>ho_reaper := sys\<rparr>)" using ok by (simp add: linked_def forks_linked_def)
  moreover have "fmlookup (waiters (ho_reaper s)) pid \<noteq> Some (sp_exited k)"
    if "l = Wait4 pid" "fmlookup (ho_runs s) r = Some k" for pid k r
    using l that fmran'I [OF that(2)] by auto
  then have "runs_linked (s\<lparr>ho_reaper := sys\<rparr>)" using reaper_linked [OF ok step] by blast
  ultimately show ?thesis using ok reaper_step_inv [OF _ step] by (simp add: linked_def hits_linked_def)
qed

text \<open>The end of \<open>spawn\<close>: the new run has a channel of its own.\<close>

lemma spawn_exec:
  assumes "at_spawn s t" and "exec (Go t Proceed) s = Some p"
  obtains k c where "fmlookup (pcs s) t = Some (StartSpawn k c)" "p = spawn_run k t c s"
  using assms by (auto simp: at_spawn_def split: option.splits pc.splits)

lemma end_linked:
  assumes ok: "linked s" and run: "end_spawn t s = Some s'"
  shows "linked s'"
  using run
proof (rule end_spawnE)
  fix pid i p
  let ?sys = "register pid i (ho_reaper s)" and ?n = "next_id (ho_proc s)"
  let ?k = "\<lparr>sp_pid = pid, sp_exited = next_chan (ho_reaper s), sp_child = i\<rparr>"
  assume t: "fmlookup (ho_forked s) t = Some pid" and i: "fmlookup (forked (ho_reaper s)) pid = Some i"
    and p: "exec (Go t Proceed) (ho_proc s) = Some p"
    and s': "s' = s\<lparr>ho_proc := p, ho_reaper := ?sys, ho_forked := fmdrop t (ho_forked s), ho_runs := fmupd ?n ?k (ho_runs s)\<rparr>"
  have inv: "reaper_inv (ho_reaper s)" and th: "threads_ok (ho_proc s)" using ok by (simp_all add: linked_def)
  have step: "reaper_step (ho_reaper s) (Register pid) ?sys" using i by (rule reaper_step.register)
  obtain k c where c: "fmlookup (pcs (ho_proc s)) t = Some (StartSpawn k c)" "p = spawn_run k t c (ho_proc s)"
    using spawn_exec [OF linked_fork(1) [OF ok t] p] .
  have other: "u \<noteq> t \<and> pid' \<noteq> pid" if "fmlookup (fmdrop t (ho_forked s)) u = Some pid'" for u pid'
    using that t ok unfolding linked_def forks_linked_def by (auto split: if_splits)
  have "at_spawn p u \<and> fmlookup (forked ?sys) pid' \<noteq> None" if u: "fmlookup (fmdrop t (ho_forked s)) u = Some pid'" for u pid'
    using other [OF u] linked_fork [OF ok, of u pid'] u reaper_forked [OF step]
    by (auto simp: c(2) spawn_run_def at_spawn_def register_def split: if_splits)
  then have "forks_linked s'" using ok unfolding linked_def forks_linked_def s' by (auto split: if_splits)
  moreover have "runs_linked s'"
    unfolding runs_linked_def
  proof (intro conjI allI impI)
    show "fmdom' (the_runs (ho_proc s')) = fmdom' (ho_runs s')"
      using ok by (simp add: s' c(2) spawn_run_def linked_def runs_linked_def)
    fix r k' assume k': "fmlookup (ho_runs s') r = Some k'"
    show "r < next_id (ho_proc s')"
      using k' linked_run(1) [OF ok, of r k'] by (auto simp: s' c(2) spawn_run_def split: if_splits)
    show "run_linked (ho_reaper s') k' (run_view (ho_proc s') r)"
    proof (cases "r = ?n")
      case True
      then have new: "k' = ?k" using k' by (simp add: s')
      show ?thesis using True by (auto simp: new s' c(2) spawn_run_def run_linked_def register_def run_view_def)
    next
      case False
      with k' have old: "fmlookup (ho_runs s) r = Some k'" by (simp add: s')
      have "run_view (ho_proc s') r = run_view (ho_proc s) r" using False by (simp add: s' c(2) spawn_run_def run_view_def)
      then show ?thesis using reaper_run_linked [OF inv step linked_run(2) [OF ok old]] by (simp add: s')
    qed
  next
    have fresh: "sp_exited k' \<noteq> next_chan (ho_reaper s)" if k': "fmlookup (ho_runs s) r = Some k'" for r k'
      using linked_run(2) [OF ok k'] chan_bound [OF inv, of "sp_exited k'"] by (auto simp: run_linked_def)
    fix r r' k1 k2
    assume "fmlookup (ho_runs s') r = Some k1 \<and> fmlookup (ho_runs s') r' = Some k2 \<and> sp_exited k1 = sp_exited k2"
    then show "r = r'" using fresh [of r k1] fresh [of r' k2] ok
      unfolding linked_def runs_linked_def s' by (auto split: if_splits)
  qed
  moreover have "hits_linked s'"
    using ok linked_run(1) [OF ok] unfolding linked_def hits_linked_def s' by fastforce
  moreover have "threads_ok p" using exec_threads [OF th p] by blast
  ultimately show ?thesis using reaper_step_inv [OF inv step] by (simp add: linked_def s')
qed

text \<open>The delivery of a status: the run has it, and its child is gone.\<close>

lemma collect_linked:
  assumes ok: "linked s" and run: "collect_run r s = Some s'"
  shows "linked s'"
  using run
proof (rule collect_runE)
  fix k :: spawned and status and sys :: reaper_sys and p
  let ?sys = "collect (sp_pid k) status (ho_reaper s)"
  assume k: "fmlookup (ho_runs s) r = Some k" and w: "fmlookup (waiters (ho_reaper s)) (sp_pid k) = Some (sp_exited k)"
    and "wait_status (ho_reaper s) (sp_pid k) = Some status" and reap: "reaping (ho_reaper s)"
    and p: "exec (ChildExits r status) (ho_proc s) = Some p" and s': "s' = s\<lparr>ho_proc := p, ho_reaper := ?sys\<rparr>"
  then obtain c where c: "fmlookup (children (ho_reaper s)) (sp_pid k) = Some c" "ch_state c = Zombie status"
    by (auto simp: wait_status_Some)
  have inv: "reaper_inv (ho_reaper s)" and th: "threads_ok (ho_proc s)" using ok by (simp_all add: linked_def)
  have step: "reaper_step (ho_reaper s) (Wait4 (sp_pid k)) ?sys" using reap c by (rule reaper_step.wait4)
  have p': "p = upd_run r (\<lambda>x. x\<lparr>run_alive := False, run_status := status\<rparr>) (ho_proc s)" "run_flag run_alive r (ho_proc s)"
    using p by (simp_all split: if_splits)
  have nofork: "fmlookup (ho_forked s) t = None" for t
    using linked_fork(2) [OF ok, of t] inv reap by (cases "fmlookup (ho_forked s) t") (auto simp: reaper_inv_def forks_ok_def)
  then have "forks_linked s'" by (simp add: forks_linked_def s')
  moreover have "runs_linked s'"
    unfolding runs_linked_def
  proof (intro conjI allI impI)
    show "fmdom' (the_runs (ho_proc s')) = fmdom' (ho_runs s')"
      using ok by (simp add: s' p'(1) linked_def runs_linked_def)
    fix r1 k1 assume k1: "fmlookup (ho_runs s') r1 = Some k1"
    then have old: "fmlookup (ho_runs s) r1 = Some k1" by (simp add: s')
    show "r1 < next_id (ho_proc s')" using linked_run(1) [OF ok old] by (simp add: s' p'(1))
    show "run_linked (ho_reaper s') k1 (run_view (ho_proc s') r1)"
    proof (cases "r1 = r")
      case True
      obtain d where d: "fmlookup (chans (ho_reaper s)) (sp_exited k) = Some d" "sent d = []" "owner d = ch_incarnation c"
        using inv w c(1) unfolding reaper_inv_def waits_ok_def incarnation_of_def by fastforce
      have "owner d = sp_child k" using linked_run(2) [OF ok k] d(1) by (auto simp: run_linked_def)
      moreover have "gone ?sys (ch_incarnation c)"
        using inv c(1) by (auto simp: gone_def incarnation_of_def reaper_inv_def children_ok_def)
      moreover have "run_view p r = Some (False, status)"
        using p' by (auto simp: run_view_def upd_run_def run_flag_def split: option.splits)
      ultimately show ?thesis using True old k d w
        by (auto simp: s' run_linked_def collect_def deliver_def Let_def)
    next
      case False
      then have "sp_exited k1 \<noteq> sp_exited k" using ok old k unfolding linked_def runs_linked_def by blast
      moreover have "run_view p r1 = run_view (ho_proc s) r1"
        using False by (simp add: p'(1) run_view_def upd_run_def split: option.splits)
      ultimately show ?thesis using reaper_run_linked [OF inv step linked_run(2) [OF ok old]] w by (simp add: s')
    qed
  next
    fix r1 r2 k1 k2
    assume "fmlookup (ho_runs s') r1 = Some k1 \<and> fmlookup (ho_runs s') r2 = Some k2 \<and> sp_exited k1 = sp_exited k2"
    then show "r1 = r2" using ok unfolding linked_def runs_linked_def s' by auto
  qed
  moreover have "threads_ok p" using exec_threads [OF th p] by blast
  ultimately show ?thesis using reaper_step_inv [OF inv step] ok by (simp add: linked_def s' hits_linked_def)
qed

lemma host_step_linked:
  assumes ok: "linked s" and step: "host_step s l s'"
  shows "linked s'"
proof (cases l)
  case (Acts m)
  then show ?thesis using step acts_linked [OF ok] by (auto simp: host_step_def simp del: exec.simps split: if_splits)
next
  case (Elsewhere m)
  then show ?thesis using step elsewhere_linked [OF ok] by (auto simp: host_step_def split: if_splits)
qed (use step begin_linked [OF ok] end_linked [OF ok] collect_linked [OF ok] in \<open>simp_all add: host_step_def\<close>)

lemma new_host_linked: "linked (new_host pol m)"
  by (simp add: linked_def new_host_def new_reaper_inv threads_ok_def forks_linked_def runs_linked_def hits_linked_def new_psys_def)

interpretation host_tie: inductive_invariant "\<lambda>s. s = new_host pol m" host_step linked for pol m
  by unfold_locales (auto simp: new_host_linked host_step_linked)

section \<open>Properties of the whole\<close>

text \<open>What a monitor has seen of the exit of its run, once it has recorded it.\<close>

fun exit_seen :: "pc \<Rightarrow> (nat \<times> int) option" where
  "exit_seen (MonSwitch r c stopped code) = Some (r, code)"
| "exit_seen (MonLatch r c code) = Some (r, code)"
| "exit_seen (MonExited r c code) = Some (r, code)"
| "exit_seen _ = None"

lemma exit_seen_ended: "knows_exit s c \<Longrightarrow> exit_seen c = Some (r, code) \<Longrightarrow> ended_with s r code"
  by (cases c) auto

lemma linked_ended:
  assumes ok: "linked s" and k: "fmlookup (ho_runs s) r = Some k" and v: "run_view (ho_proc s) r = Some (False, status)"
  shows "fmlookup (exits (ho_reaper s)) (sp_child k) = Some status" and "gone (ho_reaper s) (sp_child k)"
proof -
  have inv: "reaper_inv (ho_reaper s)" using ok by (simp add: linked_def)
  obtain c where c: "fmlookup (chans (ho_reaper s)) (sp_exited k) = Some c" "owner c = sp_child k" "sent c = [status]"
    and g: "gone (ho_reaper s) (sp_child k)"
    using linked_run(2) [OF ok k] v by (auto simp: run_linked_def)
  show "fmlookup (exits (ho_reaper s)) (sp_child k) = Some status" using ended_child(1) [OF inv c(1,3)] c(2) by simp
  show "gone (ho_reaper s) (sp_child k)" by (rule g)
qed

text \<open>
  C2. The exit a monitor acts on is the one of its own child: however starts, exits, orphans, other programs, the
  reuse of numbers and the reaper interleave, the code with which the restart is decided is that of the
  status with which the very child ended that was forked for the run, and that child has been collected.
\<close>

theorem restart_decided_on_own_exit:
  assumes "host_reachable pol m s" and "fmlookup (pcs (ho_proc s)) t = Some c" and "exit_seen c = Some (r, code)"
  shows "\<exists>k status. fmlookup (ho_runs s) r = Some k \<and> fmlookup (exits (ho_reaper s)) (sp_child k) = Some status \<and>
    code = exitCodeOfStatus status \<and> gone (ho_reaper s) (sp_child k)"
proof -
  have ok: "linked s" using host_tie.inv_reachable [OF assms(1)] .
  have "honest (ho_proc s)" using honest_monitor.inv_reachable [OF host_as_process.abs_reachable [OF assms(1)]] .
  from exit_seen_ended [OF honest_look [OF this assms(2)] assms(3)]
  obtain x where x: "fmlookup (the_runs (ho_proc s)) r = Some x" "\<not> run_alive x" "exitCodeOfStatus (run_status x) = code"
    by (auto simp: ended_with_def split: option.splits)
  then have "r \<in> fmdom' (ho_runs s)" using ok fmdom'I [OF x(1)] by (simp add: linked_def runs_linked_def)
  then obtain k where k: "fmlookup (ho_runs s) r = Some k" by (auto simp: in_dom_iff)
  moreover have "run_view (ho_proc s) r = Some (False, run_status x)" using x by (simp add: run_view_def)
  ultimately show ?thesis using linked_ended [OF ok k] x(3) by blast
qed

text \<open>The children of the program that the kernel still has: those of its runs, and one just forked.\<close>

definition own_children :: "host \<Rightarrow> nat set" where
  "own_children s = {i. \<not> gone (ho_reaper s) i \<and>
     ((\<exists>r k. fmlookup (ho_runs s) r = Some k \<and> sp_child k = i) \<or>
      (\<exists>t pid. fmlookup (ho_forked s) t = Some pid \<and> fmlookup (forked (ho_reaper s)) pid = Some i))}"

fun child_of :: "host \<Rightarrow> nat \<Rightarrow> pc \<Rightarrow> nat option" where
  "child_of s t (StartSpawn k c) = (case fmlookup (ho_forked s) t of None \<Rightarrow> None | Some pid \<Rightarrow> fmlookup (forked (ho_reaper s)) pid)"
| "child_of s t (StartRecord k c r) = map_option sp_child (fmlookup (ho_runs s) r)"
| "child_of s t (MonWait r c) = map_option sp_child (fmlookup (ho_runs s) r)"
| "child_of s t _ = None"

lemma child_of_active: "child_of s t c = Some i \<Longrightarrow> needs_active c"
  by (cases c) auto

lemma needs_active_clash: "needs_active c \<Longrightarrow> needs_active d \<Longrightarrow> clash (role_of c) (role_of d)"
  by (cases c; cases d) (auto simp: clash_def)

lemma own_child_thread:
  assumes ok: "linked s" and single: "single (ho_proc s)" and i: "i \<in> own_children s"
  shows "\<exists>t c. fmlookup (pcs (ho_proc s)) t = Some c \<and> child_of s t c = Some i"
proof -
  from i consider (run) r k where "fmlookup (ho_runs s) r = Some k" "sp_child k = i" "\<not> gone (ho_reaper s) i"
    | (fork) t pid where "fmlookup (ho_forked s) t = Some pid" "fmlookup (forked (ho_reaper s)) pid = Some i"
    unfolding own_children_def by blast
  then show ?thesis
  proof cases
    case run
    obtain alive status where v: "run_view (ho_proc s) r = Some (alive, status)"
      using linked_run(2) [OF ok run(1)] unfolding run_linked_def by blast
    have alive
    proof (rule ccontr)
      assume "\<not> alive"
      with v linked_ended(2) [OF ok run(1)] run(2,3) show False by simp
    qed
    with v have "run_flag run_alive r (ho_proc s)" by (auto simp: run_flag_view)
    then obtain t c where c: "fmlookup (pcs (ho_proc s)) t = Some c" "runs_child r c"
      using single unfolding single_def by blast
    moreover from c(2) run have "child_of s t c = Some i" by (cases c) auto
    ultimately show ?thesis by blast
  next
    case fork
    then have "at_spawn (ho_proc s) t" using linked_fork [OF ok] by blast
    then obtain k c where "fmlookup (pcs (ho_proc s)) t = Some (StartSpawn k c)"
      by (auto simp: at_spawn_def split: option.splits pc.splits)
    then show ?thesis using fork by (intro exI [of _ t] exI [of _ "StartSpawn k c"]) simp
  qed
qed

lemma host_calm_is_host: "host_calm_reachable pol m s \<Longrightarrow> host_reachable pol m s"
  by (induction rule: reachable.induct) (auto intro: reachable_initial reachable_step simp: host_calm_step_def)

text \<open>
  C1. As long as calls are made one at a time, the kernel never has two processes of the program that its
  daemon started, counting one that has just been forked and one that has ended but has not been
  collected; and while it has one the state is STARTING, RUNNING or STOPPING.
\<close>

theorem one_process:
  assumes "host_calm_reachable pol m s" and "i \<in> own_children s"
  shows "own_children s = {i} \<and> p_state (the_proc (ho_proc s)) \<in> {StateStarting, StateRunning, StateStopping}"
proof -
  have ok: "linked s" using host_tie.inv_reachable [OF host_calm_is_host [OF assms(1)]] .
  have single: "single (ho_proc s)" using calm_process.inv_reachable [OF host_as_calm.abs_reachable [OF assms(1)]] .
  obtain t c where c: "fmlookup (pcs (ho_proc s)) t = Some c" "child_of s t c = Some i"
    using own_child_thread [OF ok single assms(2)] by blast
  have "j = i" if j: "j \<in> own_children s" for j
  proof -
    obtain u d where d: "fmlookup (pcs (ho_proc s)) u = Some d" "child_of s u d = Some j"
      using own_child_thread [OF ok single j] by blast
    have "clash (role_of c) (role_of d)" using needs_active_clash child_of_active c(2) d(2) by blast
    then have "u = t" using single_thread(3) [OF single c(1) _ d(1)] by (auto simp: pair_ok_def)
    with c d show ?thesis by simp
  qed
  then have "own_children s = {i}" using assms(2) by blast
  moreover have "active (p_state (the_proc (ho_proc s)))"
    using single_thread(1) [OF single c(1)] child_of_active [OF c(2)] by (simp add: thread_ok_def)
  ultimately show ?thesis unfolding active_def by simp
qed


section \<open>A sample run\<close>

fun host_exec_all :: "host_label list \<Rightarrow> host \<Rightarrow> host option" where
  "host_exec_all [] s = Some s"
| "host_exec_all (l # ls) s = (case host_exec l s of None \<Rightarrow> None | Some s' \<Rightarrow> host_exec_all ls s')"

lemma host_exec_reachable: "host_exec_all ls s = Some s' \<Longrightarrow> host_reachable pol m s \<Longrightarrow> host_reachable pol m s'"
proof (induction ls arbitrary: s)
  case (Cons l ls)
  then obtain s1 where "host_exec l s = Some s1" "host_exec_all ls s1 = Some s'" by (auto split: option.splits)
  with Cons show ?case by (auto intro: reachable_step simp: host_step_def)
qed simp

text \<open>A sequence that is refused where a call is not calm.\<close>

fun host_exec_calm :: "host_label list \<Rightarrow> host \<Rightarrow> host option" where
  "host_exec_calm [] s = Some s"
| "host_exec_calm (l # ls) s =
     (if host_calm s l then (case host_exec l s of None \<Rightarrow> None | Some s' \<Rightarrow> host_exec_calm ls s') else None)"

lemma host_calm_exec_reachable: "host_exec_calm ls s = Some s' \<Longrightarrow> host_calm_reachable pol m s \<Longrightarrow> host_calm_reachable pol m s'"
proof (induction ls arbitrary: s)
  case (Cons l ls)
  then obtain s1 where "host_calm s l" "host_exec l s = Some s1" "host_exec_calm ls s1 = Some s'"
    by (auto split: option.splits if_splits)
  with Cons show ?case by (auto intro: reachable_step simp: host_step_def host_calm_step_def)
qed simp

text \<open>The program comes up with number 10, is sent a signal by a stop while it runs, and exits.\<close>

definition host_up :: "host_label list" where
  "host_up = [Acts CallStart, Acts (Go 0 Proceed), Forks 0 10, Registers 0, Acts (Go 0 Proceed), Acts (Go 4 Timer), Acts (Go 4 Proceed)]"

definition host_stop :: "host_label list" where
  "host_stop = [Acts CallStop, Acts (Go 5 Proceed), Acts (Go 5 Proceed), Acts (Go 5 Proceed)]"

definition host_crash :: "host_label list" where
  "host_crash = [Elsewhere (Exit 10 failed_status), Elsewhere BeginReap, Collects 2, Elsewhere EndReap, Acts (Go 3 Proceed), Acts (Go 3 Refuse)]"

text \<open>Another program is started, and is given the number that has become free.\<close>

definition host_reuse :: "host_label list" where
  "host_reuse = [Elsewhere (Fork 10), Elsewhere (Register 10)]"

definition up_host :: host where
  "up_host = the (host_exec_all host_up (new_host RestartAlways 3))"

definition stopping_host :: host where
  "stopping_host = the (host_exec_all (host_up @ host_stop) (new_host RestartAlways 3))"

definition seen_host :: host where
  "seen_host = the (host_exec_all (host_up @ host_crash @ [Acts (Go 3 Proceed)]) (new_host RestartAlways 3))"

definition stranger_host :: host where
  "stranger_host = the (host_exec_all (host_up @ host_crash @ host_reuse @ host_stop) (new_host RestartAlways 3))"

lemma host_sample:
  assumes "host_exec_all ls (new_host pol m) \<noteq> None"
  shows "host_reachable pol m (the (host_exec_all ls (new_host pol m)))"
proof -
  have "host_reachable pol m (new_host pol m)" by (rule reachable_initial) simp
  with assms host_exec_reachable [of ls "new_host pol m" _ pol m] show ?thesis by auto
qed

lemma host_runs:
  "host_exec_all (host_up @ host_stop) (new_host RestartAlways 3) \<noteq> None"
  "host_exec_all (host_up @ host_crash @ [Acts (Go 3 Proceed)]) (new_host RestartAlways 3) \<noteq> None"
  "host_exec_all (host_up @ host_crash @ host_reuse @ host_stop) (new_host RestartAlways 3) \<noteq> None"
  by code_simp+

lemma sample_runs:
  "fmlookup (ho_runs up_host) 2 = Some \<lparr>sp_pid = 10, sp_exited = 0, sp_child = 0\<rparr>"
  "fmlookup (ho_runs stopping_host) 2 = Some \<lparr>sp_pid = 10, sp_exited = 0, sp_child = 0\<rparr>"
  "fmlookup (ho_runs seen_host) 2 = Some \<lparr>sp_pid = 10, sp_exited = 0, sp_child = 0\<rparr>"
  by code_simp+

theorem restart_decided_on_own_exit_witness:
  "\<exists>status. fmlookup (exits (ho_reaper seen_host)) 0 = Some status \<and> exitCodeOfStatus status = 1"
proof -
  have reach: "host_reachable RestartAlways 3 seen_host"
    unfolding seen_host_def by (rule host_sample) (rule host_runs)
  have pc: "fmlookup (pcs (ho_proc seen_host)) 3 = Some (MonSwitch 2 1 False 1)" by code_simp
  have "exit_seen (MonSwitch 2 1 False 1) = Some (2, 1)" by simp
  from restart_decided_on_own_exit [OF reach pc this] sample_runs(3) show ?thesis by auto
qed


theorem one_process_witness: "own_children up_host = {0}"
proof -
  have "host_exec_calm host_up (new_host RestartAlways 3) = Some up_host" by code_simp
  then have reach: "host_calm_reachable RestartAlways 3 up_host"
    using host_calm_exec_reachable [OF _ reachable_initial] by blast
  have "incarnation_of (ho_reaper up_host) 10 = Some 0" by code_simp
  then have "0 \<in> own_children up_host" using sample_runs(1) unfolding own_children_def gone_def by force
  from one_process [OF reach this] show ?thesis by blast
qed

text \<open>
  Between the collection of the child and the end of the monitor's work, which flushes the output for up to
  two seconds for each stream, the program is RUNNING and its number is free: a \<open>Stop\<close> that comes then sends its
  signal to the group of another program, the child 1, which was never a child of this one.
\<close>

theorem stop_signals_stranger:
  "host_reachable RestartAlways 3 stranger_host \<and>
   (\<exists>h \<in> set (ho_hits stranger_host). hit_run h = 2 \<and> \<not> hit_owed h \<and> hit_child h = Some 1) \<and>
   (\<forall>k \<in> fmran' (ho_runs stranger_host). sp_child k \<noteq> 1)"
proof (intro conjI)
  show "host_reachable RestartAlways 3 stranger_host"
    unfolding stranger_host_def by (rule host_sample) (rule host_runs)
  show "\<exists>h \<in> set (ho_hits stranger_host). hit_run h = 2 \<and> \<not> hit_owed h \<and> hit_child h = Some 1" by code_simp
  show "\<forall>k \<in> fmran' (ho_runs stranger_host). sp_child k \<noteq> 1" by code_simp
qed

end
