(* ===== verification/Restart.thy ===== *)
theory Restart
  imports Supervision
begin

text \<open>
  \<open>Restart\<close> and \<open>Signal\<close> of \<^verbatim>\<open>internal/process/process.go\<close>. No other part of the program calls them: the server
  restarts through what is wanted of a program. \<open>Restart\<close> is a goroutine beside the machine of \<open>Process\<close>: it calls
  \<open>Stop\<close>, which always returns without an error, sleeps, and calls \<open>Start\<close>.
\<close>

datatype restart_pc = InStop nat | Asleep | InStart nat | Returned

record restart_sys =
  rs_sys :: psys
  rs_pc :: restart_pc

datatype restart_label = Others label | StopReturns | WakesUp | StartReturns

definition call_of :: "label \<Rightarrow> (nat \<Rightarrow> restart_pc) \<Rightarrow> psys \<Rightarrow> restart_sys option" where
  "call_of l at s = map_option (\<lambda>s'. \<lparr>rs_sys = s', rs_pc = at (next_id s)\<rparr>) (exec l s)"

definition begin_restart :: "psys \<Rightarrow> restart_sys option" where
  "begin_restart s = call_of CallStop InStop s"

fun restart_exec :: "restart_label \<Rightarrow> restart_sys \<Rightarrow> restart_sys option" where
  "restart_exec (Others l) s = map_option (\<lambda>s'. s\<lparr>rs_sys := s'\<rparr>) (exec l (rs_sys s))"
| "restart_exec StopReturns s =
     (case rs_pc s of InStop t \<Rightarrow> if fmlookup (pcs (rs_sys s)) t = None then Some (s\<lparr>rs_pc := Asleep\<rparr>) else None | _ \<Rightarrow> None)"
| "restart_exec WakesUp s = (if rs_pc s = Asleep then call_of CallStart InStart (rs_sys s) else None)"
| "restart_exec StartReturns s =
     (case rs_pc s of InStart t \<Rightarrow> if fmlookup (pcs (rs_sys s)) t = None then Some (s\<lparr>rs_pc := Returned\<rparr>) else None | _ \<Rightarrow> None)"

definition restart_step :: "restart_sys \<Rightarrow> restart_label \<Rightarrow> restart_sys \<Rightarrow> bool" where
  "restart_step s l s' \<longleftrightarrow> restart_exec l s = Some s'"

datatype signal_error = ProcessNotRunning | HandleReleased

text \<open>
  \<open>Signal\<close> goes through the handle of the last run, which the monitor releases: \<open>released\<close> says for which runs it has.
\<close>

definition Signal_process :: "(nat \<Rightarrow> bool) \<Rightarrow> psys \<Rightarrow> signal_error + nat" where
  "Signal_process released s =
     (case p_run (the_proc s) of
        None \<Rightarrow> Inl ProcessNotRunning
      | Some r \<Rightarrow> if released r then Inl HandleReleased else Inr r)"

abbreviation restart_reachable :: "RestartPolicy \<Rightarrow> int \<Rightarrow> restart_sys \<Rightarrow> bool" where
  "restart_reachable pol m \<equiv>
     reachable (\<lambda>x. \<exists>s. process_reachable pol m s \<and> begin_restart s = Some x) restart_step"

text \<open>A restart is a stop and a start among others: everything said of the process machine holds of it.\<close>

lemma call_of_step: "call_of l at s = Some x \<Longrightarrow> process_step s l (rs_sys x)"
  by (auto simp: call_of_def process_step_def)

lemma restart_step_process:
  assumes "restart_step s l s'"
  shows "rs_sys s' = rs_sys s \<or> (\<exists>m. process_step (rs_sys s) m (rs_sys s'))"
proof (cases l)
  case (Others m)
  with assms show ?thesis by (auto simp: restart_step_def process_step_def)
next
  case WakesUp
  with assms show ?thesis by (auto simp: restart_step_def split: if_splits dest: call_of_step)
qed (use assms in \<open>auto simp: restart_step_def split: restart_pc.splits if_splits\<close>)

interpretation restart_as_process: simulation
  "\<lambda>x. \<exists>s. process_reachable pol m s \<and> begin_restart s = Some x" restart_step "process_reachable pol m" process_step rs_sys for pol m
proof
  fix x
  assume "\<exists>s. process_reachable pol m s \<and> begin_restart s = Some x"
  then obtain s where "process_reachable pol m s" "process_step s CallStop (rs_sys x)"
    unfolding begin_restart_def by (blast dest: call_of_step)
  then show "process_reachable pol m (rs_sys x)" by (rule reachable_step)
qed (use restart_step_process in blast)

lemma reachable_again: "reachable (process_reachable pol m) process_step s \<Longrightarrow> process_reachable pol m s"
  by (induction rule: reachable.induct) (auto intro: reachable_step)

text \<open>Restarts do not raise the count of restarts above its bound, and never leave a program in an unknown state.\<close>

theorem restart_keeps_bounds:
  assumes "0 \<le> m" and "restart_reachable pol m x"
  shows "counted pol m (rs_sys x)"
proof -
  have "process_reachable pol m (rs_sys x)" using reachable_again [OF restart_as_process.abs_reachable [OF assms(2)]] .
  then have "reachable (\<lambda>s. 0 \<le> m \<and> s = new_psys pol m) process_step (rs_sys x)"
    using assms(1) by (blast intro: reachable_mono)
  then show ?thesis by (rule restart_bound.inv_reachable)
qed

fun restart_all :: "restart_label list \<Rightarrow> restart_sys \<Rightarrow> restart_sys option" where
  "restart_all [] s = Some s"
| "restart_all (l # ls) s = (case restart_exec l s of None \<Rightarrow> None | Some s' \<Rightarrow> restart_all ls s')"

lemma restart_all_reachable: "restart_all ls s = Some s' \<Longrightarrow> restart_reachable pol m s \<Longrightarrow> restart_reachable pol m s'"
proof (induction ls arbitrary: s)
  case (Cons l ls)
  then obtain s1 where "restart_exec l s = Some s1" "restart_all ls s1 = Some s'" by (auto split: option.splits)
  with Cons show ?case by (auto intro: reachable_step simp: restart_step_def)
qed simp

text \<open>
  \<open>Stop\<close> gives up on a process that does not die of SIGKILL and leaves it to be seen by the reconciler; \<open>Restart\<close> goes on and
  \<open>Start\<close>, which refuses only a program that is starting or running, starts a second process beside it.
\<close>

definition given_up :: "restart_label list" where
  "given_up = [Others (Go 5 Proceed), Others (Go 5 Proceed), Others (Go 5 Proceed), Others (Go 5 Timer), Others (Go 5 Proceed),
     Others (Go 5 Timer), Others (Go 5 Proceed), StopReturns, WakesUp, Others (Go 6 Proceed), Others (Go 6 Proceed)]"

definition restarted :: restart_sys where
  "restarted = the (restart_all given_up (the (begin_restart sample_up)))"

theorem restart_beside_unfinished:
  "restart_reachable RestartAlways 3 restarted \<and> run_flag run_alive 2 (rs_sys restarted) \<and> run_flag run_alive 8 (rs_sys restarted)"
proof (intro conjI)
  have some: "begin_restart sample_up \<noteq> None" "restart_all given_up (the (begin_restart sample_up)) \<noteq> None" by code_simp+
  have "restart_reachable RestartAlways 3 (the (begin_restart sample_up))"
    using calm_is_reachable [OF sample_up_reachable] some(1) by (intro reachable_initial) auto
  then show "restart_reachable RestartAlways 3 restarted"
    using restart_all_reachable some(2) unfolding restarted_def by fastforce
qed code_simp+

end
