(* ===== verification/StopRace.thy ===== *)
theory StopRace
  imports Supervision Reconcile
begin

text \<open>
  A stop that meets the exit of the program it stops: \<open>Stop\<close> of \<^verbatim>\<open>internal/process/process.go\<close> with the reconciler of
  \<^verbatim>\<open>internal/server/reconcile.go\<close>, which decides by the state that the stop leaves behind.
\<close>

text \<open>Nothing runs, nobody is at work, and the state says that the program is being stopped.\<close>

definition wedged :: "psys \<Rightarrow> bool" where
  "wedged s \<longleftrightarrow> p_state (the_proc s) = StateStopping \<and> fmdom' (pcs s) = {} \<and>
     (\<forall>r \<in> fmdom' (the_runs s). \<not> run_flag run_alive r s)"

fun is_call :: "label \<Rightarrow> bool" where
  "is_call CallStart = True"
| "is_call CallStop = True"
| "is_call _ = False"

lemma wedged_step: "wedged s \<Longrightarrow> \<not> is_call l \<Longrightarrow> exec l s = Some s' \<Longrightarrow> wedged s'"
proof (cases l)
  case (Go t ch)
  assume "wedged s" "exec l s = Some s'"
  moreover from this have "fmlookup (pcs s) t = None" by (simp add: wedged_def fmdom'_notD)
  ultimately show ?thesis using Go by simp
qed (auto simp: wedged_def run_flag_def in_dom_iff split: option.splits if_splits)

lemma wedged_for_good: "exec_all ls s = Some s' \<Longrightarrow> wedged s \<Longrightarrow> \<forall>l \<in> set ls. \<not> is_call l \<Longrightarrow> wedged s'"
proof (induction ls arbitrary: s)
  case (Cons l ls)
  then obtain s1 where "exec l s = Some s1" "exec_all ls s1 = Some s'" by (auto split: option.splits)
  with Cons show ?case using wedged_step by auto
qed simp

lemma wedged_left_alone:
  "fmlookup (sv_processes srv) name = Some p \<Longrightarrow> GetState p = StateStopping \<Longrightarrow> fst (reconcile_one name srv) = None"
  by (simp add: reconcile_one_action may_start_def must_stop_def)

text \<open>
  The stop reads RUNNING and marks the program as stopped; before it sets STOPPING the child exits and the monitor, which
  sees the mark, settles on STOPPED and is through. Then the stop sets STOPPING and finds nothing to wait for.
\<close>

definition exit_meets_stop :: "label list" where
  "exit_meets_stop = [CallStop, ChildExits 2 failed_status, Go 3 Proceed, Go 3 Refuse, Go 3 Proceed, Go 3 Proceed, Go 3 Proceed,
     Go 5 Proceed, Go 5 Proceed, Go 5 Refuse, Go 5 Closed, Go 5 Proceed]"

definition sample_wedged :: psys where
  "sample_wedged = the (exec_calm (up_labels @ exit_meets_stop) (new_psys RestartAlways 3))"

lemma sample_wedged_reachable: "calm_reachable RestartAlways 3 sample_wedged"
  unfolding sample_wedged_def by (rule calm_sample) code_simp

text \<open>
  C39. A stop that meets the exit of its program can leave it in STOPPING with nothing running and nobody at work, even when
  calls are made one at a time. Nothing but another call of \<open>Start\<close> or \<open>Stop\<close> ends that, and the reconciler makes
  none, whatever is wanted of the program: it starts only what is STOPPED and stops only what is not STOPPING.
\<close>

theorem stop_race_wedges:
  "(\<exists>s. calm_reachable RestartAlways 3 s \<and> wedged s) \<and>
   (\<forall>s ls s'. wedged s \<and> (\<forall>l \<in> set ls. \<not> is_call l) \<and> exec_all ls s = Some s' \<longrightarrow> wedged s') \<and>
   (\<forall>s srv name p. wedged s \<and> fmlookup (sv_processes srv) name = Some p \<and> GetState p = p_state (the_proc s) \<longrightarrow>
      fst (reconcile_one name srv) = None)"
proof (intro conjI)
  have "wedged sample_wedged" by code_simp
  then show "\<exists>s. calm_reachable RestartAlways 3 s \<and> wedged s" using sample_wedged_reachable by blast
  show "\<forall>s ls s'. wedged s \<and> (\<forall>l \<in> set ls. \<not> is_call l) \<and> exec_all ls s = Some s' \<longrightarrow> wedged s'"
    using wedged_for_good by blast
  show "\<forall>s srv name p. wedged s \<and> fmlookup (sv_processes srv) name = Some p \<and> GetState p = p_state (the_proc s) \<longrightarrow>
      fst (reconcile_one name srv) = None"
    using wedged_left_alone by (simp add: wedged_def)
qed

theorem stop_race_wedges_witness: "\<exists>s. exec_all [Tick 1000] sample_wedged = Some s \<and> p_state (the_proc s) = StateStopping"
proof -
  have "wedged sample_wedged" by code_simp
  moreover obtain s where s: "exec_all [Tick 1000] sample_wedged = Some s" by simp
  ultimately have "wedged s" using stop_race_wedges by (metis empty_iff insert_iff is_call.simps(5) list.set)
  with s show ?thesis by (simp add: wedged_def)
qed

end
