(* ===== verification/RaceProbe.thy ===== *)
theory RaceProbe
  imports Reaper
begin

text \<open>
  \<^verbatim>\<open>probes/wait4-race/main.go\<close>, the experiment that the design of the reaper rests on: a goroutine that calls
  \<^verbatim>\<open>wait4(-1)\<close> beside \<^verbatim>\<open>cmd.Wait\<close>, which waits for one process. The loop over the runs, the goroutine and the child
  move in any order. \<open>ra_wrong\<close> counts statuses that were read but are not the one a child exits with.
\<close>

definition race_runs :: nat where "race_runs = 200"

definition wantExit :: int where "wantExit = 7"

datatype race_pc = AtStart | AtWait

record race =
  ra_pc :: race_pc
  ra_begun :: nat
  ra_child :: "child_state option"
  ra_survived :: nat
  ra_lost :: nat
  ra_failed :: nat
  ra_swallowed :: nat
  ra_wrong :: nat
  ra_stop :: bool

definition race_start :: race where
  "race_start = \<lparr>ra_pc = AtStart, ra_begun = 0, ra_child = None, ra_survived = 0, ra_lost = 0, ra_failed = 0,
     ra_swallowed = 0, ra_wrong = 0, ra_stop = False\<rparr>"

text \<open>\<^verbatim>\<open>cmd.Wait\<close> returns: with the status, or with an error when somebody else has collected the child.\<close>

definition count_wait :: "WaitStatus option \<Rightarrow> race \<Rightarrow> race" where
  "count_wait result s =
     (case result of
        None \<Rightarrow> s\<lparr>ra_lost := ra_lost s + 1\<rparr>
      | Some status \<Rightarrow>
          if exitCodeOfStatus status = wantExit then s\<lparr>ra_survived := ra_survived s + 1\<rparr>
          else s\<lparr>ra_lost := ra_lost s + 1, ra_wrong := ra_wrong s + 1\<rparr>)"

datatype race_label = StartFails | Started | ChildEnds WaitStatus | Swallows | WaitReturns | LoopEnds

fun race_exec :: "race_label \<Rightarrow> race \<Rightarrow> race option" where
  "race_exec StartFails s =
     (if ra_pc s = AtStart \<and> ra_begun s < race_runs
      then Some (s\<lparr>ra_begun := ra_begun s + 1, ra_failed := ra_failed s + 1\<rparr>) else None)"
| "race_exec Started s =
     (if ra_pc s = AtStart \<and> ra_begun s < race_runs
      then Some (s\<lparr>ra_begun := ra_begun s + 1, ra_pc := AtWait, ra_child := Some Running\<rparr>) else None)"
| "race_exec (ChildEnds status) s =
     (if ra_child s = Some Running then Some (s\<lparr>ra_child := Some (Zombie status)\<rparr>) else None)"
| "race_exec Swallows s =
     (case ra_child s of
        Some (Zombie status) \<Rightarrow>
          if ra_stop s then None else Some (s\<lparr>ra_child := None, ra_swallowed := ra_swallowed s + 1\<rparr>)
      | _ \<Rightarrow> None)"
| "race_exec WaitReturns s =
     (if ra_pc s \<noteq> AtWait then None
      else case ra_child s of
        None \<Rightarrow> Some (count_wait None (s\<lparr>ra_pc := AtStart\<rparr>))
      | Some (Zombie status) \<Rightarrow> Some (count_wait (Some status) (s\<lparr>ra_pc := AtStart, ra_child := None\<rparr>))
      | Some Running \<Rightarrow> None)"
| "race_exec LoopEnds s = (if ra_pc s = AtStart \<and> ra_begun s = race_runs then Some (s\<lparr>ra_stop := True\<rparr>) else None)"

text \<open>What is printed at the end: how many statuses survived, how many were lost, and whether there is a warning.\<close>

definition race_report :: "race \<Rightarrow> nat \<times> nat \<times> bool" where
  "race_report s = (ra_survived s, ra_lost s, 0 < ra_lost s)"

definition race_step :: "race \<Rightarrow> race_label \<Rightarrow> race \<Rightarrow> bool" where
  "race_step s l s' \<longleftrightarrow> race_exec l s = Some s'"

text \<open>Every run is accounted for, and what is lost was swallowed or was another status.\<close>

definition race_ok :: "race \<Rightarrow> bool" where
  "race_ok s \<longleftrightarrow> ra_survived s + ra_lost s + ra_failed s + (if ra_pc s = AtWait then 1 else 0) = ra_begun s \<and>
     ra_begun s \<le> race_runs \<and> (ra_pc s = AtStart \<longrightarrow> ra_child s = None) \<and>
     ra_lost s + (if ra_pc s = AtWait \<and> ra_child s = None then 1 else 0) = ra_swallowed s + ra_wrong s"

lemma race_step_ok: "race_ok s \<Longrightarrow> race_step s l s' \<Longrightarrow> race_ok s'"
  unfolding race_step_def
  by (cases l; cases "ra_pc s") (auto simp: race_ok_def count_wait_def split: if_splits option.splits child_state.splits)

interpretation race_accounts: inductive_invariant "\<lambda>s. s = race_start" race_step race_ok
  by unfold_locales (simp add: race_start_def race_ok_def, rule race_step_ok)

text \<open>
  At the end of the loop the statuses that were lost are those the goroutine has swallowed, besides statuses other
  than the expected one, and together with the ones that survived and the starts that failed they are
  all the runs.
\<close>

theorem race_end_accounts:
  assumes "reachable (\<lambda>s. s = race_start) race_step s" and "ra_pc s = AtStart" and "ra_begun s = race_runs"
  shows "ra_survived s + ra_lost s + ra_failed s = 200 \<and> ra_lost s = ra_swallowed s + ra_wrong s"
  using race_accounts.inv_reachable [OF assms(1)] assms(2,3) by (simp add: race_ok_def race_runs_def)

text \<open>A run whose status survives, and one whose status is swallowed.\<close>

abbreviation kept_run :: "race_label list" where
  "kept_run \<equiv> [Started, ChildEnds (exited_status 7), WaitReturns]"

abbreviation lost_run :: "race_label list" where
  "lost_run \<equiv> [Started, ChildEnds (exited_status 7), Swallows, WaitReturns]"

definition between :: "nat \<Rightarrow> nat \<Rightarrow> race" where
  "between kept lost = race_start\<lparr>ra_begun := kept + lost, ra_survived := kept, ra_lost := lost, ra_swallowed := lost\<rparr>"

lemma wanted: "exitCodeOfStatus (exited_status 7) = wantExit"
  by (simp add: wantExit_def) code_simp

lemma run_snoc: "runs step s ls s1 \<Longrightarrow> step s1 l s2 \<Longrightarrow> ls @ [l] = ms \<Longrightarrow> runs step s ms s2"
  by (auto intro: runs_more)

lemma run_three: "step s a s1 \<Longrightarrow> step s1 b s2 \<Longrightarrow> step s2 c s3 \<Longrightarrow> runs step s [a, b, c] s3"
  by (rule run_snoc [OF run_snoc [OF runs_one, of step s a s1 b s2]]) simp_all

lemma run_kept:
  assumes "kept + lost < race_runs"
  shows "runs race_step (between kept lost) kept_run (between (kept + 1) lost)"
  by (rule run_three [of _ _ _ "(between kept lost)\<lparr>ra_begun := kept + lost + 1, ra_pc := AtWait, ra_child := Some Running\<rparr>" _
        "(between kept lost)\<lparr>ra_begun := kept + lost + 1, ra_pc := AtWait, ra_child := Some (Zombie (exited_status 7))\<rparr>"])
    (use assms in \<open>simp_all add: race_step_def between_def race_start_def count_wait_def wanted\<close>)

lemma run_lost:
  assumes "kept + lost < race_runs"
  shows "runs race_step (between kept lost) lost_run (between kept (lost + 1))"
  by (rule run_snoc [OF run_three [of _ _ _ "(between kept lost)\<lparr>ra_begun := kept + lost + 1, ra_pc := AtWait, ra_child := Some Running\<rparr>" _
        "(between kept lost)\<lparr>ra_begun := kept + lost + 1, ra_pc := AtWait, ra_child := Some (Zombie (exited_status 7))\<rparr>" _
        "(between kept lost)\<lparr>ra_begun := kept + lost + 1, ra_pc := AtWait, ra_swallowed := lost + 1\<rparr>"]])
    (use assms in \<open>simp_all add: race_step_def between_def race_start_def count_wait_def\<close>)

lemma run_both: "kept + lost \<le> race_runs \<Longrightarrow> \<exists>ls. runs race_step race_start ls (between kept lost)"
proof (induction kept)
  case 0
  then show ?case
  proof (induction lost)
    case 0
    have "between 0 0 = race_start" by (simp add: between_def race_start_def)
    then show ?case using runs_none by metis
  next
    case (Suc lost)
    then obtain ls where "runs race_step race_start ls (between 0 lost)" by auto
    with run_lost [of 0 lost] Suc.prems show ?case by (auto intro: runs_trans)
  qed
next
  case (Suc kept)
  then obtain ls where "runs race_step race_start ls (between kept lost)" by auto
  with run_kept [of kept lost] Suc.prems show ?case by (auto intro: runs_trans)
qed

text \<open>
  The race that rules this design out: although every child exits with the expected status, any number of the
  200 statuses may be lost, depending on nothing but who comes first.
\<close>

theorem race_loses_any_number:
  assumes "lost \<le> race_runs"
  shows "\<exists>ls s. runs race_step race_start ls s \<and> ra_stop s \<and>
    race_report s = (race_runs - lost, lost, 0 < lost) \<and> ra_wrong s = 0 \<and> ra_failed s = 0"
proof -
  let ?s = "between (race_runs - lost) lost"
  obtain ls where "runs race_step race_start ls ?s" using run_both [of "race_runs - lost" lost] assms by auto
  moreover have "race_step ?s LoopEnds (?s\<lparr>ra_stop := True\<rparr>)"
    using assms by (simp add: race_step_def between_def race_start_def)
  ultimately have "runs race_step race_start (ls @ [LoopEnds]) (?s\<lparr>ra_stop := True\<rparr>)" by (rule runs_more)
  then show ?thesis
    by (intro exI [of _ "ls @ [LoopEnds]"] exI [of _ "?s\<lparr>ra_stop := True\<rparr>"]) (simp add: between_def race_start_def race_report_def)
qed

end
