(* ===== verification/Spec2Isabelle.thy ===== *)
theory Spec2Isabelle
  imports Reload PidLock StateFile LogWriter Supervision Listener Sctl Capture Recorder Identity Startup
    ReapLoop Reaped Restart StopRace RaceProbe
begin

text \<open>
  A verification library for \<^verbatim>\<open>supavisor\<close>, a process supervisor written in Go: a daemon that reads a
  configuration of programs with dependencies, starts each program once what it depends on has come up,
  restarts it as its policy says, probes its health, captures its output in rotating log files, answers
  requests over a socket, reloads its configuration while running and stops everything in order.

  \<^bold>\<open>How the parts work together.\<close> The configuration is decoded (\<open>Config\<close>), converted and merged (\<open>Convert\<close>) and
  validated (\<open>Validate\<close>). The server makes one managed process per program and a dependency graph
  (\<open>Server\<close>, \<open>Graph\<close>). The reconciler compares what is wanted of each program with the state of its process
  and starts or stops it on a goroutine of its own (\<open>Reconcile\<close>); requests only change what is wanted and
  wait for the outcome (\<open>Waiting\<close>), and so does a reload (\<open>Reload\<close>). A managed process is a state machine run by
  several goroutines (\<open>Process\<close>), its children are collected by one reaper for all (\<open>Reaper\<close>), its health is
  checked by another goroutine (\<open>Health\<close>), and its output is drained from a pipe (\<open>Capture\<close>) into a log writer
  (\<open>LogWriter\<close>). The PID file keeps a second daemon away (\<open>PidLock\<close>), and the state file lets the next one stop
  what a crash left running (\<open>StateFile\<close>). The daemon starts and ends all of them (\<open>Startup\<close>, \<open>Daemon\<close>); requests come
  through a socket (\<open>Listener\<close>, \<open>Ipc\<close>) from the client (\<open>Sctl\<close>).

  \<^bold>\<open>Theories and the code they model\<close> (paths under \<^verbatim>\<open>src/\<close>):

  \<^item> \<open>Prelude\<close>: the functions of the standard library the others share (\<^verbatim>\<open>strings\<close>, \<^verbatim>\<open>strconv\<close>, 64-bit wrap-around),
    ranges over maps, decimal numbers read back.
  \<^item> \<open>Machine\<close>: labelled transition systems; the locales \<open>inductive_invariant\<close>, \<open>monotone_measure\<close> and
    \<open>simulation\<close>, which the reaper, the process machine and their composition, the reconciler, the PID lock, the
    listener, the daemon and the recorder interpret.
  \<^item> \<open>Config\<close>, \<open>Convert\<close>, \<open>Validate\<close>: \<^verbatim>\<open>internal/config\<close>. The records are the structs, an absent pointer setting is
    \<open>None\<close>; \<open>UnmarshalYAML\<close>, \<open>parseBytes\<close>, \<open>parseSignal\<close>, \<open>convertProgram\<close>, \<open>ParseConfig\<close>, \<open>Validate\<close> and the checks it calls
    are functions to an error or a value. Lemmas: what is read from a depends_on mapping or a size, what an
    accepted program satisfies, that fragments are merged exactly and that only the first document of a file counts, and that \<open>Validate\<close> accepts exactly the
    configurations whose dependencies are closed, acyclic and satisfiable.
  \<^item> \<open>Kahn\<close>, \<open>Graph\<close>: \<^verbatim>\<open>internal/dependency/graph.go\<close>. \<open>Kahn\<close> has the invariant of the sorting loops over plain sets,
    \<open>Graph\<close> the graph with its index of reverse edges, \<open>AddNode\<close>, \<open>TopologicalSort\<close> and \<open>Tiers\<close>.
  \<^item> \<open>LogWriter\<close>: \<^verbatim>\<open>internal/logrotate/writer.go\<close>, over a directory and an operating system that may refuse any
    call: bounds of the log, the chain of backups, and what survives each error.
  \<^item> \<open>Reaper\<close>: \<^verbatim>\<open>internal/process/reaper.go\<close> as a transition system of starts, exits, orphans and collections, with
    PIDs that are used again. Every exit channel receives the status of the child it was made for.
  \<^item> \<open>ReapLoop\<close>: the goroutine of the reaper, cut at \<^verbatim>\<open>wait4\<close>, the locks and the channel of SIGCHLD. It refines \<open>Reaper\<close>
    through \<open>settle\<close>, which completes a delivery under way; no exit waits for the ticker; and where the check before
    a probe's signal can be stale.
  \<^item> \<open>RaceProbe\<close>: \<^verbatim>\<open>probes/wait4-race/main.go\<close>, the experiment against a second waiter; any number of statuses can be lost.
  \<^item> \<open>Command\<close>: \<open>parseCommand\<close> (\<^verbatim>\<open>process.go\<close>) and \<open>firstLine\<close> (\<^verbatim>\<open>health.go\<close>); quoting is read back.
  \<^item> \<open>Process\<close>, \<open>OneChild\<close>, \<open>Supervision\<close>: \<^verbatim>\<open>internal/process/process.go\<close> and \<^verbatim>\<open>state.go\<close>. The record \<open>proc\<close> holds the fields
    guarded by the mutex, \<open>pc\<close> says where each goroutine is between two critical sections of \<open>Start\<close>, \<open>Stop\<close>,
    \<open>monitor\<close>, \<open>maybeRestart\<close> and \<open>waitForStartSuccess\<close>, and \<open>thread_step\<close> is one section. \<open>OneChild\<close> proves the invariant
    that holds as long as calls come one at a time (\<open>calm\<close>); \<open>Supervision\<close> proves the properties, among them that
    the monitor refines the sequential decision \<open>verdict\<close>, and shows the interleavings that go wrong.
  \<^item> \<open>Reaped\<close>: the process machine composed with the reaper and the kernel. \<open>host_exec\<close> takes the steps of both, \<open>spawn\<close> and
    the delivery of a status together; both are simulated, so that all that is said of them holds here too, and
    the invariant \<open>linked\<close> ties runs to children: one process of a program at a time, restarts decided on the exit of the
    own child, and which process a signal reaches.
  \<^item> \<open>StopRace\<close>: a stop that meets the exit of its program, and what the reconciler makes of the state it leaves.
  \<^item> \<open>Restart\<close>: \<open>Restart\<close> and \<open>Signal\<close> of \<^verbatim>\<open>process.go\<close>, which nothing calls.
  \<^item> \<open>Health\<close>: \<^verbatim>\<open>internal/process/health.go\<close>; the probes' outcomes are inputs, and the health is a function of them.
  \<^item> \<open>Reconcile\<close>, \<open>Waiting\<close>, \<open>Server\<close>, \<open>Reload\<close>: \<^verbatim>\<open>reconcile.go\<close>, \<^verbatim>\<open>server.go\<close> and \<^verbatim>\<open>reload.go\<close> of \<^verbatim>\<open>internal/server\<close>. The record \<open>server\<close>
    has the maps of the struct. \<open>reconcile_one\<close> is one round of the loop, \<open>server_step\<close> interleaves it with the end
    of actions, the programs and the callers. \<open>server_ok\<close> is the well-formedness that \<open>New\<close> establishes and that
    the steps and \<open>Reload\<close> keep.
  \<^item> \<open>PidLock\<close>: \<^verbatim>\<open>internal/server/pidlock.go\<close>, cut at its system calls, for any number of daemons that may crash.
  \<^item> \<open>StateFile\<close>, \<open>Recorder\<close>: \<^verbatim>\<open>internal/server/state.go\<close> and \<^verbatim>\<open>identity_linux.go\<close>. \<open>StateFile\<close> has the file, the records and what is
    done with them after a crash; \<open>Recorder\<close> the goroutine that saves while programs change, with the processes of the
    machine, and the invariant that a program is in the file or on its way there.
  \<^item> \<open>Identity\<close>: \<^verbatim>\<open>identity_darwin.go\<close> and \<^verbatim>\<open>identity_other.go\<close>.
  \<^item> \<open>Listener\<close>, \<open>Ipc\<close>: \<^verbatim>\<open>internal/server/ipc.go\<close> and \<^verbatim>\<open>internal/api/messages.go\<close>. \<open>Listener\<close> is the socket with its accept loop,
    one goroutine per client and \<open>Stop\<close>, as steps over the semaphore and the \<^verbatim>\<open>WaitGroup\<close>: the bound on clients, no client
    added while the group is waited for, and what a stop waits for. \<open>Ipc\<close> has a function per handler, whose result is
    the response and the calls it made of the server.
  \<^item> \<open>Sctl\<close>: \<^verbatim>\<open>cmd/sctl/main.go\<close>. A response becomes a JSON value and is read back into the untyped values the client
    looks fields up in; the lemmas follow what the daemon holds to the line that is printed and the exit code.
  \<^item> \<open>Capture\<close>: the rest of \<open>Start\<close> in \<^verbatim>\<open>process.go\<close>: \<open>startLogging\<close>, \<open>buildCommand\<close>, \<open>closeChildEnds\<close> and \<open>stopLogging\<close> over the
    descriptors of the daemon, \<open>drainStream\<close> as a function of what the pipe yields, and the flow from a program to its log.
  \<^item> \<open>Daemon\<close>: \<open>Start\<close>, \<open>Stop\<close> and \<open>handleSignals\<close> of \<^verbatim>\<open>server.go\<close> and \<open>reconcileLoop\<close>. The record \<open>daemon\<close> has the server with the
    channels and flags of the shutdown; \<open>daemon_step\<close> interleaves the loop, the actions, \<open>Stop\<close> and everybody else.
    Nothing starts while programs are stopped, and a shutdown is never stuck.
  \<^item> \<open>Startup\<close>: \<^verbatim>\<open>cmd/supavisor/main.go\<close> and \<^verbatim>\<open>internal/version\<close>, and what a daemon that comes to serve satisfies, from its files on.
  \<^item> This theory: the start-up of a whole server, which needs the tiers of the graph and the reconciler.

  \<^bold>\<open>Conventions.\<close> A Go map is a finite map, and a \<open>range\<close> over it takes the order as an argument, for which results
  hold whatever it is. Errors are values of datatypes with the data their messages are made of. Integers are
  unbounded where the code cannot overflow them and wrapped to 64 bits where it can (\<open>wrap64\<close>); wait statuses are
  32-bit words. Strings are lists of bytes, white space is ASCII white space. The operating system, the YAML and
  JSON libraries, \<^verbatim>\<open>url.Parse\<close> and \<^verbatim>\<open>time.ParseDuration\<close> are arguments or outcomes that the labels carry, and the laws
  assumed of them are hypotheses with a witness.

  \<^bold>\<open>Termination and bounds.\<close> No definition uses fuel. The searches through dependencies stop because the set of names
  seen grows within the configured names; the sorting loops because each step of the queue lowers the sum of the
  in-degrees; waiting loops run over a list of polls, and their result is \<open>None\<close> while it has not ended. The monitor
  needs at most six of its own steps to a verdict, the loop of the reaper at most \<open>work\<close> steps to deliver what is owed, a start-up as many rounds as there are tiers, and the stop of the
  listener nine steps besides those of its clients.

  \<^bold>\<open>What the model leaves out.\<close> The rounding of a duration to seconds in \<open>formatDuration\<close> is the exact quotient, not
  float64 arithmetic. A nil map and an empty one are the same, which \<^verbatim>\<open>reflect.DeepEqual\<close> tells apart. The health
  checker and the capture of output run beside the process machine and are not part of it. A JSON text is a value, whose
  strings are valid UTF-8; the alignment of a table of \<^verbatim>\<open>sctl\<close> is left out. Log lines are not
  modelled, but for the reports of blocked programs.

  \<^bold>\<open>Not modelled.\<close> The goroutines that wait on a ticker or a signal and call one of the functions above when they fire,
  but for the loops of the reconciler, the recorder and the reaper; that a writer waiting for a lock
  goes before new readers, as the lock of the reaper has it; getters and setters of single fields.
\<close>

section \<open>Starting everything\<close>

text \<open>
  One round of a start-up, where every program is wanted and every action of a pass is therefore a start: a
  pass of the reconciler, and the world after its actions, with each program it started in the state \<open>up\<close>.
\<close>

definition start_round :: "(string \<Rightarrow> program) \<Rightarrow> string list \<Rightarrow> server \<Rightarrow> server" where
  "start_round up ord s =
     (case reconcile ord s of (acts, s1) \<Rightarrow>
        fold action_done (map fst acts)
          (s1\<lparr>sv_processes := fold (\<lambda>name m. fmupd name (up name) m) (map fst acts) (sv_processes s1)\<rparr>))"

text \<open>The state \<open>up\<close> of a program meets every condition that another one puts on it.\<close>

definition meets_conditions :: "(string \<Rightarrow> program) \<Rightarrow> server \<Rightarrow> bool" where
  "meets_conditions up s \<longleftrightarrow> (\<forall>name \<in> fmdom' (sv_processes s). GetState (up name) \<noteq> StateStopped \<and>
     (\<forall>dep \<in> set (dependenciesOf s name).
        dependency_met (s\<lparr>sv_processes := fmupd (dep_Name dep) (up (dep_Name dep)) (sv_processes s)\<rparr>) dep))"

text \<open>Every program is wanted, and either STOPPED or up, with nothing in flight.\<close>

definition starting_up :: "(string \<Rightarrow> program) \<Rightarrow> server \<Rightarrow> bool" where
  "starting_up up s \<longleftrightarrow> server_ok s \<and> sv_inflight s = {} \<and> meets_conditions up s \<and>
     (\<forall>name p. fmlookup (sv_processes s) name = Some p \<longrightarrow>
        fmlookup (sv_desired s) name = Some DesiredRunning \<and> (GetState p = StateStopped \<or> p = up name))"

lemma fold_ups:
  "fmlookup (fold (\<lambda>name m. fmupd name (up name) m) names m) n = (if n \<in> set names then Some (up n) else fmlookup m n)"
  by (induction names arbitrary: m) auto

lemma fold_done:
  "sv_inflight (fold action_done names s) = sv_inflight s - set names \<and>
   sv_processes (fold action_done names s) = sv_processes s \<and> sv_config (fold action_done names s) = sv_config s \<and>
   sv_desired (fold action_done names s) = sv_desired s \<and> sv_graph (fold action_done names s) = sv_graph s"
  by (induction names arbitrary: s) (auto simp: action_done_def)

lemma reconcile_graph: "sv_graph (snd (reconcile_names names s)) = sv_graph s"
proof (induction names arbitrary: s)
  case (Cons n names)
  have "sv_graph (snd (reconcile_one n s)) = sv_graph s"
    by (simp add: reconcile_one_def Let_def noteBlocked_def runAction_def split: option.split)
  then show ?case using Cons by (simp add: split_beta)
qed simp

lemma start_round_result:
  assumes "ranges ord (sv_processes s)" and "configured s"
  shows "fmlookup (sv_processes (start_round up ord s)) n = (if due s n \<noteq> None then Some (up n) else fmlookup (sv_processes s) n)"
    and "sv_inflight (start_round up ord s) = sv_inflight s - {n. due s n \<noteq> None}"
    and "sv_config (start_round up ord s) = sv_config s" and "sv_desired (start_round up ord s) = sv_desired s"
    and "sv_graph (start_round up ord s) = sv_graph s"
proof -
  let ?names = "programNames ord s"
  have set_names: "set ?names = fmdom' (sv_processes s)" and "distinct ?names"
    using programNames_sorted [OF assms] sorted_wrt_ranks_distinct by blast+
  note acts = reconcile_names_actions [OF this(2), of s]
  obtain as s1 where run: "reconcile ord s = (as, s1)" by fastforce
  have started: "set (map fst as) = {n. due s n \<noteq> None}"
    using acts run set_names due_programs [of s] by (auto simp: reconcile_def comp_def)
  have frame: "sv_processes s1 = sv_processes s" "sv_config s1 = sv_config s" "sv_desired s1 = sv_desired s" "sv_graph s1 = sv_graph s"
    using run reconcile_names_frame [of ?names s] reconcile_graph [of ?names s] by (simp_all add: reconcile_def)
  have infl: "sv_inflight s1 = sv_inflight s \<union> {n. due s n \<noteq> None}"
    using acts run set_names due_programs [of s] by (auto simp: reconcile_def)
  show "fmlookup (sv_processes (start_round up ord s)) n = (if due s n \<noteq> None then Some (up n) else fmlookup (sv_processes s) n)"
    using started by (simp add: start_round_def run fold_done fold_ups frame)
  show "sv_inflight (start_round up ord s) = sv_inflight s - {n. due s n \<noteq> None}"
    using due_busy [of _ s] started by (auto simp: start_round_def run fold_done infl)
  show "sv_config (start_round up ord s) = sv_config s" "sv_desired (start_round up ord s) = sv_desired s"
    "sv_graph (start_round up ord s) = sv_graph s"
    by (simp_all add: start_round_def run fold_done frame)
qed

lemma tiered_deps_before:
  assumes "tiered names deps tiers" and "n \<in> set (concat (take (Suc i) tiers))"
  shows "set (known_deps names deps n) \<subseteq> set (concat (take i tiers))"
proof -
  obtain t where "t \<in> set (take (Suc i) tiers)" "n \<in> set t" using assms(2) by auto
  then obtain j where j: "j < Suc i" "j < length tiers" "n \<in> set (tiers ! j)"
    unfolding in_set_conv_nth by (metis length_take min_less_iff_conj nth_take)
  then have "set (known_deps names deps n) \<subseteq> set (concat (take j tiers))"
    using assms(1) unfolding tiered_def by blast
  moreover have "set (take j tiers) \<subseteq> set (take i tiers)" using j(1) by (intro set_take_subset_set_take) simp
  ultimately show ?thesis by auto
qed

lemma dependency_met_up:
  "dependency_met (s\<lparr>sv_processes := fmupd (dep_Name dep) p (sv_processes s)\<rparr>) dep \<Longrightarrow>
     fmlookup (sv_processes s') (dep_Name dep) = Some p \<Longrightarrow> dependency_met s' dep"
  by (simp add: dependency_met_def)

lemma due_in_start_up:
  assumes "starting_up up s" and "fmlookup (sv_processes s) n = Some p"
  shows "due s n \<noteq> None \<longleftrightarrow> GetState p = StateStopped \<and> (\<forall>dep \<in> set (dependenciesOf s n). dependency_met s dep)"
  using assms by (auto simp: starting_up_def due_def may_start_def must_stop_def)

lemma start_up_configured: "starting_up up s \<Longrightarrow> configured s"
  by (simp add: starting_up_def server_ok_def configured_def)

lemma start_round_keeps:
  assumes up: "starting_up up s" and ord: "ranges ord (sv_processes s)"
  shows "starting_up up (start_round up ord s)" and "fmdom' (sv_processes (start_round up ord s)) = fmdom' (sv_processes s)"
proof -
  let ?s = "start_round up ord s"
  note res = start_round_result [OF ord start_up_configured [OF up], of up]
  have "n \<in> fmdom' (sv_processes ?s) \<longleftrightarrow> n \<in> fmdom' (sv_processes s)" for n
    using due_programs [of s n] by (auto simp: in_dom_iff res(1))
  then show dom: "fmdom' (sv_processes ?s) = fmdom' (sv_processes s)" by blast
  have deps: "dependenciesOf ?s = dependenciesOf s" by (intro ext) (simp add: dependenciesOf_def res(3))
  have "meets_conditions up ?s"
    using up unfolding starting_up_def meets_conditions_def dom deps dependency_met_def by simp
  moreover have "server_ok ?s" using up by (simp add: starting_up_def server_ok_def dom res(3-5))
  moreover have "sv_inflight ?s = {}" using up res(2) by (simp add: starting_up_def)
  moreover have "fmlookup (sv_desired ?s) n = Some DesiredRunning \<and> (GetState p = StateStopped \<or> p = up n)"
    if p: "fmlookup (sv_processes ?s) n = Some p" for n p
  proof -
    have "n \<in> fmdom' (sv_processes s)" using p dom by (metis fmdom'I)
    then obtain q where q: "fmlookup (sv_processes s) n = Some q" by (auto simp: in_dom_iff)
    with up have "fmlookup (sv_desired s) n = Some DesiredRunning \<and> (GetState q = StateStopped \<or> q = up n)"
      unfolding starting_up_def by blast
    with p q show ?thesis by (auto simp: res(1,4) split: if_splits)
  qed
  ultimately show "starting_up up ?s" unfolding starting_up_def by blast
qed

text \<open>A program whose dependencies are up is up after the next round.\<close>

lemma start_round_ups:
  assumes up: "starting_up up s" and ord: "ranges ord (sv_processes s)" and n: "n \<in> fmdom' (sv_processes s)"
    and deps: "\<forall>d \<in> set (deps_of (sv_config s) n). fmlookup (sv_processes s) d = Some (up d)"
  shows "fmlookup (sv_processes (start_round up ord s)) n = Some (up n)"
proof -
  obtain p where p: "fmlookup (sv_processes s) n = Some p" using n by (auto simp: in_dom_iff)
  have state: "GetState p = StateStopped \<or> p = up n" using up p unfolding starting_up_def by blast
  have "dependency_met s dep" if dep: "dep \<in> set (dependenciesOf s n)" for dep
  proof -
    have "dep_Name dep \<in> set (deps_of (sv_config s) n)"
      using dep by (auto simp: deps_of_def dependenciesOf_def DependencyNames_def split: option.splits)
    with deps have "fmlookup (sv_processes s) (dep_Name dep) = Some (up (dep_Name dep))" by blast
    moreover have "dependency_met (s\<lparr>sv_processes := fmupd (dep_Name dep) (up (dep_Name dep)) (sv_processes s)\<rparr>) dep"
      using up n dep unfolding starting_up_def meets_conditions_def by blast
    ultimately show ?thesis by (rule dependency_met_up [rotated])
  qed
  then have "due s n \<noteq> None \<longleftrightarrow> GetState p = StateStopped" using due_in_start_up [OF up p] by blast
  then show ?thesis using state p start_round_result(1) [OF ord start_up_configured [OF up], of up n] by auto
qed

lemma start_rounds_keep:
  assumes "starting_up up s" and "ranges ord (sv_processes s)"
  shows "starting_up up ((start_round up ord ^^ i) s) \<and> ranges ord (sv_processes ((start_round up ord ^^ i) s)) \<and>
    fmdom' (sv_processes ((start_round up ord ^^ i) s)) = fmdom' (sv_processes s) \<and>
    sv_config ((start_round up ord ^^ i) s) = sv_config s"
proof (induction i)
  case (Suc i)
  let ?s = "(start_round up ord ^^ i) s"
  have up: "starting_up up ?s" "ranges ord (sv_processes ?s)" using Suc by blast+
  have "sv_config (start_round up ord ?s) = sv_config ?s"
    using start_round_result(3) [OF up(2) start_up_configured [OF up(1)]] .
  with Suc start_round_keeps [OF up] show ?case by (simp add: ranges_def)
qed (use assms in simp)

text \<open>
  C8. If every program comes up once it is started, in a state that meets the conditions put on it, then the
  reconciler has started all programs of a server after as many rounds as the dependency graph has
  tiers, whatever the order of the maps: after \<open>i\<close> rounds every program of the first \<open>i\<close> tiers is up.
\<close>

theorem startup_by_tiers:
  assumes "starting_up up s" and "ranges ord (sv_processes s)"
    and "ranges ordN (Programs (sv_config s))" and "ranges ordD (Programs (sv_config s))"
  shows "\<exists>tiers. Tiers ordN ordD (sv_graph s) = Inr tiers \<and>
    (\<forall>i \<le> length tiers. \<forall>n \<in> set (concat (take i tiers)).
       fmlookup (sv_processes ((start_round up ord ^^ i) s)) n = Some (up n)) \<and>
    (\<forall>n \<in> fmdom' (sv_processes s).
       fmlookup (sv_processes ((start_round up ord ^^ length tiers) s)) n = Some (up n))"
proof -
  have ok: "server_ok s" using assms(1) by (simp add: starting_up_def)
  let ?P = "fmdom' (Programs (sv_config s))"
  have g: "graph_ok (sv_graph s)" "fmdom' (nodes (sv_graph s)) = ?P" "GetDependencies (sv_graph s) = deps_of (sv_config s)"
    "sortable (sv_graph s)" "fmdom' (sv_processes s) = ?P" "closed_deps (sv_config s)"
    using ok by (simp_all add: server_ok_def)
  have "ranges ordN (nodes (sv_graph s))" "ranges ordD (nodes (sv_graph s))"
    using assms(3,4) g(2) by (simp_all add: ranges_def)
  from Tiers_sortable [OF g(1) this g(4)] obtain tiers where
    tiers: "Tiers ordN ordD (sv_graph s) = Inr tiers" "set (concat tiers) = ?P" "tiered ?P (deps_of (sv_config s)) tiers"
    using g(2,3) by metis
  have ups: "\<forall>n \<in> set (concat (take i tiers)). fmlookup (sv_processes ((start_round up ord ^^ i) s)) n = Some (up n)"
    if "i \<le> length tiers" for i
    using that
  proof (induction i)
    case (Suc i)
    let ?s = "(start_round up ord ^^ i) s"
    have keep: "starting_up up ?s" "ranges ord (sv_processes ?s)" "fmdom' (sv_processes ?s) = ?P" "sv_config ?s = sv_config s"
      using start_rounds_keep [OF assms(1,2), of i] g(5) by simp_all
    have IH: "fmlookup (sv_processes ?s) n = Some (up n)" if before: "n \<in> set (concat (take i tiers))" for n
      using Suc before by auto
    have "set (deps_of (sv_config s) n) \<subseteq> set (concat (take i tiers))" if n: "n \<in> set (concat (take (Suc i) tiers))" for n
      using tiered_deps_before [OF tiers(3) n] closed_known_deps [OF g(6)] by simp
    moreover have "n \<in> ?P" if "n \<in> set (concat (take (Suc i) tiers))" for n
      using that tiers(2) by (auto dest: in_set_takeD)
    ultimately have "fmlookup (sv_processes (start_round up ord ?s)) n = Some (up n)"
      if "n \<in> set (concat (take (Suc i) tiers))" for n
      using start_round_ups [OF keep(1,2), unfolded keep(3,4)] IH that by blast
    then show ?case by simp
  qed simp
  have "\<forall>n \<in> fmdom' (sv_processes s).
      fmlookup (sv_processes ((start_round up ord ^^ length tiers) s)) n = Some (up n)"
    using ups [OF order_refl] unfolding take_all [OF order_refl] tiers(2) g(5) .
  with tiers(1) ups show ?thesis by blast
qed

lemma sample_running_programs:
  "sv_processes sample_running = fmmap (\<lambda>_. newProcess) (Programs (sv_config sample_running))"
  "sv_desired sample_running = fmmap initial_desired (Programs (sv_config sample_running))"
  "sv_inflight sample_running = {}"
proof -
  obtain s where "sample_new = Inr (s, ())" using sample_new_made by blast
  then show "sv_processes sample_running = fmmap (\<lambda>_. newProcess) (Programs (sv_config sample_running))"
    "sv_desired sample_running = fmmap initial_desired (Programs (sv_config sample_running))"
    "sv_inflight sample_running = {}"
    by (auto simp: sample_running_def sample_new_def New_def Let_def split: sum.splits)
qed

theorem startup_by_tiers_witness:
  "\<exists>k. \<forall>n \<in> {''db'', ''api''}. fmlookup (sv_processes ((start_round (\<lambda>_. sample_program_in StateRunning)
     [''db'', ''api''] ^^ k) sample_running)) n = Some (sample_program_in StateRunning)"
proof -
  let ?up = "\<lambda>_. sample_program_in StateRunning"
  have ord: "ranges ord (Programs (sv_config sample_running))" if "ord \<in> {[''db'', ''api''], [''api'', ''db'']}" for ord
    using that by (auto simp: sample_running_config ranges_def sample_validate_def)
  have dom: "fmdom' (sv_processes sample_running) = {''db'', ''api''}"
    by (auto simp: sample_running_programs(1) sample_running_config sample_validate_def)
  have "starting_up ?up sample_running"
    unfolding starting_up_def
  proof (intro conjI allI impI)
    show "server_ok sample_running" using sample_made(2) by (simp add: sample_running_def)
    show "sv_inflight sample_running = {}" by (rule sample_running_programs(3))
    show "meets_conditions ?up sample_running"
      by (auto simp: meets_conditions_def dom dependenciesOf_def sample_running_config sample_validate_def
          sample_program_in_def GetState_def dependency_met_def elems_def)
    fix name p assume p: "fmlookup (sv_processes sample_running) name = Some p"
    then have "name \<in> {''db'', ''api''}" using dom by (metis fmdom'I)
    then show "fmlookup (sv_desired sample_running) name = Some DesiredRunning"
      by (auto simp: sample_running_programs(2) sample_running_config sample_validate_def initial_desired_def sample_config_def)
    show "GetState p = StateStopped \<or> p = ?up name"
      using p by (auto simp: sample_running_programs(1) newProcess_def NewProcess_def GetState_def)
  qed
  moreover have "ranges [''db'', ''api''] (sv_processes sample_running)" using ord [of "[''db'', ''api'']"] by (simp add: ranges_def sample_running_programs(1))
  ultimately have "\<exists>tiers. \<forall>n \<in> fmdom' (sv_processes sample_running). fmlookup (sv_processes ((start_round ?up
      [''db'', ''api''] ^^ length (tiers :: string list list)) sample_running)) n = Some (?up n)"
    using startup_by_tiers [of ?up sample_running "[''db'', ''api'']" "[''db'', ''api'']" "[''api'', ''db'']"] ord by blast
  then show ?thesis unfolding dom by blast
qed

end
